(* ===== verification/Prelude.thy ===== *)
theory Prelude imports Main "HOL-Library.Word" begin

text \<open>
  What the components share: the widths of the machine integers of the C and C++ sources, the
  compiler intrinsics they use (byte swaps), bytes of a word, and the collection \<open>bitwise\<close> of
  rewrite rules that turns a question about one bit of an expression built from shifts and masks
  into a question about the bits of its inputs.  The component proofs use it as
  \<open>simp add: bitwise\<close>.  It also holds the few facts on lists and folds that several
  components need.
\<close>

unbundle bit_operations_syntax

type_synonym u8 = "8 word"
type_synonym u16 = "16 word"
type_synonym u32 = "32 word"
type_synonym u64 = "64 word"

named_theorems bitwise \<open>bits of expressions built from shifts, masks and casts\<close>

section \<open>Bits\<close>

lemma and_one_is_bit [bitwise]: "x AND 1 = (if bit x 0 then 1 else (0::'a::len word))"
  by (simp add: and_one_eq mod_2_eq_odd bit_0)

lemma bit_times_two [bitwise]:
  "bit (w * 2 :: 'a::len word) n \<longleftrightarrow> 0 < n \<and> n < LENGTH('a) \<and> bit w (n - 1)"
  using bit_double_iff [of w n] by (auto simp: mult.commute)

lemmas bit_simps_words [bitwise] = bit_simps

text \<open>Two words are equal when they agree on every bit below their width.\<close>

lemma word_eq_bits:
  fixes x y :: "'a::len word"
  assumes "\<And>n. n < LENGTH('a) \<Longrightarrow> bit x n = bit y n"
  shows "x = y"
  using assms by (rule bit_word_eqI)

lemma Suc_Suc_0_is_2 [bitwise]: "Suc (Suc 0) = 2"
  by simp

lemma bit_beyond [bitwise]: "LENGTH('a) \<le> n \<Longrightarrow> \<not> bit (w::'a::len word) n"
  using bit_imp_le_length by fastforce

text \<open>Bit by bit: a statement about every bit below a fixed width is one about each index
  in turn; the lists of indexes are written out so that every index is a numeral.\<close>

lemma bounded_all_upt: "(\<forall>n < k. P n) \<longleftrightarrow> list_all P [0..<k]"
  by (auto simp: list_all_iff)

lemma upt_allD: "list_all P [0..<k] \<Longrightarrow> n < k \<Longrightarrow> P n"
  by (auto simp: list_all_iff)

lemma upto_allD: "list_all P [a..b] \<Longrightarrow> a \<le> n \<Longrightarrow> n \<le> b \<Longrightarrow> P n"
  by (auto simp: list_all_iff)

lemma upt_4: "[0..<4] = [0, 1, 2, 3]"
  by (simp add: upt_conv_Cons)

lemma upt_8: "[0..<8] = [0, 1, 2, 3, 4, 5, 6, 7]"
  by (simp add: upt_conv_Cons)

lemma upt_16: "[0..<16] = [0, 1, 2, 3, 4, 5, 6, 7, 8, 9, 10, 11, 12, 13, 14, 15]"
  by (simp add: upt_conv_Cons)

lemma upt_32: "[0..<32] = [0, 1, 2, 3, 4, 5, 6, 7, 8, 9, 10, 11, 12, 13, 14, 15, 16, 17, 18, 19, 20, 21, 22, 23, 24, 25, 26, 27, 28, 29, 30, 31]"
  by (simp add: upt_conv_Cons)

lemma upt_64: "[0..<64] = [0, 1, 2, 3, 4, 5, 6, 7, 8, 9, 10, 11, 12, 13, 14, 15, 16, 17, 18, 19, 20, 21, 22, 23, 24, 25, 26, 27, 28, 29, 30, 31, 32, 33, 34, 35, 36, 37, 38, 39, 40, 41, 42, 43, 44, 45, 46, 47, 48, 49, 50, 51, 52, 53, 54, 55, 56, 57, 58, 59, 60, 61, 62, 63]"
  by (simp add: upt_conv_Cons)

lemmas upt_width = upt_4 upt_8 upt_16 upt_32 upt_64
lemmas each_bit = bounded_all_upt upt_width

lemma byte_eqI:
  "list_all (\<lambda>n. bit x n = bit y n) [0, 1, 2, 3, 4, 5, 6, 7] \<Longrightarrow> x = (y :: u8)"
  by (rule word_eq_bits) (auto simp: list_all_iff less_Suc_eq numeral_nat)

lemma word16_eqI:
  "list_all (\<lambda>n. bit x n = bit y n) [0..<16] \<Longrightarrow> x = (y :: u16)"
  by (rule word_eq_bits) (auto simp: list_all_iff)

lemma word32_eqI:
  "list_all (\<lambda>n. bit x n = bit y n) [0..<32] \<Longrightarrow> x = (y :: u32)"
  by (rule word_eq_bits) (auto simp: list_all_iff)

lemma word64_eqI:
  "list_all (\<lambda>n. bit x n = bit y n) [0..<64] \<Longrightarrow> x = (y :: u64)"
  by (rule word_eq_bits) (auto simp: list_all_iff)

lemma bit_fold_or:
  "bit (fold (\<lambda>i d. d OR w i) is d) n \<longleftrightarrow> bit (d :: 'a::semiring_bit_operations) n \<or> (\<exists>i \<in> set is. bit (w i) n)"
  by (induction "is" arbitrary: d) (auto simp: bit_or_iff)

lemma and_two_is_bit: "(w :: u64) AND 2 = 0 \<longleftrightarrow> \<not> bit w 1"
proof -
  have "w AND 2 = w AND push_bit 1 1" by simp
  also have "\<dots> = 0 \<longleftrightarrow> \<not> bit w 1"
    by (metis (no_types) bit_iff_and_push_bit_not_eq_0)
  finally show ?thesis .
qed

lemma small_of_nat_bits:
  assumes "t < 8" "3 \<le> n"
  shows "\<not> bit (of_nat t :: u64) n"
proof -
  have "(of_nat t :: u64) = of_nat (take_bit 3 t)" using assms(1) by (simp add: take_bit_nat_eq_self)
  also have "\<dots> = take_bit 3 (of_nat t)" by (simp add: take_bit_of_nat)
  finally show ?thesis using assms(2) by (metis bit_take_bit_iff not_le)
qed

lemma small_nat_bits:
  assumes "t < 8" "3 \<le> n"
  shows "\<not> bit (t :: nat) n"
proof -
  have "t = take_bit 3 t" using assms(1) by (simp add: take_bit_nat_eq_self)
  then show ?thesis using assms(2) by (metis bit_take_bit_iff not_le)
qed

section \<open>Bytes as numbers\<close>

lemma unat_byte_le: "unat (x :: u8) \<le> 255"
  using unsigned_less [of x, where 'a = nat] by simp

lemma uint_byte_le: "uint (x :: u8) \<le> 255"
  using unsigned_less [of x, where 'a = int] by simp

lemma uint_le_of_unat: "unat x \<le> n \<Longrightarrow> uint x \<le> int n"
  using of_nat_le_iff [of "unat x" n, where 'a = int] by simp

lemma unat_ucast_byte [simp]:
  "unat (ucast (x :: u8) :: u16) = unat x"
  "unat (ucast (x :: u8) :: u32) = unat x"
  "unat (ucast (x :: u8) :: u64) = unat x"
  using unat_byte_le [of x] by (simp_all add: unsigned_ucast_eq take_bit_nat_eq_self)

text \<open>Division of C integers truncates towards zero.\<close>

definition tdiv :: "int \<Rightarrow> int \<Rightarrow> int" where
  "tdiv a b = sgn a * sgn b * (\<bar>a\<bar> div \<bar>b\<bar>)"

section \<open>Byte order\<close>

text \<open>The compiler intrinsics \<open>__builtin_bswap32\<close> and \<open>__builtin_bswap64\<close>
  (\<open>_bswap\<close> and \<open>_bswap64\<close> in the sources).\<close>

definition bswap32 :: "u32 \<Rightarrow> u32" where
  "bswap32 x = push_bit 24 (x AND 0xFF) OR push_bit 8 (x AND 0xFF00) OR
     (drop_bit 8 x AND 0xFF00) OR drop_bit 24 x"

definition bswap64 :: "u64 \<Rightarrow> u64" where
  "bswap64 x = push_bit 32 (ucast (bswap32 (ucast x))) OR ucast (bswap32 (ucast (drop_bit 32 x)))"

lemma bit_bswap32:
  "n < 32 \<Longrightarrow> bit (bswap32 x) n \<longleftrightarrow> bit x (24 - 8 * (n div 8) + n mod 8)"
proof -
  have "\<forall>n < 32. bit (bswap32 x) n \<longleftrightarrow> bit x (24 - 8 * (n div 8) + n mod 8)"
    unfolding each_bit by (simp add: bswap32_def bitwise)
  then show "n < 32 \<Longrightarrow> ?thesis" by blast
qed

lemma bswap32_bswap32 [simp]: "bswap32 (bswap32 x) = x"
  by (rule word32_eqI) (simp add: upt_32 bit_bswap32 Suc_Suc_0_is_2)

section \<open>Lists\<close>

lemma upt_2: "[0..<2] = [0, 1]"
  by (simp add: upt_conv_Cons)

lemma upt_3: "[0..<3] = [0, 1, 2]"
  by (simp add: upt_conv_Cons)

lemma less_3_cases: "(c :: nat) < 3 \<Longrightarrow> c = 0 \<or> c = 1 \<or> c = 2"
  by auto

lemma less_4_cases: "(c :: nat) < 4 \<Longrightarrow> c = 0 \<or> c = 1 \<or> c = 2 \<or> c = 3"
  by auto

lemma length_4_cases: "length xs = 4 \<Longrightarrow> \<exists>a b c d. xs = [a, b, c, d]"
  by (auto simp: numeral_eq_Suc length_Suc_conv)

lemma replicate_4: "replicate 4 x = [x, x, x, x]"
  by (simp add: numeral_eq_Suc)

lemma replicate_16: "replicate 16 x = [x, x, x, x, x, x, x, x, x, x, x, x, x, x, x, x]"
  by (simp add: numeral_eq_Suc)

lemma replicate_8: "replicate 8 x = [x, x, x, x, x, x, x, x]"
  by (simp add: numeral_eq_Suc)

lemma fold_upt_Suc: "fold f [0..<Suc n] s = f n (fold f [0..<n] s)"
  by simp

lemma length_fold_update:
  "length (fold (\<lambda>i xs. xs[p i := v i xs]) is ys) = length ys"
  by (induction "is" arbitrary: ys) auto

text \<open>Concatenated rows of the same length.\<close>

lemma concat_map_nth:
  assumes "\<And>k. k < n \<Longrightarrow> length (f k) = m" "i < m" "k < n"
  shows "concat (map f [0..<n]) ! (m * k + i) = f k ! i"
  using assms
proof (induction n)
  case (Suc n)
  have len: "length (concat (map f [0..<n])) = m * n" if "\<And>k. k < n \<Longrightarrow> length (f k) = m" for n
    using that by (induction n) simp_all
  show ?case
  proof (cases "k = n")
    case True
    then show ?thesis using Suc.prems by (simp add: nth_append len)
  next
    case False
    then have "k < n" using Suc.prems by simp
    then have "m * k + m \<le> m * n" by (metis Suc_leI mult_Suc_right mult_le_mono2 add.commute)
    then have "m * k + i < m * n" using Suc.prems(2) by linarith
    then show ?thesis using Suc \<open>k < n\<close> by (simp add: nth_append len)
  qed
qed simp

end
