(* ===== verification/EtcTables.thy ===== *)
theory EtcTables imports Prelude begin

text \<open>
  The constant tables of \<open>src/Tables.cpp\<close>, with the entries in the source's order.
  The scalar tables are lists (of lists); the vector constants, which the SIMD code paths load
  into registers, are lists of lanes.  The lemmas say that the two forms agree: a vector constant
  holds the columns of the scalar table it was transcribed from, and the tables have the ranges
  and the sign symmetry the encoders rely on.
\<close>

section \<open>Scalar tables\<close>

definition g_table :: "int list list" where
  "g_table = [
     [2, 8, - 2, - 8],
     [5, 17, - 5, - 17],
     [9, 29, - 9, - 29],
     [13, 42, - 13, - 42],
     [18, 60, - 18, - 60],
     [24, 80, - 24, - 80],
     [33, 106, - 33, - 106],
     [47, 183, - 47, - 183]]"

definition g_table256 :: "int list list" where
  "g_table256 = [
     [2 * 256, 8 * 256, - (2 * 256), - (8 * 256)],
     [5 * 256, 17 * 256, - (5 * 256), - (17 * 256)],
     [9 * 256, 29 * 256, - (9 * 256), - (29 * 256)],
     [13 * 256, 42 * 256, - (13 * 256), - (42 * 256)],
     [18 * 256, 60 * 256, - (18 * 256), - (60 * 256)],
     [24 * 256, 80 * 256, - (24 * 256), - (80 * 256)],
     [33 * 256, 106 * 256, - (33 * 256), - (106 * 256)],
     [47 * 256, 183 * 256, - (47 * 256), - (183 * 256)]]"

definition g_id :: "nat list list" where
  "g_id = [
     [1, 1, 1, 1, 1, 1, 1, 1, 0, 0, 0, 0, 0, 0, 0, 0],
     [3, 3, 2, 2, 3, 3, 2, 2, 3, 3, 2, 2, 3, 3, 2, 2],
     [5, 5, 5, 5, 5, 5, 5, 5, 4, 4, 4, 4, 4, 4, 4, 4],
     [7, 7, 6, 6, 7, 7, 6, 6, 7, 7, 6, 6, 7, 7, 6, 6]]"

definition g_avg2 :: "u32 list" where
  "g_avg2 = [0x00, 0x11, 0x22, 0x33, 0x44, 0x55, 0x66, 0x77, 0x88, 0x99, 0xAA, 0xBB, 0xCC, 0xDD, 0xEE, 0xFF]"

definition g_flags :: "u32 list" where
  "g_flags = [
     0x80800402, 0x80800402, 0x80800402, 0x80800402,
     0x80800402, 0x80800402, 0x80800402, 0x8080E002,
     0x80800402, 0x80800402, 0x8080E002, 0x8080E002,
     0x80800402, 0x8080E002, 0x8080E002, 0x8080E002,
     0x80000402, 0x80000402, 0x80000402, 0x80000402,
     0x80000402, 0x80000402, 0x80000402, 0x8000E002,
     0x80000402, 0x80000402, 0x8000E002, 0x8000E002,
     0x80000402, 0x8000E002, 0x8000E002, 0x8000E002,
     0x00800402, 0x00800402, 0x00800402, 0x00800402,
     0x00800402, 0x00800402, 0x00800402, 0x0080E002,
     0x00800402, 0x00800402, 0x0080E002, 0x0080E002,
     0x00800402, 0x0080E002, 0x0080E002, 0x0080E002,
     0x00000402, 0x00000402, 0x00000402, 0x00000402,
     0x00000402, 0x00000402, 0x00000402, 0x0000E002,
     0x00000402, 0x00000402, 0x0000E002, 0x0000E002,
     0x00000402, 0x0000E002, 0x0000E002, 0x0000E002]"

definition g_alpha :: "int list list" where
  "g_alpha = [
     [- 3, - 6, - 9, - 15, 2, 5, 8, 14],
     [- 3, - 7, - 10, - 13, 2, 6, 9, 12],
     [- 2, - 5, - 8, - 13, 1, 4, 7, 12],
     [- 2, - 4, - 6, - 13, 1, 3, 5, 12],
     [- 3, - 6, - 8, - 12, 2, 5, 7, 11],
     [- 3, - 7, - 9, - 11, 2, 6, 8, 10],
     [- 4, - 7, - 8, - 11, 3, 6, 7, 10],
     [- 3, - 5, - 8, - 11, 2, 4, 7, 10],
     [- 2, - 6, - 8, - 10, 1, 5, 7, 9],
     [- 2, - 5, - 8, - 10, 1, 4, 7, 9],
     [- 2, - 4, - 8, - 10, 1, 3, 7, 9],
     [- 2, - 5, - 7, - 10, 1, 4, 6, 9],
     [- 3, - 4, - 7, - 10, 2, 3, 6, 9],
     [- 1, - 2, - 3, - 10, 0, 1, 2, 9],
     [- 4, - 6, - 8, - 9, 3, 5, 7, 8],
     [- 3, - 5, - 7, - 9, 2, 4, 6, 8]]"

definition g_alphaRange :: "int list" where
  "g_alphaRange = [
     0x100FF div (1 + g_alpha ! 0 ! 7 - g_alpha ! 0 ! 3),
     0x100FF div (1 + g_alpha ! 1 ! 7 - g_alpha ! 1 ! 3),
     0x100FF div (1 + g_alpha ! 2 ! 7 - g_alpha ! 2 ! 3),
     0x100FF div (1 + g_alpha ! 3 ! 7 - g_alpha ! 3 ! 3),
     0x100FF div (1 + g_alpha ! 4 ! 7 - g_alpha ! 4 ! 3),
     0x100FF div (1 + g_alpha ! 5 ! 7 - g_alpha ! 5 ! 3),
     0x100FF div (1 + g_alpha ! 6 ! 7 - g_alpha ! 6 ! 3),
     0x100FF div (1 + g_alpha ! 7 ! 7 - g_alpha ! 7 ! 3),
     0x100FF div (1 + g_alpha ! 8 ! 7 - g_alpha ! 8 ! 3),
     0x100FF div (1 + g_alpha ! 9 ! 7 - g_alpha ! 9 ! 3),
     0x100FF div (1 + g_alpha ! 10 ! 7 - g_alpha ! 10 ! 3),
     0x100FF div (1 + g_alpha ! 11 ! 7 - g_alpha ! 11 ! 3),
     0x100FF div (1 + g_alpha ! 12 ! 7 - g_alpha ! 12 ! 3),
     0x100FF div (1 + g_alpha ! 13 ! 7 - g_alpha ! 13 ! 3),
     0x100FF div (1 + g_alpha ! 14 ! 7 - g_alpha ! 14 ! 3),
     0x100FF div (1 + g_alpha ! 15 ! 7 - g_alpha ! 15 ! 3)]"

section \<open>Vector constants\<close>

definition g_table_SIMD :: "int list list" where
  "g_table_SIMD = [
     [2, 5, 9, 13, 18, 24, 33, 47],
     [8, 17, 29, 42, 60, 80, 106, 183]]"

definition g_table128_SIMD :: "int list list" where
  "g_table128_SIMD = [
     [2*128, 5*128, 9*128, 13*128, 18*128, 24*128, 33*128, 47*128],
     [8*128, 17*128, 29*128, 42*128, 60*128, 80*128, 106*128, 183*128]]"

definition g_table256_SIMD :: "int list list" where
  "g_table256_SIMD = [
     [2*256, 5*256, 9*256, 13*256],
     [8*256, 17*256, 29*256, 42*256],
     [18*256, 24*256, 33*256, 47*256],
     [60*256, 80*256, 106*256, 183*256]]"

definition g_alpha_SIMD :: "int list list" where
  "g_alpha_SIMD = [
     [g_alpha ! 0 ! 0, g_alpha ! 0 ! 1, g_alpha ! 0 ! 2, g_alpha ! 0 ! 3, g_alpha ! 0 ! 4, g_alpha ! 0 ! 5, g_alpha ! 0 ! 6, g_alpha ! 0 ! 7],
     [g_alpha ! 1 ! 0, g_alpha ! 1 ! 1, g_alpha ! 1 ! 2, g_alpha ! 1 ! 3, g_alpha ! 1 ! 4, g_alpha ! 1 ! 5, g_alpha ! 1 ! 6, g_alpha ! 1 ! 7],
     [g_alpha ! 2 ! 0, g_alpha ! 2 ! 1, g_alpha ! 2 ! 2, g_alpha ! 2 ! 3, g_alpha ! 2 ! 4, g_alpha ! 2 ! 5, g_alpha ! 2 ! 6, g_alpha ! 2 ! 7],
     [g_alpha ! 3 ! 0, g_alpha ! 3 ! 1, g_alpha ! 3 ! 2, g_alpha ! 3 ! 3, g_alpha ! 3 ! 4, g_alpha ! 3 ! 5, g_alpha ! 3 ! 6, g_alpha ! 3 ! 7],
     [g_alpha ! 4 ! 0, g_alpha ! 4 ! 1, g_alpha ! 4 ! 2, g_alpha ! 4 ! 3, g_alpha ! 4 ! 4, g_alpha ! 4 ! 5, g_alpha ! 4 ! 6, g_alpha ! 4 ! 7],
     [g_alpha ! 5 ! 0, g_alpha ! 5 ! 1, g_alpha ! 5 ! 2, g_alpha ! 5 ! 3, g_alpha ! 5 ! 4, g_alpha ! 5 ! 5, g_alpha ! 5 ! 6, g_alpha ! 5 ! 7],
     [g_alpha ! 6 ! 0, g_alpha ! 6 ! 1, g_alpha ! 6 ! 2, g_alpha ! 6 ! 3, g_alpha ! 6 ! 4, g_alpha ! 6 ! 5, g_alpha ! 6 ! 6, g_alpha ! 6 ! 7],
     [g_alpha ! 7 ! 0, g_alpha ! 7 ! 1, g_alpha ! 7 ! 2, g_alpha ! 7 ! 3, g_alpha ! 7 ! 4, g_alpha ! 7 ! 5, g_alpha ! 7 ! 6, g_alpha ! 7 ! 7],
     [g_alpha ! 8 ! 0, g_alpha ! 8 ! 1, g_alpha ! 8 ! 2, g_alpha ! 8 ! 3, g_alpha ! 8 ! 4, g_alpha ! 8 ! 5, g_alpha ! 8 ! 6, g_alpha ! 8 ! 7],
     [g_alpha ! 9 ! 0, g_alpha ! 9 ! 1, g_alpha ! 9 ! 2, g_alpha ! 9 ! 3, g_alpha ! 9 ! 4, g_alpha ! 9 ! 5, g_alpha ! 9 ! 6, g_alpha ! 9 ! 7],
     [g_alpha ! 10 ! 0, g_alpha ! 10 ! 1, g_alpha ! 10 ! 2, g_alpha ! 10 ! 3, g_alpha ! 10 ! 4, g_alpha ! 10 ! 5, g_alpha ! 10 ! 6, g_alpha ! 10 ! 7],
     [g_alpha ! 11 ! 0, g_alpha ! 11 ! 1, g_alpha ! 11 ! 2, g_alpha ! 11 ! 3, g_alpha ! 11 ! 4, g_alpha ! 11 ! 5, g_alpha ! 11 ! 6, g_alpha ! 11 ! 7],
     [g_alpha ! 12 ! 0, g_alpha ! 12 ! 1, g_alpha ! 12 ! 2, g_alpha ! 12 ! 3, g_alpha ! 12 ! 4, g_alpha ! 12 ! 5, g_alpha ! 12 ! 6, g_alpha ! 12 ! 7],
     [g_alpha ! 13 ! 0, g_alpha ! 13 ! 1, g_alpha ! 13 ! 2, g_alpha ! 13 ! 3, g_alpha ! 13 ! 4, g_alpha ! 13 ! 5, g_alpha ! 13 ! 6, g_alpha ! 13 ! 7],
     [g_alpha ! 14 ! 0, g_alpha ! 14 ! 1, g_alpha ! 14 ! 2, g_alpha ! 14 ! 3, g_alpha ! 14 ! 4, g_alpha ! 14 ! 5, g_alpha ! 14 ! 6, g_alpha ! 14 ! 7],
     [g_alpha ! 15 ! 0, g_alpha ! 15 ! 1, g_alpha ! 15 ! 2, g_alpha ! 15 ! 3, g_alpha ! 15 ! 4, g_alpha ! 15 ! 5, g_alpha ! 15 ! 6, g_alpha ! 15 ! 7]]"

definition g_alphaRange_SIMD :: "int list" where
  "g_alphaRange_SIMD = [g_alphaRange ! 0, g_alphaRange ! 1, g_alphaRange ! 4, g_alphaRange ! 5,
     g_alphaRange ! 8, g_alphaRange ! 14, 0, 0]"

definition g_alpha_AVX :: "int list list" where
  "g_alpha_AVX = [
     [g_alpha ! 0 ! 0, g_alpha ! 1 ! 0, g_alpha ! 2 ! 0, g_alpha ! 3 ! 0, g_alpha ! 4 ! 0, g_alpha ! 5 ! 0, g_alpha ! 6 ! 0, g_alpha ! 7 ! 0, g_alpha ! 8 ! 0, g_alpha ! 9 ! 0, g_alpha ! 10 ! 0, g_alpha ! 11 ! 0, g_alpha ! 12 ! 0, g_alpha ! 13 ! 0, g_alpha ! 14 ! 0, g_alpha ! 15 ! 0],
     [g_alpha ! 0 ! 1, g_alpha ! 1 ! 1, g_alpha ! 2 ! 1, g_alpha ! 3 ! 1, g_alpha ! 4 ! 1, g_alpha ! 5 ! 1, g_alpha ! 6 ! 1, g_alpha ! 7 ! 1, g_alpha ! 8 ! 1, g_alpha ! 9 ! 1, g_alpha ! 10 ! 1, g_alpha ! 11 ! 1, g_alpha ! 12 ! 1, g_alpha ! 13 ! 1, g_alpha ! 14 ! 1, g_alpha ! 15 ! 1],
     [g_alpha ! 0 ! 2, g_alpha ! 1 ! 2, g_alpha ! 2 ! 2, g_alpha ! 3 ! 2, g_alpha ! 4 ! 2, g_alpha ! 5 ! 2, g_alpha ! 6 ! 2, g_alpha ! 7 ! 2, g_alpha ! 8 ! 2, g_alpha ! 9 ! 2, g_alpha ! 10 ! 2, g_alpha ! 11 ! 2, g_alpha ! 12 ! 2, g_alpha ! 13 ! 2, g_alpha ! 14 ! 2, g_alpha ! 15 ! 2],
     [g_alpha ! 0 ! 3, g_alpha ! 1 ! 3, g_alpha ! 2 ! 3, g_alpha ! 3 ! 3, g_alpha ! 4 ! 3, g_alpha ! 5 ! 3, g_alpha ! 6 ! 3, g_alpha ! 7 ! 3, g_alpha ! 8 ! 3, g_alpha ! 9 ! 3, g_alpha ! 10 ! 3, g_alpha ! 11 ! 3, g_alpha ! 12 ! 3, g_alpha ! 13 ! 3, g_alpha ! 14 ! 3, g_alpha ! 15 ! 3],
     [g_alpha ! 0 ! 4, g_alpha ! 1 ! 4, g_alpha ! 2 ! 4, g_alpha ! 3 ! 4, g_alpha ! 4 ! 4, g_alpha ! 5 ! 4, g_alpha ! 6 ! 4, g_alpha ! 7 ! 4, g_alpha ! 8 ! 4, g_alpha ! 9 ! 4, g_alpha ! 10 ! 4, g_alpha ! 11 ! 4, g_alpha ! 12 ! 4, g_alpha ! 13 ! 4, g_alpha ! 14 ! 4, g_alpha ! 15 ! 4],
     [g_alpha ! 0 ! 5, g_alpha ! 1 ! 5, g_alpha ! 2 ! 5, g_alpha ! 3 ! 5, g_alpha ! 4 ! 5, g_alpha ! 5 ! 5, g_alpha ! 6 ! 5, g_alpha ! 7 ! 5, g_alpha ! 8 ! 5, g_alpha ! 9 ! 5, g_alpha ! 10 ! 5, g_alpha ! 11 ! 5, g_alpha ! 12 ! 5, g_alpha ! 13 ! 5, g_alpha ! 14 ! 5, g_alpha ! 15 ! 5],
     [g_alpha ! 0 ! 6, g_alpha ! 1 ! 6, g_alpha ! 2 ! 6, g_alpha ! 3 ! 6, g_alpha ! 4 ! 6, g_alpha ! 5 ! 6, g_alpha ! 6 ! 6, g_alpha ! 7 ! 6, g_alpha ! 8 ! 6, g_alpha ! 9 ! 6, g_alpha ! 10 ! 6, g_alpha ! 11 ! 6, g_alpha ! 12 ! 6, g_alpha ! 13 ! 6, g_alpha ! 14 ! 6, g_alpha ! 15 ! 6],
     [g_alpha ! 0 ! 7, g_alpha ! 1 ! 7, g_alpha ! 2 ! 7, g_alpha ! 3 ! 7, g_alpha ! 4 ! 7, g_alpha ! 5 ! 7, g_alpha ! 6 ! 7, g_alpha ! 7 ! 7, g_alpha ! 8 ! 7, g_alpha ! 9 ! 7, g_alpha ! 10 ! 7, g_alpha ! 11 ! 7, g_alpha ! 12 ! 7, g_alpha ! 13 ! 7, g_alpha ! 14 ! 7, g_alpha ! 15 ! 7]]"

definition g_alphaRange_AVX :: "int list" where
  "g_alphaRange_AVX = [
     g_alphaRange ! 0, g_alphaRange ! 1, g_alphaRange ! 2, g_alphaRange ! 3, g_alphaRange ! 4, g_alphaRange ! 5, g_alphaRange ! 6, g_alphaRange ! 7, g_alphaRange ! 8, g_alphaRange ! 9, g_alphaRange ! 10, g_alphaRange ! 11, g_alphaRange ! 12, g_alphaRange ! 13, g_alphaRange ! 14, g_alphaRange ! 15]"

definition g_table128_NEON :: "int list list" where
  "g_table128_NEON = [
     [2*128, 5*128, 9*128, 13*128, 18*128, 24*128, 33*128, 47*128],
     [8*128, 17*128, 29*128, 42*128, 60*128, 80*128, 106*128, 183*128]]"

definition g_table256_NEON :: "int list list" where
  "g_table256_NEON = [
     [2*256, 5*256, 9*256, 13*256],
     [8*256, 17*256, 29*256, 42*256],
     [18*256, 24*256, 33*256, 47*256],
     [60*256, 80*256, 106*256, 183*256]]"

definition g_alpha_NEON :: "int list list" where
  "g_alpha_NEON = [
     [- 3, - 6, - 9, - 15, 2, 5, 8, 14],
     [- 3, - 7, - 10, - 13, 2, 6, 9, 12],
     [- 2, - 5, - 8, - 13, 1, 4, 7, 12],
     [- 2, - 4, - 6, - 13, 1, 3, 5, 12],
     [- 3, - 6, - 8, - 12, 2, 5, 7, 11],
     [- 3, - 7, - 9, - 11, 2, 6, 8, 10],
     [- 4, - 7, - 8, - 11, 3, 6, 7, 10],
     [- 3, - 5, - 8, - 11, 2, 4, 7, 10],
     [- 2, - 6, - 8, - 10, 1, 5, 7, 9],
     [- 2, - 5, - 8, - 10, 1, 4, 7, 9],
     [- 2, - 4, - 8, - 10, 1, 3, 7, 9],
     [- 2, - 5, - 7, - 10, 1, 4, 6, 9],
     [- 3, - 4, - 7, - 10, 2, 3, 6, 9],
     [- 1, - 2, - 3, - 10, 0, 1, 2, 9],
     [- 4, - 6, - 8, - 9, 3, 5, 7, 8],
     [- 3, - 5, - 7, - 9, 2, 4, 6, 8]]"

definition g_alphaRange_NEON :: "int list" where
  "g_alphaRange_NEON = [g_alphaRange ! 0, g_alphaRange ! 1, g_alphaRange ! 4, g_alphaRange ! 5,
     g_alphaRange ! 8, g_alphaRange ! 14, 0, 0]"

section \<open>Shape, range and agreement of the tables\<close>

lemma length_tables [simp]:
  "length g_table = 8" "length g_table256 = 8" "length g_id = 4" "length g_avg2 = 16"
  "length g_flags = 64" "length g_alpha = 16" "length g_alphaRange = 16"
  by (simp_all add: g_table_def g_table256_def g_id_def g_avg2_def g_flags_def g_alpha_def
      g_alphaRange_def)

text \<open>The sign symmetry of the ETC1 modifiers: columns 2 and 3 are columns 0 and 1 negated.\<close>

lemma g_table_symmetric:
  "list_all (\<lambda>r. length r = 4 \<and> 0 < r ! 0 \<and> r ! 0 < r ! 1 \<and> r ! 2 = - (r ! 0) \<and> r ! 3 = - (r ! 1)) g_table"
  by (simp add: g_table_def)

lemma g_table256_scaled: "g_table256 = map (map (\<lambda>v. v * 256)) g_table"
  by (simp add: g_table_def g_table256_def)

lemma g_table_range: "list_all (list_all (\<lambda>v. - 183 \<le> v \<and> v \<le> 183)) g_table"
  by (simp add: g_table_def)

lemma g_alpha_range: "list_all (\<lambda>r. length r = 8 \<and> list_all (\<lambda>v. - 15 \<le> v \<and> v \<le> 14) r) g_alpha"
  by (simp add: g_alpha_def)

lemma g_avg2_replicates: "n < 16 \<Longrightarrow> g_avg2 ! n = of_nat (17 * n)"
proof -
  have "\<forall>n < 16. g_avg2 ! n = of_nat (17 * n)"
    unfolding each_bit by (simp add: g_avg2_def)
  then show "n < 16 \<Longrightarrow> ?thesis" by blast
qed

lemmas vector_table_defs = g_table_SIMD_def g_table128_SIMD_def g_table256_SIMD_def g_alpha_SIMD_def
  g_alphaRange_SIMD_def g_alpha_AVX_def g_alphaRange_AVX_def g_table128_NEON_def
  g_table256_NEON_def g_alpha_NEON_def g_alphaRange_NEON_def

lemma g_table_SIMD_columns:
  "map (\<lambda>j. map (\<lambda>r. r ! j) g_table) [0..<2] = g_table_SIMD"
  "map (\<lambda>j. map (\<lambda>r. r ! j * 128) g_table) [0..<2] = g_table128_SIMD"
  by (simp_all add: vector_table_defs g_table_def upt_conv_Cons)

lemma g_table256_SIMD_columns:
  "t < 8 \<Longrightarrow> j < 2 \<Longrightarrow> g_table256_SIMD ! (2 * (t div 4) + j) ! (t mod 4) = g_table256 ! t ! j"
proof -
  have "\<forall>t < 8. \<forall>j < (2::nat). g_table256_SIMD ! (2 * (t div 4) + j) ! (t mod 4) = g_table256 ! t ! j"
    unfolding each_bit by (simp add: g_table256_SIMD_def g_table256_def upt_conv_Cons)
  then show "t < 8 \<Longrightarrow> j < 2 \<Longrightarrow> ?thesis" by blast
qed

lemma g_alpha_vectors:
  "g_alpha_SIMD = g_alpha" "g_alpha_NEON = g_alpha"
  "map (\<lambda>j. map (\<lambda>r. r ! j) g_alpha) [0..<8] = g_alpha_AVX"
  "g_alphaRange_AVX = g_alphaRange"
  by (simp_all add: vector_table_defs g_alpha_def g_alphaRange_def upt_8)

lemma neon_tables_agree:
  "g_table128_NEON = g_table128_SIMD" "g_table256_NEON = g_table256_SIMD"
  "g_alphaRange_NEON = g_alphaRange_SIMD"
  by (simp_all add: vector_table_defs)

text \<open>Every value of \<open>g_alphaRange\<close> fits the 16-bit lanes of the vector constants.\<close>

lemma g_alphaRange_fits: "list_all (\<lambda>v. 0 < v \<and> v < 2 ^ 15) g_alphaRange"
  by (simp add: g_alphaRange_def g_alpha_def)

end
