(* ===== verification/EtcMath.thy ===== *)
theory EtcMath imports EtcTables begin

text \<open>
  The integer helpers of \<open>src/Math.hpp\<close> and the block-level helpers of
  \<open>src/ProcessCommon.hpp\<close>.  32-bit C integers are \<open>32 word\<close>; a signed reading is
  \<open>sint\<close> and an arithmetic right shift is \<open>signed_drop_bit\<close>.  The floating-point colour
  transfer curves of \<open>Math.hpp\<close> are not modelled.
\<close>

section \<open>Math.hpp\<close>

text \<open>\<open>AlignPOT\<close> at \<open>T = uint32_t\<close>: the loop runs with shifts 1, 2, 4, 8, 16.\<close>

definition AlignPOT :: "u32 \<Rightarrow> u32" where
  "AlignPOT v = (if v = 0 then 1
     else fold (\<lambda>i x. x OR drop_bit i x) [1, 2, 4, 8, 16] (v - 1) + 1)"

definition CountSetBits :: "u32 \<Rightarrow> u32" where
  "CountSetBits v0 = (let
     v1 = v0 - (drop_bit 1 v0 AND 0x55555555);
     v2 = (drop_bit 2 v1 AND 0x33333333) + (v1 AND 0x33333333);
     v3 = (drop_bit 4 v2 + v2) AND 0x0f0f0f0f;
     v4 = v3 + drop_bit 8 v3;
     v5 = v4 + drop_bit 16 v4
   in v5 AND 0x0000003f)"

definition CountLeadingZeros :: "u32 \<Rightarrow> u32" where
  "CountLeadingZeros v =
     32 - CountSetBits (fold (\<lambda>i x. x OR drop_bit i x) [1, 2, 4, 8, 16] v)"

definition clampu8 :: "u32 \<Rightarrow> u8" where
  "clampu8 v = (if v AND NOT 0xFF = 0 then ucast v
     else ucast (signed_drop_bit 31 (NOT v) AND 0xFF))"

definition mul8bit :: "int \<Rightarrow> int \<Rightarrow> int" where
  "mul8bit a b = (let t = a * b + 128 in drop_bit 8 (t + drop_bit 8 t))"

definition SmoothStep :: "int \<Rightarrow> int" where
  "SmoothStep x = x * x * (3 - 2 * x)"

definition sq :: "int \<Rightarrow> int" where
  "sq v = v * v"

section \<open>ProcessCommon.hpp\<close>

definition GetLeastError :: "'a::linorder list \<Rightarrow> nat \<Rightarrow> nat" where
  "GetLeastError err num = fold (\<lambda>i idx. if err ! i < err ! idx then i else idx) [1..<num] 0"

definition FixByteOrder :: "u64 \<Rightarrow> u64" where
  "FixByteOrder d =
     (d AND 0x00000000FFFFFFFF) OR
     drop_bit 24 (d AND 0xFF00000000000000) OR
     push_bit 24 (d AND 0x000000FF00000000) OR
     drop_bit 8 (d AND 0x00FF000000000000) OR
     push_bit 8 (d AND 0x0000FF0000000000)"

definition EncodeSelectors :: "u64 \<Rightarrow> 'a::linorder list list \<Rightarrow> u16 list list \<Rightarrow> nat list \<Rightarrow> u64" where
  "EncodeSelectors d terr tsel ids = (let
     tidx0 = GetLeastError (terr ! 0) 8;
     tidx1 = GetLeastError (terr ! 1) 8;
     d = d OR push_bit 26 (of_nat tidx0);
     d = d OR push_bit 29 (of_nat tidx1)
   in fold (\<lambda>i d.
        let t = ucast (tsel ! i ! (if ids ! i mod 2 = 0 then tidx0 else tidx1)) :: u64;
            d = d OR push_bit (i + 32) (t AND 0x1)
        in d OR push_bit (i + 47) (t AND 0x2)) [0..<16] d)"

section \<open>What the helpers compute\<close>

lemma mul8bit_rounds:
  assumes "0 \<le> a" "a \<le> 255" "0 \<le> b" "b \<le> 255"
  shows "mul8bit a b = (2 * a * b + 255) div 510"
proof -
  define x where "x = a * b"
  have x: "0 \<le> x" "x \<le> 65025"
    using assms mult_mono [of a 255 b 255] by (simp_all add: x_def)
  define q s where "q = (2 * x + 255) div 510" and "s = (x + 128) div 256"
  have q: "510 * q \<le> 2 * x + 255" "2 * x + 255 < 510 * q + 510"
    by (simp_all add: q_def)
  have s: "256 * s \<le> x + 128" "x + 128 < 256 * s + 256"
    by (simp_all add: s_def)
  have "q \<le> 255" using x q by linarith
  then have "q - 1 \<le> s" "s \<le> q" using x q s by linarith+
  then have "s = q - 1 \<or> s = q" by linarith
  then have "256 * q \<le> x + 128 + s" "x + 128 + s < 256 * q + 256"
    using x q s \<open>q \<le> 255\<close> by (elim disjE; linarith)+
  then have "(x + 128 + s) div 256 = q"
    by linarith
  then show ?thesis
    by (simp add: mul8bit_def Let_def drop_bit_eq_div x_def s_def q_def algebra_simps)
qed

text \<open>\<open>GetLeastError\<close> finds the first position of the least error.\<close>

lemma GetLeastError_Suc:
  "0 < n \<Longrightarrow> GetLeastError err (Suc n) =
     (if err ! n < err ! GetLeastError err n then n else GetLeastError err n)"
  by (simp add: GetLeastError_def)

lemma GetLeastError_first_min:
  assumes "0 < num"
  shows "GetLeastError err num < num
    \<and> (\<forall>j < num. err ! GetLeastError err num \<le> err ! j)
    \<and> (\<forall>j < GetLeastError err num. err ! GetLeastError err num < err ! j)"
  using assms
proof (induction num)
  case (Suc n)
  show ?case
  proof (cases "n = 0")
    case True
    then show ?thesis by (simp add: GetLeastError_def)
  next
    case False
    with Suc.IH show ?thesis
      by (auto simp: GetLeastError_Suc less_Suc_eq dest: less_le_trans order.strict_implies_order)
  qed
qed simp

lemma GetLeastError_le: "j < num \<Longrightarrow> err ! GetLeastError err num \<le> err ! j"
  using GetLeastError_first_min [of num err] by fastforce

lemma GetLeastError_less: "0 < num \<Longrightarrow> GetLeastError err num < num"
  using GetLeastError_first_min by blast

section \<open>Clamping\<close>

lemma sint_u32: "sint (v :: u32) = (if bit v 31 then uint v - 2 ^ 32 else uint v)"
proof -
  have r: "- (2 ^ 31) \<le> sint v" "sint v < 2 ^ 31"
    using sint_ge [of v] sint_less [of v] by simp_all
  have neg: "bit v 31 \<longleftrightarrow> sint v < 0" using bit_last_iff [of v] by simp
  have "uint v = take_bit 32 (sint v)" by (simp add: uint_sint)
  also have "\<dots> = (if sint v < 0 then sint v + 2 ^ 32 else sint v)"
  proof (cases "sint v < 0")
    case True
    have "take_bit 32 (sint v) = take_bit 32 (sint v + 2 ^ 32)" by (simp add: take_bit_eq_mod)
    also have "\<dots> = sint v + 2 ^ 32" using r True by (intro take_bit_int_eq_self) simp_all
    finally show ?thesis using True by simp
  next
    case False
    then show ?thesis using r by (simp add: take_bit_int_eq_self)
  qed
  finally show ?thesis using neg by auto
qed

lemma byte_range_iff: "(v :: u32) AND NOT 0xFF = 0 \<longleftrightarrow> uint v \<le> 255"
proof -
  have "v AND NOT 0xFF = push_bit 8 (drop_bit 8 v)"
    by (rule word32_eqI) (simp add: upt_32 bitwise)
  also have "push_bit 8 (drop_bit 8 v) = 0 \<longleftrightarrow> drop_bit 8 v = 0"
  proof
    assume "push_bit 8 (drop_bit 8 v) = 0"
    then have "drop_bit 8 (push_bit 8 (drop_bit 8 v)) = 0" by simp
    moreover have "drop_bit 8 (push_bit 8 (drop_bit 8 v)) = drop_bit 8 v"
      by (rule word32_eqI) (simp add: upt_32 bitwise)
    ultimately show "drop_bit 8 v = 0" by simp
  qed simp
  also have "drop_bit 8 v = 0 \<longleftrightarrow> uint v div 256 = 0"
    by (simp add: word_uint_eq_iff drop_bit_eq_div uint_div)
  also have "\<dots> \<longleftrightarrow> uint v \<le> 255" by (auto simp: div_eq_0_iff)
  finally show ?thesis .
qed

lemma clampu8_value: "uint (clampu8 v) = max 0 (min 255 (sint v))"
proof (cases "uint v \<le> 255")
  case True
  then have "\<not> bit v 31" using sint_ge [of v] by (auto simp: sint_u32 split: if_splits)
  with True show ?thesis
    unfolding clampu8_def byte_range_iff sint_u32
    by (simp add: unsigned_ucast_eq take_bit_int_eq_self)
next
  case False
  have "signed_drop_bit 31 (NOT v) AND 0xFF = (if bit v 31 then 0 else 0xFF)"
    by (rule word32_eqI) (simp add: upt_32 bitwise)
  with False show ?thesis
    using unsigned_less [of v, where 'a = int]
    unfolding clampu8_def byte_range_iff sint_u32 by simp
qed

text \<open>\<open>clampu8\<close> saturates: read as a signed 32-bit number, a value is cut to the range of a byte.\<close>

theorem clampu8_saturates: "uint (clampu8 v) = max 0 (min 255 (sint v))"
  by (rule clampu8_value)

text \<open>\<open>mul8bit\<close> is the product of two bytes over 255, rounded to the nearest integer.\<close>

theorem mul8bit_is_rounded_product:
  assumes "0 \<le> a" "a \<le> 255" "0 \<le> b" "b \<le> 255"
  shows "mul8bit a b = (2 * a * b + 255) div 510"
  by (rule mul8bit_rounds [OF assms])

theorem mul8bit_is_rounded_product_witness: "mul8bit 200 31 = 24 \<and> (2 * 200 * 31 + 255) div 510 = (24 :: int)"
  using mul8bit_is_rounded_product [of 200 31] by simp

end
