(* ===== verification/EtcDecode.thy ===== *)
theory EtcDecode imports EtcMath begin

text \<open>
  The block decoders of \<open>src/BlockData.cpp\<close> (the scalar code paths): ETC1, the ETC2 T, H and
  planar modes, their variants with an EAC alpha block, and the loops over the blocks of an image.
  The destination bitmap is a list of 32-bit pixels; \<open>base\<close> stands for the pointer \<open>dst\<close>
  and \<open>w\<close> for the pitch in pixels.
\<close>

section \<open>Pixels\<close>

text \<open>\<open>r | (g << 8) | (b << 16)\<close>\<close>

definition rgb :: "u32 \<Rightarrow> u32 \<Rightarrow> u32 \<Rightarrow> u32" where
  "rgb r g b = r OR push_bit 8 g OR push_bit 16 b"

definition table59T58H :: "u8 list" where
  "table59T58H = [3, 6, 11, 16, 23, 32, 41, 64]"

definition expand6 :: "u32 \<Rightarrow> u32" where
  "expand6 value = push_bit 2 value OR drop_bit 4 value"

definition expand7 :: "u32 \<Rightarrow> u32" where
  "expand7 value = push_bit 1 value OR drop_bit 6 value"

text \<open>The double loop \<open>for j, for i: dst[j*w + i] = px(i, j)\<close>.\<close>

definition store_rows :: "(nat \<Rightarrow> nat \<Rightarrow> u32) \<Rightarrow> u32 list \<Rightarrow> nat \<Rightarrow> nat \<Rightarrow> u32 list" where
  "store_rows px dst base w =
     fold (\<lambda>j dst. fold (\<lambda>i dst. dst[base + j * w + i := px i j]) [0..<4] dst) [0..<4] dst"

section \<open>The EAC alpha of a pixel\<close>

definition eac_alpha :: "u64 \<Rightarrow> nat \<Rightarrow> nat \<Rightarrow> u8" where
  "eac_alpha alpha i j = (let
     base = uint (drop_bit 56 alpha);
     mul = uint (drop_bit 52 alpha AND 0xF);
     tbl = g_alpha ! unat (drop_bit 48 alpha AND 0xF);
     amod = tbl ! unat (drop_bit (45 - j * 3 - i * 12) alpha AND 0x7)
   in clampu8 (word_of_int (base + amod * mul)))"

section \<open>T and H modes\<close>

text \<open>The 2-bit pixel index, spread over the two 16-bit halves of the index word.\<close>

definition th_index :: "u64 \<Rightarrow> nat \<Rightarrow> nat \<Rightarrow> nat" where
  "th_index block i j = (let indexes = ucast (drop_bit 32 block AND 0xFFFFFFFF) :: u32 in
     unat (push_bit 1 (drop_bit (j + i * 4 + 16) indexes AND 0x1) OR
           (drop_bit (j + i * 4) indexes AND 0x1)))"

definition T_codeword :: "u64 \<Rightarrow> u64" where
  "T_codeword block = (let
     codeword_hi = drop_bit 2 block AND 0x3;
     codeword_lo = block AND 0x1
   in push_bit 1 codeword_hi OR codeword_lo)"

text \<open>The four paint colours of T mode, each as (red, green, blue).\<close>

definition T_col_tab :: "u64 \<Rightarrow> u32 list" where
  "T_col_tab block = (let
     r0 = drop_bit 24 block AND 0x1B;
     rh0 = drop_bit 3 r0 AND 0x3;
     rl0 = r0 AND 0x3;
     g0 = drop_bit 20 block AND 0xF;
     b0 = drop_bit 16 block AND 0xF;
     r1 = drop_bit 12 block AND 0xF;
     g1 = drop_bit 8 block AND 0xF;
     b1 = drop_bit 4 block AND 0xF;
     cr0 = push_bit 6 rh0 OR push_bit 4 rl0 OR push_bit 2 rh0 OR rl0;
     cg0 = push_bit 4 g0 OR g0;
     cb0 = push_bit 4 b0 OR b0;
     cr1 = push_bit 4 r1 OR r1;
     cg1 = push_bit 4 g1 OR g1;
     cb1 = push_bit 4 b1 OR b1;
     t = ucast (table59T58H ! unat (T_codeword block)) :: u64;
     c2r = clampu8 (ucast (cr1 + t));
     c2g = clampu8 (ucast (cg1 + t));
     c2b = clampu8 (ucast (cb1 + t));
     c3r = clampu8 (ucast (cr1 - t));
     c3g = clampu8 (ucast (cg1 - t));
     c3b = clampu8 (ucast (cb1 - t))
   in [rgb (ucast cr0) (ucast cg0) (ucast cb0),
       rgb (ucast c2r) (ucast c2g) (ucast c2b),
       rgb (ucast cr1) (ucast cg1) (ucast cb1),
       rgb (ucast c3r) (ucast c3g) (ucast c3b)])"

definition DecodeT :: "u64 \<Rightarrow> u32 list \<Rightarrow> nat \<Rightarrow> nat \<Rightarrow> u32 list" where
  "DecodeT block =
     store_rows (\<lambda>i j. T_col_tab block ! th_index block i j OR 0xFF000000)"

definition DecodeTAlpha :: "u64 \<Rightarrow> u64 \<Rightarrow> u32 list \<Rightarrow> nat \<Rightarrow> nat \<Rightarrow> u32 list" where
  "DecodeTAlpha block alpha =
     store_rows (\<lambda>i j. T_col_tab block ! th_index block i j OR push_bit 24 (ucast (eac_alpha alpha i j)))"

definition H_codeword :: "u64 \<Rightarrow> u64" where
  "H_codeword block = (let
     r0444 = drop_bit 27 block AND 0xF;
     g0444 = (drop_bit 20 block AND 0x1) OR push_bit 1 (drop_bit 24 block AND 0x7);
     b0444 = (drop_bit 15 block AND 0x7) OR push_bit 3 (drop_bit 19 block AND 0x1);
     codeword_hi = push_bit 1 (block AND 0x1) OR (block AND 0x4);
     c0 = push_bit 8 r0444 OR push_bit 4 g0444 OR push_bit 0 b0444;
     c1 = drop_bit 3 block AND (push_bit 12 1 - 1);
     codeword_lo = (if c0 \<ge> c1 then 1 else 0)
   in codeword_hi OR codeword_lo)"

definition H_col_tab :: "u64 \<Rightarrow> u32 list" where
  "H_col_tab block = (let
     r0444 = drop_bit 27 block AND 0xF;
     g0444 = (drop_bit 20 block AND 0x1) OR push_bit 1 (drop_bit 24 block AND 0x7);
     b0444 = (drop_bit 15 block AND 0x7) OR push_bit 3 (drop_bit 19 block AND 0x1);
     r1444 = drop_bit 11 block AND 0xF;
     g1444 = drop_bit 7 block AND 0xF;
     b1444 = drop_bit 3 block AND 0xF;
     r0 = push_bit 4 r0444 OR r0444;
     g0 = push_bit 4 g0444 OR g0444;
     b0 = push_bit 4 b0444 OR b0444;
     r1 = push_bit 4 r1444 OR r1444;
     g1 = push_bit 4 g1444 OR g1444;
     b1 = push_bit 4 b1444 OR b1444;
     t = ucast (table59T58H ! unat (H_codeword block)) :: u64;
     c = (\<lambda>x. ucast (clampu8 (ucast x)) :: u32)
   in [rgb (c (r0 + t)) (c (g0 + t)) (c (b0 + t)),
       rgb (c (r0 - t)) (c (g0 - t)) (c (b0 - t)),
       rgb (c (r1 + t)) (c (g1 + t)) (c (b1 + t)),
       rgb (c (r1 - t)) (c (g1 - t)) (c (b1 - t))])"

definition DecodeH :: "u64 \<Rightarrow> u32 list \<Rightarrow> nat \<Rightarrow> nat \<Rightarrow> u32 list" where
  "DecodeH block =
     store_rows (\<lambda>i j. H_col_tab block ! th_index block i j OR 0xFF000000)"

definition DecodeHAlpha :: "u64 \<Rightarrow> u64 \<Rightarrow> u32 list \<Rightarrow> nat \<Rightarrow> nat \<Rightarrow> u32 list" where
  "DecodeHAlpha block alpha =
     store_rows (\<lambda>i j. H_col_tab block ! th_index block i j OR push_bit 24 (ucast (eac_alpha alpha i j)))"

section \<open>Planar mode\<close>

text \<open>The three colours of the plane: origin (\<open>o\<close>), horizontal (\<open>h\<close>), vertical (\<open>v\<close>).\<close>

record plane =
  p_ro :: int  p_go :: int  p_bo :: int
  p_rh :: int  p_gh :: int  p_bh :: int
  p_rv :: int  p_gv :: int  p_bv :: int

definition planar_colours :: "u64 \<Rightarrow> plane" where
  "planar_colours block = (let
     e6 = (\<lambda>x :: u64. uint (expand6 (ucast x)));
     e7 = (\<lambda>x :: u64. uint (expand7 (ucast x)));
     bv = e6 (drop_bit (0 + 32) block AND 0x3F);
     gv = e7 (drop_bit (6 + 32) block AND 0x7F);
     rv = e6 (drop_bit (13 + 32) block AND 0x3F);
     bh = e6 (drop_bit (19 + 32) block AND 0x3F);
     gh = e7 (drop_bit (25 + 32) block AND 0x7F);
     rh0 = drop_bit (32 - 32) block AND 0x01;
     rh1 = push_bit 1 (drop_bit (34 - 32) block AND 0x1F);
     rh = e6 (rh0 OR rh1);
     bo0 = drop_bit (39 - 32) block AND 0x07;
     bo1 = push_bit 3 (drop_bit (43 - 32) block AND 0x3);
     bo2 = push_bit 5 (drop_bit (48 - 32) block AND 0x1);
     bo = e6 (bo0 OR bo1 OR bo2);
     go0 = drop_bit (49 - 32) block AND 0x3F;
     go1 = push_bit 6 (drop_bit (56 - 32) block AND 0x01);
     go = e7 (go0 OR go1);
     ro = e6 (drop_bit (57 - 32) block AND 0x3F)
   in \<lparr>p_ro = ro, p_go = go, p_bo = bo, p_rh = rh, p_gh = gh, p_bh = bh,
      p_rv = rv, p_gv = gv, p_bv = bv\<rparr>)"

text \<open>One channel of the plane at column \<open>i\<close>, row \<open>j\<close>, before clamping.\<close>

definition planar_channel :: "int \<Rightarrow> int \<Rightarrow> int \<Rightarrow> nat \<Rightarrow> nat \<Rightarrow> u32" where
  "planar_channel co h v i j =
     word_of_int (drop_bit 2 (int i * (h - co) + int j * (v - co) + 4 * co + 2))"

text \<open>The store of the decoders: the channels are clamped only if one of them needs it.\<close>

definition pack_clamped :: "u32 \<Rightarrow> u32 \<Rightarrow> u32 \<Rightarrow> u32" where
  "pack_clamped r g b =
     (if (r OR g OR b) AND NOT 0xFF = 0 then rgb r g b
      else rgb (ucast (clampu8 r)) (ucast (clampu8 g)) (ucast (clampu8 b)))"

definition planar_pixel :: "plane \<Rightarrow> nat \<Rightarrow> nat \<Rightarrow> u32" where
  "planar_pixel p i j = pack_clamped
     (planar_channel (p_ro p) (p_rh p) (p_rv p) i j)
     (planar_channel (p_go p) (p_gh p) (p_gv p) i j)
     (planar_channel (p_bo p) (p_bh p) (p_bv p) i j)"

definition DecodePlanar :: "u64 \<Rightarrow> u32 list \<Rightarrow> nat \<Rightarrow> nat \<Rightarrow> u32 list" where
  "DecodePlanar block =
     store_rows (\<lambda>i j. planar_pixel (planar_colours block) i j OR 0xFF000000)"

definition DecodePlanarAlpha :: "u64 \<Rightarrow> u64 \<Rightarrow> u32 list \<Rightarrow> nat \<Rightarrow> nat \<Rightarrow> u32 list" where
  "DecodePlanarAlpha block alpha =
     store_rows (\<lambda>i j. planar_pixel (planar_colours block) i j OR push_bit 24 (ucast (eac_alpha alpha i j)))"

section \<open>ETC1 blocks and the choice of the mode\<close>

definition ConvertByteOrder :: "u64 \<Rightarrow> u64" where
  "ConvertByteOrder d =
     push_bit 32 (ucast (bswap32 (ucast (drop_bit 32 d)))) OR ucast (bswap32 (ucast d))"

datatype etc_mode = ModeT | ModeH | ModeP | ModeEtc1

text \<open>The fields of the base colours: \<open>r0, g0, b0\<close> and the signed differences.\<close>

definition base5 :: "u64 \<Rightarrow> u32 \<times> u32 \<times> u32" where
  "base5 d = (ucast (drop_bit 27 (d AND 0xF8000000)),
     ucast (drop_bit 19 (d AND 0x00F80000)),
     ucast (drop_bit 11 (d AND 0x0000F800)))"

definition delta3 :: "u64 \<Rightarrow> u32 \<times> u32 \<times> u32" where
  "delta3 d = (signed_drop_bit 29 (push_bit 5 (ucast d)),
     signed_drop_bit 29 (push_bit 13 (ucast d)),
     signed_drop_bit 29 (push_bit 21 (ucast d)))"

definition second5 :: "u64 \<Rightarrow> u32 \<times> u32 \<times> u32" where
  "second5 d = (case base5 d of (r0, g0, b0) \<Rightarrow> case delta3 d of (dr, dg, db) \<Rightarrow>
     (r0 + dr, g0 + dg, b0 + db))"

definition outside31 :: "u32 \<Rightarrow> bool" where
  "outside31 v \<longleftrightarrow> v <s 0 \<or> 31 <s v"

definition select_mode :: "u64 \<Rightarrow> etc_mode" where
  "select_mode d =
     (if d AND 0x2 \<noteq> 0 then
        (case second5 d of (r1, g1, b1) \<Rightarrow>
          if outside31 r1 then ModeT
          else if outside31 g1 then ModeH
          else if outside31 b1 then ModeP
          else ModeEtc1)
      else ModeEtc1)"

definition ext5 :: "u32 \<Rightarrow> u32" where
  "ext5 x = push_bit 3 x OR drop_bit 2 x"

text \<open>\<open>(br[k], bg[k], bb[k])\<close> for the two halves \<open>k = 0, 1\<close> of an ETC1 block.\<close>

definition etc1_bases :: "u64 \<Rightarrow> nat \<Rightarrow> u32 \<times> u32 \<times> u32" where
  "etc1_bases d k =
     (if d AND 0x2 \<noteq> 0 then
        (case (if k = 0 then base5 d else second5 d) of (r, g, b) \<Rightarrow> (ext5 r, ext5 g, ext5 b))
      else if k = 0 then
        (ucast (drop_bit 24 (d AND 0xF0000000) OR drop_bit 28 (d AND 0xF0000000)),
         ucast (drop_bit 16 (d AND 0x00F00000) OR drop_bit 20 (d AND 0x00F00000)),
         ucast (drop_bit 8 (d AND 0x0000F000) OR drop_bit 12 (d AND 0x0000F000)))
      else
        (ucast (drop_bit 20 (d AND 0x0F000000) OR drop_bit 24 (d AND 0x0F000000)),
         ucast (drop_bit 12 (d AND 0x000F0000) OR drop_bit 16 (d AND 0x000F0000)),
         ucast (drop_bit 4 (d AND 0x00000F00) OR drop_bit 8 (d AND 0x00000F00))))"

definition etc1_tcw :: "u64 \<Rightarrow> nat \<Rightarrow> nat" where
  "etc1_tcw d k = (if k = 0 then unat (drop_bit 5 (d AND 0xE0)) else unat (drop_bit 2 (d AND 0x1C)))"

text \<open>The two index planes, interleaved: bits \<open>2 n\<close> and \<open>2 n + 1\<close> belong to pixel \<open>n\<close>.\<close>

definition spread16 :: "u32 \<Rightarrow> u32" where
  "spread16 b = (let
     b = (b OR push_bit 8 b) AND 0x00FF00FF;
     b = (b OR push_bit 4 b) AND 0x0F0F0F0F;
     b = (b OR push_bit 2 b) AND 0x33333333
   in (b OR push_bit 1 b) AND 0x55555555)"

definition etc1_idx :: "u64 \<Rightarrow> u32" where
  "etc1_idx d = (let
     b1 = ucast (drop_bit 32 d AND 0xFFFF) :: u32;
     b2 = ucast (drop_bit 48 d) :: u32
   in spread16 b1 OR push_bit 1 (spread16 b2))"

definition etc1_pixel :: "u64 \<Rightarrow> nat \<Rightarrow> nat \<Rightarrow> u32" where
  "etc1_pixel d k m = (case etc1_bases d k of (br, bg, bb) \<Rightarrow>
     let md = word_of_int (g_table ! etc1_tcw d k ! m)
     in pack_clamped (br + md) (bg + md) (bb + md))"

text \<open>The pixel loops: \<open>i\<close> runs over the columns outside, \<open>j\<close> over the rows inside, and the
  index word is shifted by two after every pixel.  Bit 0 of the block chooses whether the halves
  lie above each other (\<open>j/2\<close>) or beside each other (\<open>i/2\<close>).\<close>

definition etc1_loops :: "u64 \<Rightarrow> (nat \<Rightarrow> nat \<Rightarrow> u32) \<Rightarrow> u32 list \<Rightarrow> nat \<Rightarrow> nat \<Rightarrow> u32 list" where
  "etc1_loops d alpha dst base w = snd (
     fold (\<lambda>i st. fold (\<lambda>j (idx, dst).
         (drop_bit 2 idx,
          dst[base + j * w + i :=
            etc1_pixel d (if d AND 0x1 \<noteq> 0 then j div 2 else i div 2) (unat (idx AND 0x3)) OR alpha i j]))
       [0..<4] st) [0..<4] (etc1_idx d, dst))"

definition DecodeRGBPart :: "u64 \<Rightarrow> u32 list \<Rightarrow> nat \<Rightarrow> nat \<Rightarrow> u32 list" where
  "DecodeRGBPart d0 dst base w = (let d = ConvertByteOrder d0 in
     case select_mode d of
       ModeT \<Rightarrow> DecodeT d dst base w
     | ModeH \<Rightarrow> DecodeH d dst base w
     | ModeP \<Rightarrow> DecodePlanar d dst base w
     | ModeEtc1 \<Rightarrow> etc1_loops d (\<lambda>i j. 0xFF000000) dst base w)"

definition DecodeRGBAPart :: "u64 \<Rightarrow> u64 \<Rightarrow> u32 list \<Rightarrow> nat \<Rightarrow> nat \<Rightarrow> u32 list" where
  "DecodeRGBAPart d0 alpha0 dst base w = (let d = ConvertByteOrder d0; alpha = bswap64 alpha0 in
     case select_mode d of
       ModeT \<Rightarrow> DecodeTAlpha d alpha dst base w
     | ModeH \<Rightarrow> DecodeHAlpha d alpha dst base w
     | ModeP \<Rightarrow> DecodePlanarAlpha d alpha dst base w
     | ModeEtc1 \<Rightarrow>
         etc1_loops d (\<lambda>i j. push_bit 24 (ucast (eac_alpha alpha i j))) dst base w)"

section \<open>Whole images\<close>

text \<open>The loops over the 4x4 blocks shared by the four decoders: \<open>k\<close> is the running block
  number, \<open>base\<close> the running destination pointer, \<open>part k\<close> the decoder of block \<open>k\<close>.\<close>

type_synonym block_writer = "u32 list \<Rightarrow> nat \<Rightarrow> nat \<Rightarrow> u32 list"

definition decode_row :: "(nat \<Rightarrow> block_writer) \<Rightarrow> nat \<Rightarrow> nat \<times> nat \<times> u32 list \<Rightarrow> nat \<times> nat \<times> u32 list" where
  "decode_row part width st = (
     case fold (\<lambda>x (k, base, dst). (Suc k, base + 4, part k dst base width)) [0..<width div 4] st
     of (k, base, dst) \<Rightarrow> (k, base + width * 3, dst))"

definition decode_blocks :: "(nat \<Rightarrow> block_writer) \<Rightarrow> nat \<Rightarrow> nat \<Rightarrow> u32 list \<Rightarrow> u32 list" where
  "decode_blocks part width height dst =
     snd (snd (fold (\<lambda>y. decode_row part width) [0..<height div 4] (0, 0, dst)))"

definition DecodeRGB :: "u64 list \<Rightarrow> nat \<Rightarrow> nat \<Rightarrow> u32 list \<Rightarrow> u32 list" where
  "DecodeRGB src = decode_blocks (\<lambda>k. DecodeRGBPart (src ! k))"

definition DecodeRGBA :: "u64 list \<Rightarrow> nat \<Rightarrow> nat \<Rightarrow> u32 list \<Rightarrow> u32 list" where
  "DecodeRGBA src = decode_blocks (\<lambda>k. DecodeRGBAPart (src ! (2 * k + 1)) (src ! (2 * k)))"

section \<open>Where the pixels go\<close>

lemma length_store_rows [simp]: "length (store_rows px dst base w) = length dst"
proof -
  have "length (fold (\<lambda>j dst. fold (\<lambda>i dst. dst[base + j * w + i := px i j]) is dst) js dst) = length dst"
    for "is" js
    by (induction js arbitrary: dst) (auto simp: length_fold_update)
  then show ?thesis by (simp add: store_rows_def)
qed

text \<open>A block writer that stores \<open>px i j\<close> at column \<open>i\<close>, row \<open>j\<close> of the block and leaves every
  other pixel alone.\<close>

definition writes_block :: "(nat \<Rightarrow> nat \<Rightarrow> u32) \<Rightarrow> block_writer \<Rightarrow> bool" where
  "writes_block px f \<longleftrightarrow> (\<forall>dst base w. 4 \<le> w \<longrightarrow> base + 3 * w + 3 < length dst \<longrightarrow>
     length (f dst base w) = length dst \<and>
     (\<forall>i < 4. \<forall>j < 4. f dst base w ! (base + j * w + i) = px i j) \<and>
     (\<forall>p. (\<forall>i < 4. \<forall>j < 4. p \<noteq> base + j * w + i) \<longrightarrow> f dst base w ! p = dst ! p))"

lemma row_col_inj:
  assumes "i < w" "i' < w" "j * w + i = j' * w + (i'::nat)"
  shows "i = i' \<and> j = j'"
proof -
  have "(j * w + i) mod w = (j' * w + i') mod w" "(j * w + i) div w = (j' * w + i') div w"
    using assms(3) by simp_all
  with assms(1,2) show ?thesis by simp
qed

text \<open>Both loop orders are folds over the sixteen cells of the block.\<close>

definition store_cells :: "(nat \<Rightarrow> nat \<Rightarrow> u32) \<Rightarrow> (nat \<times> nat) list \<Rightarrow> block_writer" where
  "store_cells px cs dst base w = fold (\<lambda>(i, j) dst. dst[base + j * w + i := px i j]) cs dst"

lemma store_cells_snoc:
  "store_cells px (cs @ [(i, j)]) dst base w = (store_cells px cs dst base w)[base + j * w + i := px i j]"
  by (simp add: store_cells_def)

lemma length_store_cells [simp]: "length (store_cells px cs dst base w) = length dst"
  by (induction cs rule: rev_induct) (auto simp: store_cells_snoc, simp add: store_cells_def)

lemma store_cells_other:
  "(\<And>i j. (i, j) \<in> set cs \<Longrightarrow> p \<noteq> base + j * w + i) \<Longrightarrow> store_cells px cs dst base w ! p = dst ! p"
proof (induction cs rule: rev_induct)
  case Nil
  show ?case by (simp add: store_cells_def)
next
  case (snoc c cs)
  obtain i j where c: "c = (i, j)" by force
  have "p \<noteq> base + j * w + i" using snoc.prems c by simp
  then have "(store_cells px cs dst base w)[base + j * w + i := px i j] ! p = store_cells px cs dst base w ! p"
    by (simp add: nth_list_update_neq)
  with snoc show ?case by (simp add: c store_cells_snoc)
qed

lemma store_cells_at:
  assumes "\<forall>(i, j) \<in> set cs. i < w \<and> base + j * w + i < length dst" "(i, j) \<in> set cs"
  shows "store_cells px cs dst base w ! (base + j * w + i) = px i j"
  using assms
proof (induction cs rule: rev_induct)
  case (snoc c cs)
  obtain i' j' where c: "c = (i', j')" by force
  show ?case
  proof (cases "(i, j) = (i', j')")
    case True
    then show ?thesis using snoc.prems by (auto simp: c store_cells_snoc)
  next
    case False
    have "i < w" "i' < w" using snoc.prems by (auto simp: c)
    have "base + j' * w + i' \<noteq> base + j * w + i"
    proof
      assume "base + j' * w + i' = base + j * w + i"
      then have "j * w + i = j' * w + i'" by simp
      with row_col_inj [OF \<open>i < w\<close> \<open>i' < w\<close>] False show False by simp
    qed
    moreover have "store_cells px cs dst base w ! (base + j * w + i) = px i j"
      using snoc False by (auto simp: c)
    ultimately show ?thesis by (simp add: c store_cells_snoc nth_list_update_neq)
  qed
qed simp

lemma store_cells_writes:
  assumes "set cs = {..<4} \<times> {..<4}" "\<And>dst base w. f dst base w = store_cells px cs dst base w"
  shows "writes_block px f"
  unfolding writes_block_def
proof (intro allI impI conjI)
  fix dst :: "u32 list" and base w :: nat
  assume w: "4 \<le> w" and len: "base + 3 * w + 3 < length dst"
  show "length (f dst base w) = length dst" by (simp add: assms(2))
  have cells: "\<forall>(i, j) \<in> set cs. i < w \<and> base + j * w + i < length dst"
  proof (clarsimp simp: assms(1))
    fix i j :: nat assume "i < 4" "j < 4"
    then have "j * w \<le> 3 * w" by (intro mult_le_mono1) simp
    with \<open>i < 4\<close> w len show "i < w \<and> base + j * w + i < length dst" by linarith
  qed
  show "f dst base w ! (base + j * w + i) = px i j" if "i < 4" "j < 4" for i j
    using store_cells_at [OF cells, of i j px] that by (simp add: assms)
  show "f dst base w ! p = dst ! p" if "\<forall>i < 4. \<forall>j < 4. p \<noteq> base + j * w + i" for p
    using store_cells_other [of cs p base w px dst] that by (simp add: assms)
qed

lemma fold_fold_cells:
  "fold (\<lambda>j s. fold (\<lambda>i s. g i j s) is s) js s = fold (\<lambda>(i, j) s. g i j s) (concat (map (\<lambda>j. map (\<lambda>i. (i, j)) is) js)) s"
  by (induction js arbitrary: s) (simp_all add: fold_map comp_def)

lemma store_rows_writes: "writes_block px (store_rows px)"
proof (rule store_cells_writes)
  show "set (concat (map (\<lambda>j. map (\<lambda>i. (i, j)) [0..<4]) [0..<4])) = {..<4::nat} \<times> {..<4::nat}"
    by auto
  show "store_rows px dst base w = store_cells px (concat (map (\<lambda>j. map (\<lambda>i. (i, j)) [0..<4]) [0..<4])) dst base w"
    for dst base w
    by (simp add: store_rows_def store_cells_def fold_fold_cells)
qed

text \<open>The ETC1 loops read the index word two bits per pixel, columns first.\<close>

definition etc1_image :: "u64 \<Rightarrow> (nat \<Rightarrow> nat \<Rightarrow> u32) \<Rightarrow> nat \<Rightarrow> nat \<Rightarrow> u32" where
  "etc1_image d alpha i j =
     etc1_pixel d (if d AND 0x1 \<noteq> 0 then j div 2 else i div 2)
       (unat (drop_bit (2 * (4 * i + j)) (etc1_idx d) AND 0x3)) OR alpha i j"

lemma etc1_loops_writes: "writes_block (etc1_image d alpha) (etc1_loops d alpha)"
proof (rule store_cells_writes)
  show "set [(0,0),(0,1),(0,2),(0,3),(1,0),(1,1),(1,2),(1,3),
      (2,0),(2,1),(2,2),(2,3),(3,0),(3,1),(3,2),(3,3)] = {..<4::nat} \<times> {..<4::nat}"
    by code_simp
  show "etc1_loops d alpha dst base w = store_cells (etc1_image d alpha)
      [(0,0),(0,1),(0,2),(0,3),(1,0),(1,1),(1,2),(1,3),
       (2,0),(2,1),(2,2),(2,3),(3,0),(3,1),(3,2),(3,3)] dst base w" for dst base w
    by (simp add: etc1_loops_def store_cells_def etc1_image_def upt_4 drop_bit_drop_bit)
qed

section \<open>Decoding an image\<close>

text \<open>The interface between the image loops and the block decoders: block \<open>k\<close> is written by a
  block writer that stores \<open>px k\<close>.  Under that contract the image loops put pixel
  \<open>(x, y)\<close> of the image from pixel \<open>(x mod 4, y mod 4)\<close> of block
  \<open>(y div 4) * (width div 4) + x div 4\<close>.\<close>

locale block_decoder =
  fixes part :: "nat \<Rightarrow> block_writer"
    and px :: "nat \<Rightarrow> nat \<Rightarrow> nat \<Rightarrow> u32"
  assumes part_writes: "writes_block (px k) (part k)"
begin

lemma row_prefix:
  assumes w: "w = 4 * n" and len: "base + 4 * w \<le> length dst" and m: "m \<le> n"
  shows "\<exists>dst'. fold (\<lambda>x (k, base, dst). (Suc k, base + 4, part k dst base w)) [0..<m] (k, base, dst)
       = (k + m, base + 4 * m, dst')
     \<and> length dst' = length dst
     \<and> (\<forall>x < 4 * m. \<forall>j < 4. dst' ! (base + j * w + x) = px (k + x div 4) (x mod 4) j)
     \<and> (\<forall>p. (\<forall>x < 4 * m. \<forall>j < 4. p \<noteq> base + j * w + x) \<longrightarrow> dst' ! p = dst ! p)"
  using m
proof (induction m)
  case (Suc m)
  then obtain dst' where
    st: "fold (\<lambda>x (k, base, dst). (Suc k, base + 4, part k dst base w)) [0..<m] (k, base, dst)
       = (k + m, base + 4 * m, dst')" and
    l: "length dst' = length dst" and
    at: "\<And>x j. x < 4 * m \<Longrightarrow> j < 4 \<Longrightarrow> dst' ! (base + j * w + x) = px (k + x div 4) (x mod 4) j" and
    other: "\<And>p. (\<forall>x < 4 * m. \<forall>j < 4. p \<noteq> base + j * w + x) \<Longrightarrow> dst' ! p = dst ! p"
    by auto
  let ?d = "part (k + m) dst' (base + 4 * m) w"
  have b: "4 \<le> w" "base + 4 * m + 3 * w + 3 < length dst'"
    using Suc.prems w len l by auto
  note wr = part_writes [of "k + m", unfolded writes_block_def, rule_format, OF b]
  have new: "?d ! (base + 4 * m + j * w + i) = px (k + m) i j" if "i < 4" "j < 4" for i j
    using wr that by blast
  have old: "?d ! p = dst' ! p" if "\<forall>i < 4. \<forall>j < 4. p \<noteq> base + 4 * m + j * w + i" for p
    using wr that by blast
  have "?d ! (base + j * w + x) = px (k + x div 4) (x mod 4) j" if x: "x < 4 * Suc m" and j: "j < 4" for x j
  proof (cases "x < 4 * m")
    case True
    have "\<forall>i < 4. \<forall>j' < 4. base + j * w + x \<noteq> base + 4 * m + j' * w + i"
    proof (intro allI impI notI)
      fix i j' assume i: "i < 4" and "base + j * w + x = base + 4 * m + j' * w + i"
      then have "j * w + x = j' * w + (4 * m + i)" by simp
      moreover have "x < w" "4 * m + i < w" using x i Suc.prems w by auto
      ultimately have "x = 4 * m + i" using row_col_inj by blast
      with True show False by simp
    qed
    then show ?thesis using old at True j by simp
  next
    case False
    define i where "i = x - 4 * m"
    then have i: "x = 4 * m + i" "i < 4" using x False by auto
    have eq: "base + j * w + x = base + 4 * m + j * w + i" "x div 4 = m" "x mod 4 = i"
      using i by simp_all
    show ?thesis unfolding eq by (rule new [OF i(2) j])
  qed
  moreover have "?d ! p = dst ! p" if p: "\<forall>x < 4 * Suc m. \<forall>j < 4. p \<noteq> base + j * w + x" for p
  proof -
    have "\<forall>i < 4. \<forall>j < 4. p \<noteq> base + 4 * m + j * w + i"
    proof (intro allI impI notI)
      fix i j :: nat assume ij: "i < 4" "j < 4" and "p = base + 4 * m + j * w + i"
      then have "p = base + j * w + (4 * m + i)" "4 * m + i < 4 * Suc m" by simp_all
      with p ij show False by blast
    qed
    then have "?d ! p = dst' ! p" by (rule old)
    also have "\<dots> = dst ! p" using p by (intro other) auto
    finally show ?thesis .
  qed
  ultimately show ?case using st l wr by auto
qed auto

lemma image_prefix:
  assumes w: "w = 4 * n" and len: "4 * hb * w \<le> length dst" and m: "m \<le> hb"
  shows "\<exists>dst'. fold (\<lambda>y. decode_row part w) [0..<m] (0, 0, dst)
       = (m * n, 4 * m * w, dst')
     \<and> length dst' = length dst
     \<and> (\<forall>x < w. \<forall>y < 4 * m. dst' ! (y * w + x) = px (y div 4 * n + x div 4) (x mod 4) (y mod 4))
     \<and> (\<forall>p \<ge> 4 * m * w. dst' ! p = dst ! p)"
  using m
proof (induction m)
  case (Suc m)
  then obtain d where
    st: "fold (\<lambda>y. decode_row part w) [0..<m] (0, 0, dst) = (m * n, 4 * m * w, d)" and
    l: "length d = length dst" and
    at: "\<And>x y. x < w \<Longrightarrow> y < 4 * m \<Longrightarrow> d ! (y * w + x) = px (y div 4 * n + x div 4) (x mod 4) (y mod 4)" and
    other: "\<And>p. 4 * m * w \<le> p \<Longrightarrow> d ! p = dst ! p"
    by auto
  have "(4 * m + 4) * w \<le> 4 * hb * w" using Suc.prems by (intro mult_le_mono1) simp
  then have "4 * m * w + 4 * w \<le> length d" using len l by (simp add: algebra_simps)
  from row_prefix [OF w this order_refl] obtain e where
    row: "fold (\<lambda>x (k, base, dst). (Suc k, base + 4, part k dst base w)) [0..<n] (m * n, 4 * m * w, d)
       = (m * n + n, 4 * m * w + 4 * n, e)" and
    le: "length e = length d" and
    new: "\<And>x j. x < w \<Longrightarrow> j < 4 \<Longrightarrow> e ! (4 * m * w + j * w + x) = px (m * n + x div 4) (x mod 4) j" and
    old: "\<And>p. (\<forall>x < w. \<forall>j < 4. p \<noteq> 4 * m * w + j * w + x) \<Longrightarrow> e ! p = d ! p"
    unfolding w by blast
  have "e ! (y * w + x) = px (y div 4 * n + x div 4) (x mod 4) (y mod 4)" if x: "x < w" and y: "y < 4 * Suc m" for x y
  proof (cases "y < 4 * m")
    case True
    have "y * w + x < 4 * m * w"
    proof -
      have "Suc y * w \<le> 4 * m * w" using True by (intro mult_le_mono1) simp
      with x show ?thesis by simp
    qed
    then have "e ! (y * w + x) = d ! (y * w + x)" by (intro old) auto
    with at [OF x True] show ?thesis by simp
  next
    case False
    define j where "j = y - 4 * m"
    then have j: "y = 4 * m + j" "j < 4" using False y by auto
    have eq: "y * w + x = 4 * m * w + j * w + x" "y div 4 = m" "y mod 4 = j"
      using j by (simp_all add: algebra_simps)
    show ?thesis unfolding eq by (rule new [OF x j(2)])
  qed
  moreover have "e ! p = dst ! p" if p: "4 * Suc m * w \<le> p" for p
  proof -
    have "\<forall>x < w. \<forall>j < 4. p \<noteq> 4 * m * w + j * w + x"
    proof (intro allI impI notI)
      fix x j :: nat assume "x < w" "j < 4" and e: "p = 4 * m * w + j * w + x"
      have "Suc j * w \<le> 4 * w" using \<open>j < 4\<close> by (intro mult_le_mono1) simp
      moreover have "Suc j * w = j * w + w" by simp
      ultimately have "j * w + x < 4 * w" using \<open>x < w\<close> by linarith
      moreover have "4 * Suc m * w = 4 * m * w + 4 * w" by (simp add: algebra_simps)
      ultimately show False using e p by linarith
    qed
    then have "e ! p = d ! p" by (rule old)
    moreover have "4 * m * w \<le> p" by (rule order_trans [OF mult_le_mono1 p]) simp
    ultimately show ?thesis using other by simp
  qed
  moreover have "fold (\<lambda>y. decode_row part w) [0..<Suc m] (0, 0, dst) = (Suc m * n, 4 * Suc m * w, e)"
  proof -
    have n: "w div 4 = n" using w by simp
    show ?thesis
      by (simp del: upt_Suc add: fold_upt_Suc st decode_row_def n row) (simp add: w algebra_simps)
  qed
  ultimately show ?case using l le by metis
qed auto

lemma decode_blocks_places:
  assumes "w = 4 * n" "h = 4 * hb" "length dst = w * h"
  shows "length (decode_blocks part w h dst) = w * h"
    and "x < w \<Longrightarrow> y < h \<Longrightarrow> decode_blocks part w h dst ! (y * w + x) =
      px (y div 4 * (w div 4) + x div 4) (x mod 4) (y mod 4)"
proof -
  have "4 * hb * w \<le> length dst" using assms by simp
  from image_prefix [OF assms(1) this order_refl]
  show "length (decode_blocks part w h dst) = w * h"
    "x < w \<Longrightarrow> y < h \<Longrightarrow> decode_blocks part w h dst ! (y * w + x) =
      px (y div 4 * (w div 4) + x div 4) (x mod 4) (y mod 4)"
    by (auto simp: decode_blocks_def assms)
qed

end

text \<open>The pixels of a decoded block.\<close>

definition etc_opaque :: "u64 \<Rightarrow> nat \<Rightarrow> nat \<Rightarrow> u32" where
  "etc_opaque d0 i j = (let d = ConvertByteOrder d0 in case select_mode d of
       ModeT \<Rightarrow> T_col_tab d ! th_index d i j OR 0xFF000000
     | ModeH \<Rightarrow> H_col_tab d ! th_index d i j OR 0xFF000000
     | ModeP \<Rightarrow> planar_pixel (planar_colours d) i j OR 0xFF000000
     | ModeEtc1 \<Rightarrow> etc1_image d (\<lambda>i j. 0xFF000000) i j)"

definition etc_eac :: "u64 \<Rightarrow> u64 \<Rightarrow> nat \<Rightarrow> nat \<Rightarrow> u32" where
  "etc_eac d0 a0 i j = (let d = ConvertByteOrder d0; a = push_bit 24 (ucast (eac_alpha (bswap64 a0) i j)) in
     case select_mode d of
       ModeT \<Rightarrow> T_col_tab d ! th_index d i j OR a
     | ModeH \<Rightarrow> H_col_tab d ! th_index d i j OR a
     | ModeP \<Rightarrow> planar_pixel (planar_colours d) i j OR a
     | ModeEtc1 \<Rightarrow> etc1_image d (\<lambda>i j. a) i j)"

lemma DecodeRGBPart_writes: "writes_block (etc_opaque d) (DecodeRGBPart d)"
proof -
  let ?d = "ConvertByteOrder d"
  show ?thesis
    by (cases "select_mode ?d")
      (simp_all add: DecodeRGBPart_def [abs_def] etc_opaque_def [abs_def] Let_def DecodeT_def DecodeH_def
        DecodePlanar_def store_rows_writes etc1_loops_writes)
qed

lemma DecodeRGBAPart_writes: "writes_block (etc_eac d a) (DecodeRGBAPart d a)"
proof -
  let ?d = "ConvertByteOrder d"
  have "etc1_image ?d (\<lambda>i' j'. push_bit 24 (ucast (eac_alpha (bswap64 a) i j))) i j =
     etc1_image ?d (\<lambda>i j. push_bit 24 (ucast (eac_alpha (bswap64 a) i j))) i j" for i j
    by (simp add: etc1_image_def)
  then show ?thesis
    by (cases "select_mode ?d")
      (simp_all add: DecodeRGBAPart_def [abs_def] etc_eac_def [abs_def] Let_def DecodeTAlpha_def DecodeHAlpha_def
        DecodePlanarAlpha_def store_rows_writes etc1_loops_writes)
qed

interpretation etc_rgb: block_decoder "\<lambda>k. DecodeRGBPart (src ! k)" "\<lambda>k. etc_opaque (src ! k)" for src
  by unfold_locales (rule DecodeRGBPart_writes)

interpretation etc_rgba: block_decoder
    "\<lambda>k. DecodeRGBAPart (src ! (2 * k + 1)) (src ! (2 * k))"
    "\<lambda>k. etc_eac (src ! (2 * k + 1)) (src ! (2 * k))" for src
  by unfold_locales (rule DecodeRGBAPart_writes)

section \<open>Properties of the decoders\<close>

lemma clampu8_in_range: "v AND NOT 0xFF = 0 \<Longrightarrow> ucast (clampu8 v) = v"
proof -
  assume v: "v AND NOT 0xFF = 0"
  then have "uint v \<le> 255" by (simp only: byte_range_iff)
  then have "uint (ucast (ucast v :: u8) :: u32) = uint v"
    by (simp add: unsigned_ucast_eq unsigned_take_bit_eq take_bit_int_eq_self)
  then have "ucast (ucast v :: u8) = v" by (rule word_uint_eqI)
  then show ?thesis by (simp only: clampu8_def v if_True refl)
qed

text \<open>The two ways in which the decoders store a pixel agree: skipping the clamps when no channel
  needs one gives the pixel that clamping every channel gives.\<close>

theorem pack_clamped_clamps:
  "pack_clamped r g b = rgb (ucast (clampu8 r)) (ucast (clampu8 g)) (ucast (clampu8 b))"
proof (cases "(r OR g OR b) AND NOT 0xFF = 0")
  case True
  then have "r AND NOT 0xFF = 0" "g AND NOT 0xFF = 0" "b AND NOT 0xFF = 0"
    unfolding bit.conj_disj_distrib2 or_eq_0_iff by blast+
  then show ?thesis by (simp only: pack_clamped_def True clampu8_in_range if_True refl)
next
  case False
  then show ?thesis by (simp only: pack_clamped_def if_False)
qed

text \<open>Decoding an ETC image: pixel \<open>(x, y)\<close> of the bitmap is pixel \<open>(x mod 4, y mod 4)\<close> of
  block \<open>(y / 4) * (w / 4) + x / 4\<close>, with and without an alpha plane, whatever the bitmap held.\<close>

theorem etc_image_decoded:
  assumes "w = 4 * n" "h = 4 * m" "length dst = w * h" "x < w" "y < h"
  shows "DecodeRGB src w h dst ! (y * w + x) =
      etc_opaque (src ! (y div 4 * (w div 4) + x div 4)) (x mod 4) (y mod 4)
    \<and> DecodeRGBA src w h dst ! (y * w + x) =
      etc_eac (src ! (2 * (y div 4 * (w div 4) + x div 4) + 1)) (src ! (2 * (y div 4 * (w div 4) + x div 4)))
        (x mod 4) (y mod 4)"
  unfolding DecodeRGB_def DecodeRGBA_def
  using etc_rgb.decode_blocks_places(2) [OF assms(1-5)] etc_rgba.decode_blocks_places(2) [OF assms(1-5)] by blast

theorem etc_image_decoded_witness:
  "DecodeRGB [1, 2, 3, 4, 5, 6, 7, 8] 8 8 (replicate 64 0) ! (5 * 8 + 6) =
      etc_opaque ([1, 2, 3, 4, 5, 6, 7, 8] ! (5 div 4 * (8 div 4) + 6 div 4)) (6 mod 4) (5 mod 4)
    \<and> DecodeRGBA [1, 2, 3, 4, 5, 6, 7, 8] 8 8 (replicate 64 0) ! (5 * 8 + 6) =
      etc_eac ([1, 2, 3, 4, 5, 6, 7, 8] ! (2 * (5 div 4 * (8 div 4) + 6 div 4) + 1)) ([1, 2, 3, 4, 5, 6, 7, 8] ! (2 * (5 div 4 * (8 div 4) + 6 div 4)))
        (6 mod 4) (5 mod 4)"
  by (rule etc_image_decoded [where n = 2 and m = 2]) simp_all

end
