(* ===== verification/Etc1Encode.thy ===== *)
theory Etc1Encode imports EtcDecode begin

text \<open>
  The reference (scalar) ETC1 block encoder of \<open>src/ProcessRGB.cpp\<close>: the averages of the
  halves, their quantisation, the choice of the split by the least error, the search for the
  selectors, and \<open>ProcessRGB\<close> itself.  A block is the list of its 64 bytes (blue, green, red,
  alpha; the pixels column by column).  A \<open>v4i\<close> is the list of its first three lanes (red, green,
  blue): nothing reads the fourth.
\<close>

section \<open>Averages and block errors\<close>

text \<open>The sum of channel \<open>c\<close> over each quadrant; the quadrant of pixel \<open>(i, j)\<close> is
  \<open>(j & 2) + (i >> 1)\<close>.\<close>

definition quadrant_sums :: "u8 list \<Rightarrow> nat \<Rightarrow> u32 list" where
  "quadrant_sums src c = fold (\<lambda>j s. fold (\<lambda>i s.
       let index = (j AND 2) + drop_bit 1 i
       in s[index := s ! index + ucast (src ! (4 * (4 * j + i) + c))]) [0..<4] s)
     [0..<4] (replicate 4 0)"

text \<open>The two quadrants that make up half \<open>q\<close>.\<close>

definition half_quadrants :: "nat \<Rightarrow> nat \<times> nat" where
  "half_quadrants q = [(2, 3), (0, 1), (1, 3), (0, 2)] ! q"

definition Average :: "u8 list \<Rightarrow> u16 list list" where
  "Average src = map (\<lambda>q. map (\<lambda>c. let s = quadrant_sums src c; (p, p') = half_quadrants q
     in ucast ((s ! p + s ! p' + 4) div 8)) [2, 1, 0]) [0..<4]"

definition CalcErrorBlock :: "u8 list \<Rightarrow> u32 list list" where
  "CalcErrorBlock src = map (\<lambda>q. map (\<lambda>c. let s = quadrant_sums src c; (p, p') = half_quadrants q
     in s ! p + s ! p') [0, 1, 2] @ [0]) [0..<4]"

text \<open>\<open>sq\<close> at \<open>uint16_t\<close>: the product is truncated to 16 bits.\<close>

definition sq16 :: "u16 \<Rightarrow> u16" where
  "sq16 v = v * v"

definition CalcError :: "u32 list \<Rightarrow> u16 list \<Rightarrow> u32" where
  "CalcError block average = (let
     err = 0x3FFFFFFF;
     err = err - block ! 0 * 2 * ucast (average ! 2);
     err = err - block ! 1 * 2 * ucast (average ! 1);
     err = err - block ! 2 * 2 * ucast (average ! 0)
   in err + 8 * (ucast (sq16 (average ! 0)) + ucast (sq16 (average ! 1)) + ucast (sq16 (average ! 2))))"

text \<open>The five-bit quantisation of two averages: \<open>c1\<close> of the second and \<open>co\<close> of the first,
  at most three above and four below it.\<close>

definition quant5 :: "u16 \<Rightarrow> u16 \<Rightarrow> int \<times> int" where
  "quant5 a0 a1 = (let
     c1 = mul8bit (uint a1) 31;
     c2 = mul8bit (uint a0) 31;
     diff = c2 - c1;
     diff = (if diff > 3 then 3 else if diff < -4 then -4 else diff)
   in (c1 + diff, c1))"

definition widen5 :: "int \<Rightarrow> u16" where
  "widen5 c = word_of_int (push_bit 3 c OR drop_bit 2 c)"

definition ProcessAverages :: "u16 list list \<Rightarrow> u16 list list" where
  "ProcessAverages a =
     map (\<lambda>v. map (\<lambda>x. ucast (g_avg2 ! nat (mul8bit (uint x) 15))) v) (take 4 a) @
     concat (map (\<lambda>i.
       [map (\<lambda>j. widen5 (fst (quant5 (a ! (i * 2) ! j) (a ! (i * 2 + 1) ! j)))) [0..<3],
        map (\<lambda>j. widen5 (snd (quant5 (a ! (i * 2) ! j) (a ! (i * 2 + 1) ! j)))) [0..<3]]) [0..<2])"

definition EncodeAverages :: "u64 \<Rightarrow> u16 list list \<Rightarrow> nat \<Rightarrow> u64" where
  "EncodeAverages d a idx = (let d = d OR push_bit 24 (of_nat idx); base = push_bit 1 idx in
     if idx AND 0x2 = 0 then
       fold (\<lambda>i d. let d = d OR push_bit (i * 8) (ucast (drop_bit 4 (a ! (base + 0) ! i)))
          in d OR push_bit (i * 8 + 4) (ucast (drop_bit 4 (a ! (base + 1) ! i)))) [0..<3] d
     else
       fold (\<lambda>i d. let
            d = d OR push_bit (i * 8) (ucast (a ! (base + 1) ! i AND 0xF8));
            c = signed_drop_bit 3 ((ucast (a ! (base + 0) ! i) AND 0xF8) - (ucast (a ! (base + 1) ! i) AND 0xF8)) :: u32;
            c = c AND NOT 0xFFFFFFF8
          in d OR push_bit (i * 8) (ucast c)) [0..<3] d)"

definition CheckSolid :: "u8 list \<Rightarrow> u64" where
  "CheckSolid src =
     (if \<exists>i \<in> set [1..<16]. take 4 (drop (4 * i) src) \<noteq> take 4 src then 0
      else ucast (0x02000000 OR
        push_bit 16 (ucast (src ! 0 AND 0xF8) :: u32) OR
        push_bit 8 (ucast (src ! 1 AND 0xF8)) OR
        ucast (src ! 2 AND 0xF8)))"

definition PrepareAverages :: "u8 list \<Rightarrow> u16 list list \<times> u32 list" where
  "PrepareAverages src = (let
     a = ProcessAverages (Average src);
     errblock = CalcErrorBlock src
   in (a, fold (\<lambda>i err.
        let err = err[i div 2 := err ! (i div 2) + CalcError (errblock ! i) (a ! i)]
        in err[2 + i div 2 := err ! (2 + i div 2) + CalcError (errblock ! i) (a ! (i + 4))])
      [0..<4] (replicate 4 0)))"

section \<open>The search for the selectors\<close>

text \<open>The weighted difference between the base colour of the half and the pixel.\<close>

definition pixel_diff :: "u16 list \<Rightarrow> u8 list \<Rightarrow> nat \<Rightarrow> int" where
  "pixel_diff avg src i = (let
     dr = uint (avg ! 0) - uint (src ! (4 * i + 2));
     dg = uint (avg ! 1) - uint (src ! (4 * i + 1));
     db = uint (avg ! 2) - uint (src ! (4 * i))
   in dr * 77 + dg * 151 + db * 28)"

definition best_selector :: "int \<Rightarrow> nat \<Rightarrow> nat \<times> int" where
  "best_selector pix t = (let tab = g_table256 ! t in
     fold (\<lambda>j (idx, err). let local = sq (tab ! j + pix) in
         if local < err then (j, local) else (idx, err)) [1..<4] (0, sq (tab ! 0 + pix)))"

text \<open>\<open>terr[bid % 2]\<close> collects the error of every table over the pixels of the half, \<open>tsel[i]\<close>
  holds the selector of pixel \<open>i\<close> under every table.\<close>

definition fit_step :: "u16 list list \<Rightarrow> nat list \<Rightarrow> u8 list \<Rightarrow> nat \<Rightarrow>
    u64 list list \<times> u16 list list \<Rightarrow> u64 list list \<times> u16 list list" where
  "fit_step a ids src i st = (case st of (terr, tsel) \<Rightarrow> let
       bid = ids ! i;
       pix = pixel_diff (a ! bid) src i
     in (terr[bid mod 2 := map (\<lambda>t. terr ! (bid mod 2) ! t + word_of_int (snd (best_selector pix t))) [0..<8]],
         tsel @ [map (\<lambda>t. of_nat (fst (best_selector pix t))) [0..<8]]))"

definition FindBestFit :: "u16 list list \<Rightarrow> nat list \<Rightarrow> u8 list \<Rightarrow> u64 list list \<times> u16 list list" where
  "FindBestFit a ids src = fold (fit_step a ids src) [0..<16] (replicate 2 (replicate 8 0), [])"

definition ProcessRGB :: "u8 list \<Rightarrow> u64" where
  "ProcessRGB src = (let d = CheckSolid src in
     if d \<noteq> 0 then d
     else let
       (a, err) = PrepareAverages src;
       idx = GetLeastError err 4;
       d = EncodeAverages d a idx;
       (terr, tsel) = FindBestFit a (g_id ! idx) src
     in FixByteOrder (EncodeSelectors d terr tsel (g_id ! idx)))"

section \<open>The search is exhaustive\<close>

lemma best_selector_argmin:
  "fst (best_selector pix t) = GetLeastError (map (\<lambda>j. sq (g_table256 ! t ! j + pix)) [0..<4]) 4"
  "snd (best_selector pix t) = sq (g_table256 ! t ! fst (best_selector pix t) + pix)"
  by (simp_all add: best_selector_def GetLeastError_def upt_conv_Cons Let_def)

lemma best_selector_least:
  shows "fst (best_selector pix t) < 4"
    and "j < 4 \<Longrightarrow> snd (best_selector pix t) \<le> sq (g_table256 ! t ! j + pix)"
proof -
  let ?e = "\<lambda>j. sq (g_table256 ! t ! j + pix)"
  let ?es = "map ?e [0..<4]"
  let ?m = "GetLeastError ?es 4"
  have m: "?m < 4" by (rule GetLeastError_less) simp
  have nth: "?es ! j = ?e j" if "j < 4" for j
    using that by (simp del: upt_Suc)
  show "fst (best_selector pix t) < 4" by (simp only: best_selector_argmin m)
  show "snd (best_selector pix t) \<le> ?e j" if "j < 4"
    using GetLeastError_le [OF that, of ?es] unfolding nth [OF that] nth [OF m] by (simp only: best_selector_argmin)
qed

section \<open>The ranges of the averages\<close>

lemma quadrant_sums_eq:
  "quadrant_sums src c = (let p = \<lambda>n. ucast (src ! (4 * n + c)) :: u32 in
     [p 0 + p 1 + p 4 + p 5, p 2 + p 3 + p 6 + p 7, p 8 + p 9 + p 12 + p 13, p 10 + p 11 + p 14 + p 15])"
  by (simp add: quadrant_sums_def upt_4 Let_def replicate_4)

lemma half_average_le:
  fixes a b c d e f g h :: u8
  shows "unat ((ucast a + ucast b + ucast c + ucast d + (ucast e + ucast f + ucast g + ucast h) + 4 :: u32) div 8) \<le> 255"
proof -
  note le = unat_byte_le
  have "unat (ucast a + ucast b + ucast c + ucast d + (ucast e + ucast f + ucast g + ucast h) + 4 :: u32) =
     unat a + unat b + unat c + unat d + (unat e + unat f + unat g + unat h) + 4"
    using le [of a] le [of b] le [of c] le [of d] le [of e] le [of f] le [of g] le [of h]
    by (simp add: unat_word_ariths)
  then show ?thesis
    using le [of a] le [of b] le [of c] le [of d] le [of e] le [of f] le [of g] le [of h]
    by (simp add: unat_div)
qed


lemma length_Average: "length (Average src) = 4"
  by (simp add: Average_def)

lemma Average_le:
  assumes "q < 4" "c < 3"
  shows "unat (Average src ! q ! c) \<le> 255"
proof -
  have "unat (ucast x :: u16) \<le> 255" if "unat x \<le> 255" for x :: u32
    using that by (simp add: unsigned_ucast_eq take_bit_nat_eq_self)
  note this [OF half_average_le]
  with less_4_cases [OF assms(1)] less_3_cases [OF assms(2)] show ?thesis
    by (elim disjE) (simp_all add: Average_def quadrant_sums_eq half_quadrants_def Let_def upt_4)
qed

lemma mul8bit_bound:
  assumes "0 \<le> a" "a \<le> 255" "0 \<le> b" "b \<le> 255"
  shows "0 \<le> mul8bit a b \<and> mul8bit a b \<le> b"
proof -
  have "a * b \<le> 255 * b" using assms by (intro mult_right_mono)
  moreover have "0 \<le> a * b" using assms by simp
  moreover have "mul8bit a b = (2 * (a * b) + 255) div 510"
    using mul8bit_rounds [OF assms] by (simp add: mult.assoc)
  ultimately show ?thesis by linarith
qed

text \<open>Both quantised values are five-bit numbers and differ by a three-bit signed number, so the
  differential encoding of the pair never leaves its range.\<close>

lemma quant5_range:
  assumes "unat a0 \<le> 255" "unat a1 \<le> 255" "quant5 a0 a1 = (co, c1)"
  shows "0 \<le> c1 \<and> c1 < 32 \<and> 0 \<le> co \<and> co < 32 \<and> -4 \<le> co - c1 \<and> co - c1 \<le> 3"
proof -
  have "uint a0 \<le> 255" "uint a1 \<le> 255"
    using uint_le_of_unat [OF assms(1)] uint_le_of_unat [OF assms(2)] by simp_all
  then have "0 \<le> mul8bit (uint a0) 31 \<and> mul8bit (uint a0) 31 \<le> 31"
    "0 \<le> mul8bit (uint a1) 31 \<and> mul8bit (uint a1) 31 \<le> 31"
    by (intro mul8bit_bound; simp)+
  with assms(3) show ?thesis
    by (auto simp: quant5_def Let_def split: if_splits)
qed

text \<open>What \<open>ProcessAverages\<close> leaves in the first four entries: both nibbles of the byte are the
  same; and in the last four: five-bit values widened to eight bits.\<close>

definition nibble_doubled :: "u16 \<Rightarrow> bool" where
  "nibble_doubled v \<longleftrightarrow> (\<exists>n < 16. v = of_nat (17 * n))"

definition averages_ok :: "u16 list list \<Rightarrow> bool" where
  "averages_ok a \<longleftrightarrow> (\<forall>k < 4. \<forall>c < 3. nibble_doubled (a ! k ! c)) \<and>
     (\<forall>k \<in> {4, 6}. \<forall>c < 3. \<exists>co c1. a ! k ! c = widen5 co \<and> a ! (k + 1) ! c = widen5 c1 \<and>
        0 \<le> c1 \<and> c1 < 32 \<and> 0 \<le> co \<and> co < 32 \<and> -4 \<le> co - c1 \<and> co - c1 \<le> 3)"

lemma g_avg2_u16: "m < 16 \<Longrightarrow> (ucast (g_avg2 ! m) :: u16) = of_nat (17 * m)"
proof -
  have "\<forall>m < 16. (ucast (g_avg2 ! m) :: u16) = of_nat (17 * m)"
    unfolding bounded_all_upt upt_16 by (simp add: g_avg2_def)
  then show "m < 16 \<Longrightarrow> ?thesis" by blast
qed

lemma ProcessAverages_ok:
  assumes len: "length a = 4" and lens: "\<forall>k < 4. length (a ! k) = 3"
    and le: "\<And>k c. k < 4 \<Longrightarrow> c < 3 \<Longrightarrow> unat (a ! k ! c) \<le> 255"
  shows "averages_ok (ProcessAverages a)"
proof -
  have "nibble_doubled (ProcessAverages a ! k ! c)" if "k < 4" "c < 3" for k c
  proof -
    let ?m = "nat (mul8bit (uint (a ! k ! c)) 15)"
    have "uint (a ! k ! c) \<le> 255" using uint_le_of_unat [OF le [OF that]] by simp
    then have "0 \<le> mul8bit (uint (a ! k ! c)) 15 \<and> mul8bit (uint (a ! k ! c)) 15 \<le> 15"
      by (intro mul8bit_bound) simp_all
    then have m: "?m < 16" by linarith
    have "ProcessAverages a ! k ! c = ucast (g_avg2 ! ?m)"
      using that len lens by (simp add: ProcessAverages_def nth_append)
    also have "\<dots> = of_nat (17 * ?m)"
      by (rule g_avg2_u16 [OF m])
    finally show ?thesis using m by (auto simp: nibble_doubled_def)
  qed
  moreover have "\<exists>co c1. ProcessAverages a ! k ! c = widen5 co \<and> ProcessAverages a ! (k + 1) ! c = widen5 c1 \<and>
        0 \<le> c1 \<and> c1 < 32 \<and> 0 \<le> co \<and> co < 32 \<and> -4 \<le> co - c1 \<and> co - c1 \<le> 3"
    if k: "k \<in> {4, 6}" and c: "c < 3" for k c
  proof -
    define i where "i = (k - 4) div 2"
    have i: "i < 2" "k = 4 + 2 * i" using k by (auto simp: i_def)
    obtain co c1 where q: "quant5 (a ! (i * 2) ! c) (a ! (i * 2 + 1) ! c) = (co, c1)" by force
    obtain w x y z where a: "a = [w, x, y, z]" using length_4_cases [OF len] by auto
    have "ProcessAverages a ! k ! c = widen5 co \<and> ProcessAverages a ! (k + 1) ! c = widen5 c1"
      using k q less_3_cases [OF c] by (auto simp: i_def ProcessAverages_def a upt_2 upt_3)
    moreover have "unat (a ! (i * 2) ! c) \<le> 255" "unat (a ! (i * 2 + 1) ! c) \<le> 255"
      using i c by (auto intro!: le)
    ultimately show ?thesis using quant5_range [OF _ _ q] by blast
  qed
  ultimately show ?thesis by (auto simp: averages_ok_def)
qed

end
