(* ===== verification/Etc1RoundTrip.thy ===== *)
theory Etc1RoundTrip imports Etc1Encode begin

text \<open>
  What the decoder of \<open>src/BlockData.cpp\<close> makes of the blocks that the ETC1 encoder of
  \<open>src/ProcessRGB.cpp\<close> writes: it reads them as ETC1 blocks (never as T, H or planar), and
  reconstructs the colours the encoder worked with.
\<close>

section \<open>The encoded word after the decoder's byte swap\<close>

text \<open>The decoder's byte swap undoes \<open>FixByteOrder\<close> on the upper half and reverses the bytes of
  the lower half.\<close>

lemma Convert_Fix:
  "ConvertByteOrder (FixByteOrder x) = ucast (bswap32 (ucast x)) OR (x AND 0xFFFFFFFF00000000)"
  by (rule word64_eqI) (simp add: upt_64 ConvertByteOrder_def FixByteOrder_def bswap32_def bitwise)

text \<open>The selector chosen for pixel \<open>i\<close>.\<close>

definition chosen_table :: "u64 list list \<Rightarrow> nat list \<Rightarrow> nat \<Rightarrow> nat" where
  "chosen_table terr ids i = GetLeastError (terr ! (ids ! i mod 2)) 8"

definition chosen_selector :: "u64 list list \<Rightarrow> u16 list list \<Rightarrow> nat list \<Rightarrow> nat \<Rightarrow> u16" where
  "chosen_selector terr tsel ids i = tsel ! i ! chosen_table terr ids i"

lemma bit_selector_word:
  fixes s :: u64
  assumes "i < 16" "n < 64"
  shows "bit (push_bit (i + 32) (s AND 1) OR push_bit (i + 47) (s AND 2)) n \<longleftrightarrow>
    n = 32 + i \<and> bit s 0 \<or> n = 48 + i \<and> bit s 1"
proof -
  have two: "bit (2 :: u64) k \<longleftrightarrow> k = 1" for k
    using bit_2_iff [where 'a = u64, of k] by auto
  show ?thesis
    using assms unfolding bit_or_iff bit_push_bit_iff bit_and_iff two bit_1_iff
    by (auto simp: le_imp_diff_is_add)
qed

lemma EncodeSelectors_fold:
  "EncodeSelectors d terr tsel ids =
     fold (\<lambda>i d. d OR (push_bit (i + 32) (ucast (chosen_selector terr tsel ids i) AND 1)
        OR push_bit (i + 47) (ucast (chosen_selector terr tsel ids i) AND 2))) [0..<16]
       (d OR push_bit 26 (of_nat (GetLeastError (terr ! 0) 8)) OR push_bit 29 (of_nat (GetLeastError (terr ! 1) 8)))"
proof -
  have "(if ids ! i mod 2 = 0 then GetLeastError (terr ! 0) 8 else GetLeastError (terr ! 1) 8) = chosen_table terr ids i" for i
    by (simp add: chosen_table_def not_mod_2_eq_0_eq_1)
  then show ?thesis
    unfolding EncodeSelectors_def Let_def chosen_selector_def by (simp only: or.assoc)
qed

lemma bit_EncodeSelectors:
  assumes "n < 64"
  shows "bit (EncodeSelectors d terr tsel ids) n \<longleftrightarrow> bit d n
    \<or> (26 \<le> n \<and> bit (of_nat (GetLeastError (terr ! 0) 8) :: u64) (n - 26))
    \<or> (29 \<le> n \<and> bit (of_nat (GetLeastError (terr ! 1) 8) :: u64) (n - 29))
    \<or> (32 \<le> n \<and> n < 48 \<and> bit (chosen_selector terr tsel ids (n - 32)) 0)
    \<or> (48 \<le> n \<and> bit (chosen_selector terr tsel ids (n - 48)) 1)"
proof -
  let ?s = "\<lambda>i. ucast (chosen_selector terr tsel ids i) :: u64"
  have "(\<exists>i \<in> set [0..<16]. bit (push_bit (i + 32) (?s i AND 1) OR push_bit (i + 47) (?s i AND 2)) n) \<longleftrightarrow>
    (\<exists>i < 16. n = 32 + i \<and> bit (?s i) 0 \<or> n = 48 + i \<and> bit (?s i) 1)"
    using assms bit_selector_word by (metis atLeastLessThan_iff atLeast_upt set_upt zero_le)
  also have "\<dots> \<longleftrightarrow> (32 \<le> n \<and> n < 48 \<and> bit (?s (n - 32)) 0) \<or> (48 \<le> n \<and> bit (?s (n - 48)) 1)"
  proof
    assume "(32 \<le> n \<and> n < 48 \<and> bit (?s (n - 32)) 0) \<or> (48 \<le> n \<and> bit (?s (n - 48)) 1)"
    then show "\<exists>i < 16. n = 32 + i \<and> bit (?s i) 0 \<or> n = 48 + i \<and> bit (?s i) 1"
      using assms by (elim disjE) (auto intro: exI [of _ "n - 32"] exI [of _ "n - 48"])
  qed auto
  finally show ?thesis
    unfolding EncodeSelectors_fold bit_fold_or
    using assms by (auto simp: bit_or_iff bit_push_bit_iff bit_ucast_iff)
qed

text \<open>The nibbles of a doubled byte.\<close>

lemma nibble_doubled_bits:
  assumes "nibble_doubled v"
  shows "bit v 0 = bit v 4" "bit v 1 = bit v 5" "bit v 2 = bit v 6" "bit v 3 = bit v 7"
    "8 \<le> n \<Longrightarrow> \<not> bit v n" "bit v (Suc 0) = bit v 5"
proof -
  from assms obtain k where k: "k < 16" "v = of_nat (17 * k)" unfolding nibble_doubled_def by blast
  have "\<forall>k < 16. let v = of_nat (17 * k) :: u16 in
    bit v 0 = bit v 4 \<and> bit v 1 = bit v 5 \<and> bit v 2 = bit v 6 \<and> bit v 3 = bit v 7 \<and> v = take_bit 8 v"
    unfolding bounded_all_upt upt_16 by code_simp
  with k have *: "bit v 0 = bit v 4 \<and> bit v 1 = bit v 5 \<and> bit v 2 = bit v 6 \<and> bit v 3 = bit v 7 \<and> v = take_bit 8 v"
    by (auto simp: Let_def)
  then show "bit v 0 = bit v 4" "bit v 1 = bit v 5" "bit v 2 = bit v 6" "bit v 3 = bit v 7" by blast+
  then show "bit v (Suc 0) = bit v 5" by simp
  show "\<not> bit v n" if "8 \<le> n" using * that by (metis bit_take_bit_iff not_le)
qed

lemma bit_Convert_Fix:
  "n < 32 \<Longrightarrow> bit (ConvertByteOrder (FixByteOrder x)) n \<longleftrightarrow> bit x (24 - 8 * (n div 8) + n mod 8)"
  "32 \<le> n \<Longrightarrow> bit (ConvertByteOrder (FixByteOrder x)) n \<longleftrightarrow> bit x n"
proof -
  have mask: "bit (0xFFFFFFFF00000000 :: u64) n \<longleftrightarrow> 32 \<le> n \<and> n < 64" for n
  proof -
    have "(0xFFFFFFFF00000000 :: u64) = push_bit 32 (mask 32)" by (simp add: mask_eq_exp_minus_1)
    then show ?thesis by (simp only: bit_push_bit_iff bit_mask_iff) auto
  qed
  show "bit (ConvertByteOrder (FixByteOrder x)) n \<longleftrightarrow> bit x (24 - 8 * (n div 8) + n mod 8)" if "n < 32"
    using that unfolding Convert_Fix bit_or_iff bit_and_iff mask by (auto simp: bit_ucast_iff bit_bswap32)
  show "bit (ConvertByteOrder (FixByteOrder x)) n \<longleftrightarrow> bit x n" if "32 \<le> n"
    using that unfolding Convert_Fix bit_or_iff bit_and_iff mask
    by (auto simp: bit_ucast_iff dest: bit_imp_le_length)
qed

section \<open>The individual mode (two four-bit colours)\<close>

text \<open>The word that \<open>ProcessRGB\<close> builds and the decoder's view of it.\<close>

definition etc1_word :: "u16 list list \<Rightarrow> nat \<Rightarrow> u64 list list \<Rightarrow> u16 list list \<Rightarrow> nat list \<Rightarrow> u64" where
  "etc1_word a idx terr tsel ids =
     ConvertByteOrder (FixByteOrder (EncodeSelectors (EncodeAverages 0 a idx) terr tsel ids))"

lemma bit_etc1_word_high:
  assumes "32 \<le> n" "n < 64" "\<not> bit (EncodeAverages 0 a idx) n"
  shows "bit (etc1_word a idx terr tsel ids) n \<longleftrightarrow>
    (if n < 48 then bit (chosen_selector terr tsel ids (n - 32)) 0 else bit (chosen_selector terr tsel ids (n - 48)) 1)"
proof -
  have "\<not> bit (of_nat (GetLeastError (terr ! 0) 8) :: u64) (n - 26)" "\<not> bit (of_nat (GetLeastError (terr ! 1) 8) :: u64) (n - 29)"
    using assms by (simp_all add: small_of_nat_bits GetLeastError_less)
  with assms show ?thesis by (simp add: etc1_word_def bit_Convert_Fix bit_EncodeSelectors)
qed

lemma bit_etc1_word_low:
  assumes "n < 32"
  shows "bit (etc1_word a idx terr tsel ids) n \<longleftrightarrow> (let m = 24 - 8 * (n div 8) + n mod 8 in
     bit (EncodeAverages 0 a idx) m
    \<or> (26 \<le> m \<and> bit (of_nat (GetLeastError (terr ! 0) 8) :: u64) (m - 26))
    \<or> (29 \<le> m \<and> bit (of_nat (GetLeastError (terr ! 1) 8) :: u64) (m - 29)))"
proof -
  have "24 - 8 * (n div 8) + n mod 8 < 32" by linarith
  then show ?thesis
    using assms by (simp add: etc1_word_def bit_Convert_Fix bit_EncodeSelectors Let_def)
qed

lemma EncodeAverages_individual:
  assumes "averages_ok a" "idx < 2"
  shows "EncodeAverages 0 a idx = ucast (
     drop_bit 4 (a ! (2 * idx) ! 0) OR (a ! (2 * idx + 1) ! 0 AND 0xF0)) OR
     push_bit 8 (ucast (drop_bit 4 (a ! (2 * idx) ! 1) OR (a ! (2 * idx + 1) ! 1 AND 0xF0))) OR
     push_bit 16 (ucast (drop_bit 4 (a ! (2 * idx) ! 2) OR (a ! (2 * idx + 1) ! 2 AND 0xF0))) OR
     push_bit 24 (of_nat idx)"
proof -
  have "\<forall>k < 4. \<forall>c < 3. nibble_doubled (a ! k ! c)"
    using assms(1) by (simp add: averages_ok_def)
  then have nd: "nibble_doubled (a ! (2 * idx) ! c)" "nibble_doubled (a ! Suc (2 * idx) ! c)" if "c < 3" for c
    using assms(2) that by simp_all
  have b: "\<not> bit (a ! (2 * idx) ! 0) n" "\<not> bit (a ! (2 * idx) ! 1) n" "\<not> bit (a ! (2 * idx) ! 2) n"
    "\<not> bit (a ! Suc (2 * idx) ! 0) n" "\<not> bit (a ! Suc (2 * idx) ! 1) n" "\<not> bit (a ! Suc (2 * idx) ! 2) n"
    if "8 \<le> n" for n
    using that by (simp_all add: nibble_doubled_bits(5) nd)
  have "idx = 0 \<or> idx = 1" using assms(2) by auto
  then show ?thesis
    using b by (elim disjE; intro word64_eqI; simp add: EncodeAverages_def Let_def upt_3 upt_64 bitwise)
qed

text \<open>The table codewords sit above the two mode flags, whatever the mode.\<close>

lemma etc1_word_tcw:
  assumes "\<And>n. 26 \<le> n \<Longrightarrow> \<not> bit (EncodeAverages 0 a idx) n"
  shows "etc1_tcw (etc1_word a idx terr tsel ids) 0 = GetLeastError (terr ! 1) 8"
    and "etc1_tcw (etc1_word a idx terr tsel ids) 1 = GetLeastError (terr ! 0) 8"
proof -
  let ?W = "etc1_word a idx terr tsel ids"
  have small: "GetLeastError e 8 < 8" for e :: "u64 list" by (rule GetLeastError_less) simp
  have "drop_bit 5 (?W AND 0xE0) = of_nat (GetLeastError (terr ! 1) 8)"
    by (rule word64_eqI) (simp add: upt_64 bitwise bit_etc1_word_low assms small_nat_bits small_of_nat_bits small)
  then show "etc1_tcw ?W 0 = GetLeastError (terr ! 1) 8"
    using small [of "terr ! 1"] by (simp add: etc1_tcw_def unsigned_of_nat take_bit_nat_eq_self)
  have "drop_bit 2 (?W AND 0x1C) = of_nat (GetLeastError (terr ! 0) 8)"
    by (rule word64_eqI) (simp add: upt_64 bitwise bit_etc1_word_low assms small_nat_bits small_of_nat_bits small)
  then show "etc1_tcw ?W 1 = GetLeastError (terr ! 0) 8"
    using small [of "terr ! 0"] by (simp add: etc1_tcw_def unsigned_of_nat take_bit_nat_eq_self)
qed


lemma etc1_word_individual:
  assumes ok: "averages_ok a" and idx: "idx < 2"
  shows "\<not> bit (etc1_word a idx terr tsel ids) 1"
    and "bit (etc1_word a idx terr tsel ids) 0 \<longleftrightarrow> idx = 1"
    and "etc1_bases (etc1_word a idx terr tsel ids) 0 =
      (ucast (a ! (2 * idx + 1) ! 0), ucast (a ! (2 * idx + 1) ! 1), ucast (a ! (2 * idx + 1) ! 2))"
    and "etc1_bases (etc1_word a idx terr tsel ids) 1 =
      (ucast (a ! (2 * idx) ! 0), ucast (a ! (2 * idx) ! 1), ucast (a ! (2 * idx) ! 2))"
    and "\<And>n. 26 \<le> n \<Longrightarrow> \<not> bit (EncodeAverages 0 a idx) n"
proof -
  let ?W = "etc1_word a idx terr tsel ids"
  note enc = EncodeAverages_individual [OF ok idx]
  have "\<forall>k < 4. \<forall>c < 3. nibble_doubled (a ! k ! c)"
    using ok by (simp add: averages_ok_def)
  then have nd: "nibble_doubled (a ! (2 * idx) ! c)" "nibble_doubled (a ! Suc (2 * idx) ! c)" if "c < 3" for c
    using idx that by simp_all
  note nib = nibble_doubled_bits [OF nd(1)] nibble_doubled_bits [OF nd(2)]
  have flags: "bit (of_nat idx :: u64) n \<longleftrightarrow> n = 0 \<and> idx = 1" "bit idx n \<longleftrightarrow> n = 0 \<and> idx = 1" for n
    using idx by (auto simp: less_2_cases_iff bit_1_iff bit_Suc_0_iff)
  show "\<not> bit ?W 1" "bit ?W 0 \<longleftrightarrow> idx = 1"
    by (simp_all add: bit_etc1_word_low enc flags bitwise nib)
  then have mode: "?W AND 2 = 0" by (simp add: and_two_is_bit)
  show "etc1_bases ?W 0 =
      (ucast (a ! (2 * idx + 1) ! 0), ucast (a ! (2 * idx + 1) ! 1), ucast (a ! (2 * idx + 1) ! 2))"
    unfolding etc1_bases_def mode
    by (simp, intro conjI word32_eqI) (simp_all add: upt_32 bitwise bit_etc1_word_low enc flags nib)
  show "etc1_bases ?W 1 =
      (ucast (a ! (2 * idx) ! 0), ucast (a ! (2 * idx) ! 1), ucast (a ! (2 * idx) ! 2))"
    unfolding etc1_bases_def mode
    by (simp, intro conjI word32_eqI) (simp_all add: upt_32 bitwise bit_etc1_word_low enc flags nib)
  show "\<not> bit (EncodeAverages 0 a idx) n" if "26 \<le> n" for n
    using that by (auto simp: enc bitwise nib flags)
qed

section \<open>The differential mode (a five-bit colour and a difference)\<close>

lemma five_bit_facts:
  assumes "0 \<le> c" "c < 32"
  shows "(ucast (widen5 c) AND 0xF8 :: u32) = word_of_int (8 * c)"
    and "ext5 (word_of_int c) = ucast (widen5 c)"
    and "\<not> outside31 (word_of_int c)"
    and "ucast (drop_bit 3 (widen5 c)) = (word_of_int c :: u32)"
    and "8 \<le> n \<Longrightarrow> \<not> bit (widen5 c) n"
proof -
  have "list_all (\<lambda>c. (ucast (widen5 c) AND 0xF8 :: u32) = word_of_int (8 * c) \<and>
      ext5 (word_of_int c) = ucast (widen5 c) \<and> \<not> outside31 (word_of_int c) \<and>
      ucast (drop_bit 3 (widen5 c)) = (word_of_int c :: u32) \<and> widen5 c = take_bit 8 (widen5 c)) [0..31]"
    by code_simp
  moreover have "c \<in> set [0..31]" using assms by simp
  ultimately have *: "(ucast (widen5 c) AND 0xF8 :: u32) = word_of_int (8 * c) \<and>
      ext5 (word_of_int c) = ucast (widen5 c) \<and> \<not> outside31 (word_of_int c) \<and>
      ucast (drop_bit 3 (widen5 c)) = (word_of_int c :: u32) \<and> widen5 c = take_bit 8 (widen5 c)"
    unfolding list_all_iff by blast
  then show "(ucast (widen5 c) AND 0xF8 :: u32) = word_of_int (8 * c)"
    "ext5 (word_of_int c) = ucast (widen5 c)" "\<not> outside31 (word_of_int c)"
    "ucast (drop_bit 3 (widen5 c)) = (word_of_int c :: u32)" by blast+
  show "\<not> bit (widen5 c) n" if "8 \<le> n" using * that by (metis bit_take_bit_iff not_le)
qed

text \<open>The difference as the encoder computes it, and its sign extension in the decoder.\<close>

definition diff3 :: "u16 \<Rightarrow> u16 \<Rightarrow> u32" where
  "diff3 v w = signed_drop_bit 3 ((ucast v AND 0xF8) - (ucast w AND 0xF8)) AND NOT 0xFFFFFFF8"

lemma diff3_extends:
  assumes "0 \<le> c1" "c1 < 32" "0 \<le> co" "co < 32" "-4 \<le> co - c1" "co - c1 \<le> 3"
  shows "word_of_int c1 + signed_drop_bit 29 (push_bit 29 (diff3 (widen5 co) (widen5 c1))) = (word_of_int co :: u32)"
proof -
  define e where "e = co - c1"
  have "list_all (\<lambda>e. signed_drop_bit 29 (push_bit 29 (signed_drop_bit 3 (word_of_int (8 * e)) AND NOT 0xFFFFFFF8)) =
     (word_of_int e :: u32)) [-4..3]"
    by code_simp
  moreover have "e \<in> set [-4..3]" using assms by (simp only: set_upto atLeastAtMost_iff e_def)
  ultimately have "signed_drop_bit 29 (push_bit 29 (signed_drop_bit 3 (word_of_int (8 * e)) AND NOT 0xFFFFFFF8)) =
     (word_of_int e :: u32)"
    unfolding list_all_iff by blast
  moreover have "(word_of_int (8 * co) - word_of_int (8 * c1) :: u32) = word_of_int (8 * e)"
    by (simp add: e_def right_diff_distrib)
  ultimately have "signed_drop_bit 29 (push_bit 29 (diff3 (widen5 co) (widen5 c1))) = (word_of_int e :: u32)"
    by (simp only: diff3_def five_bit_facts(1) assms)
  then show ?thesis by (simp add: e_def)
qed

lemma diff3_bits: "3 \<le> n \<Longrightarrow> \<not> bit (diff3 v w) n"
proof -
  have "(NOT 0xFFFFFFF8 :: u32) = mask 3" by code_simp
  then have "diff3 v w = diff3 v w AND mask 3"
    unfolding diff3_def by (simp only: and.assoc and.idem)
  then show "3 \<le> n \<Longrightarrow> \<not> bit (diff3 v w) n" by (metis bit_and_iff bit_mask_iff not_le)
qed

lemma EncodeAverages_differential:
  assumes "2 \<le> idx" "idx < 4"
  shows "EncodeAverages 0 a idx =
     ucast (a ! (2 * idx + 1) ! 0 AND 0xF8) OR ucast (diff3 (a ! (2 * idx) ! 0) (a ! (2 * idx + 1) ! 0)) OR
     push_bit 8 (ucast (a ! (2 * idx + 1) ! 1 AND 0xF8) OR ucast (diff3 (a ! (2 * idx) ! 1) (a ! (2 * idx + 1) ! 1))) OR
     push_bit 16 (ucast (a ! (2 * idx + 1) ! 2 AND 0xF8) OR ucast (diff3 (a ! (2 * idx) ! 2) (a ! (2 * idx + 1) ! 2))) OR
     push_bit 24 (of_nat idx)"
proof -
  have flag: "idx AND 2 \<noteq> 0"
  proof -
    have "idx = 2 \<or> idx = 3" using assms by linarith
    then show ?thesis by (elim disjE) simp_all
  qed
  have base: "push_bit 1 idx + 0 = 2 * idx" "push_bit 1 idx + 1 = 2 * idx + 1"
    by (simp_all add: mult.commute)
  have unf: "EncodeAverages 0 a idx = fold (\<lambda>i d. d OR push_bit (i * 8) (ucast (a ! (2 * idx + 1) ! i AND 0xF8)) OR
      push_bit (i * 8) (ucast (diff3 (a ! (2 * idx) ! i) (a ! (2 * idx + 1) ! i)))) [0..<3] (0 OR push_bit 24 (of_nat idx))"
    unfolding EncodeAverages_def Let_def base diff3_def if_not_P [OF flag] by (simp only: or.assoc)
  show ?thesis
    unfolding unf upt_3
    by (simp add: push_bit_or or.assoc or.left_commute or.commute)
qed

lemma etc1_word_differential:
  assumes ok: "averages_ok a" and idx: "2 \<le> idx" "idx < 4"
  shows "bit (etc1_word a idx terr tsel ids) 1"
    and "bit (etc1_word a idx terr tsel ids) 0 \<longleftrightarrow> idx = 3"
    and "etc1_bases (etc1_word a idx terr tsel ids) 0 =
      (ucast (a ! (2 * idx + 1) ! 0), ucast (a ! (2 * idx + 1) ! 1), ucast (a ! (2 * idx + 1) ! 2))"
    and "etc1_bases (etc1_word a idx terr tsel ids) 1 =
      (ucast (a ! (2 * idx) ! 0), ucast (a ! (2 * idx) ! 1), ucast (a ! (2 * idx) ! 2))"
    and "select_mode (etc1_word a idx terr tsel ids) = ModeEtc1"
    and "\<And>n. 26 \<le> n \<Longrightarrow> \<not> bit (EncodeAverages 0 a idx) n"
proof -
  let ?W = "etc1_word a idx terr tsel ids"
  note enc = EncodeAverages_differential [OF idx, of a]
  have "2 * idx \<in> {4, 6}" using idx by auto
  with ok have "\<forall>c < 3. \<exists>co c1. a ! (2 * idx) ! c = widen5 co \<and> a ! (2 * idx + 1) ! c = widen5 c1 \<and>
        0 \<le> c1 \<and> c1 < 32 \<and> 0 \<le> co \<and> co < 32 \<and> -4 \<le> co - c1 \<and> co - c1 \<le> 3"
    unfolding averages_ok_def by blast
  then obtain co c1 where
    co: "\<And>c. c < 3 \<Longrightarrow> a ! (2 * idx) ! c = widen5 (co c)" and
    c1: "\<And>c. c < 3 \<Longrightarrow> a ! (2 * idx + 1) ! c = widen5 (c1 c)" and
    r: "\<And>c. c < 3 \<Longrightarrow> 0 \<le> c1 c \<and> c1 c < 32 \<and> 0 \<le> co c \<and> co c < 32 \<and> -4 \<le> co c - c1 c \<and> co c - c1 c \<le> 3"
    by metis
  have wide: "\<not> bit (a ! (2 * idx) ! c) n" "\<not> bit (a ! Suc (2 * idx) ! c) n" if "c < 3" "8 \<le> n" for c n
    using that r [of c] co [of c] c1 [of c] five_bit_facts(5) by simp_all
  have flags: "bit (of_nat idx :: u64) n \<longleftrightarrow> n = 1 \<or> n = 0 \<and> idx = 3"
    "bit idx n \<longleftrightarrow> n = 1 \<or> n = 0 \<and> idx = 3" for n
  proof -
    have two: "bit (2 :: nat) n \<longleftrightarrow> n = 1" "bit (3 :: nat) n \<longleftrightarrow> n = 0 \<or> n = 1" for n
      using bit_2_iff [where 'a = nat, of n] bit_mask_iff [where 'a = nat, of 2 n]
      by (auto simp: mask_eq_exp_minus_1)
    have "idx = 2 \<or> idx = 3" using idx by linarith
    then show "bit idx n \<longleftrightarrow> n = 1 \<or> n = 0 \<and> idx = 3"
      using two by (elim disjE) auto
    then show "bit (of_nat idx :: u64) n \<longleftrightarrow> n = 1 \<or> n = 0 \<and> idx = 3"
      by (auto simp: bit_simps)
  qed
  show "bit ?W 1" "bit ?W 0 \<longleftrightarrow> idx = 3"
    by (simp_all add: bit_etc1_word_low enc flags bitwise wide diff3_bits)
  then have mode: "?W AND 2 \<noteq> 0" by (simp add: and_two_is_bit)
  have "base5 ?W = (ucast (drop_bit 3 (a ! (2 * idx + 1) ! 0)), ucast (drop_bit 3 (a ! (2 * idx + 1) ! 1)),
     ucast (drop_bit 3 (a ! (2 * idx + 1) ! 2)))"
    unfolding base5_def prod.inject
    by (intro conjI word32_eqI) (simp_all add: upt_32 bitwise bit_etc1_word_low enc flags wide diff3_bits)
  then have b5: "base5 ?W = (word_of_int (c1 0), word_of_int (c1 1), word_of_int (c1 2))"
    by (simp add: c1 [unfolded Suc_eq_plus1 [symmetric]] r five_bit_facts(4))
  have "delta3 ?W = (signed_drop_bit 29 (push_bit 29 (diff3 (a ! (2 * idx) ! 0) (a ! (2 * idx + 1) ! 0))),
     signed_drop_bit 29 (push_bit 29 (diff3 (a ! (2 * idx) ! 1) (a ! (2 * idx + 1) ! 1))),
     signed_drop_bit 29 (push_bit 29 (diff3 (a ! (2 * idx) ! 2) (a ! (2 * idx + 1) ! 2))))"
    unfolding delta3_def prod.inject
    by (intro conjI word32_eqI) (simp_all add: upt_32 bitwise bit_etc1_word_low enc flags wide diff3_bits)
  then have s5: "second5 ?W = (word_of_int (co 0), word_of_int (co 1), word_of_int (co 2))"
    using b5 by (simp add: second5_def co c1 [unfolded Suc_eq_plus1 [symmetric]] r diff3_extends)
  show "select_mode ?W = ModeEtc1"
    using mode s5 r by (simp add: select_mode_def five_bit_facts(3))
  show "etc1_bases ?W 0 =
      (ucast (a ! (2 * idx + 1) ! 0), ucast (a ! (2 * idx + 1) ! 1), ucast (a ! (2 * idx + 1) ! 2))"
    using mode b5 r by (simp add: etc1_bases_def c1 [unfolded Suc_eq_plus1 [symmetric]] five_bit_facts(2))
  show "etc1_bases ?W 1 =
      (ucast (a ! (2 * idx) ! 0), ucast (a ! (2 * idx) ! 1), ucast (a ! (2 * idx) ! 2))"
    using mode s5 r by (simp add: etc1_bases_def co five_bit_facts(2))
  show "\<not> bit (EncodeAverages 0 a idx) n" if "26 \<le> n" for n
    using that by (simp add: enc bit_or_iff bit_push_bit_iff bit_ucast_iff bit_and_iff wide diff3_bits flags) arith
qed

section \<open>The selectors\<close>

lemma bit_spread16:
  assumes "\<And>n. 16 \<le> n \<Longrightarrow> \<not> bit b n" "n < 32"
  shows "bit (spread16 b) n \<longleftrightarrow> even n \<and> bit b (n div 2)"
proof -
  have "\<forall>n < 32. bit (spread16 b) n \<longleftrightarrow> even n \<and> bit b (n div 2)"
    unfolding each_bit by (simp add: spread16_def Let_def bitwise assms(1))
  then show ?thesis using assms(2) by blast
qed

lemma bit_etc1_idx:
  assumes "n < 32"
  shows "bit (etc1_idx d) n \<longleftrightarrow> bit d (if even n then 32 + n div 2 else 48 + n div 2)"
proof -
  let ?b1 = "ucast (drop_bit 32 d AND 0xFFFF) :: u32"
  let ?b2 = "ucast (drop_bit 48 d) :: u32"
  have m: "bit (0xFFFF :: u64) k \<longleftrightarrow> k < 16" for k
    using bit_mask_iff [where 'a = u64, of 16 k] by (auto simp: mask_eq_exp_minus_1)
  have z: "\<not> bit ?b1 k" "\<not> bit ?b2 k" if "16 \<le> k" for k
    using that bit_imp_le_length [of d "48 + k"]
    unfolding bit_ucast_iff bit_and_iff m bit_drop_bit_eq by (auto simp: add.commute)
  define s1 s2 where "s1 = spread16 ?b1" and "s2 = spread16 ?b2"
  have s1: "bit s1 n \<longleftrightarrow> even n \<and> bit d (32 + n div 2)" if "n < 32" for n
  proof -
    have "bit s1 n \<longleftrightarrow> even n \<and> bit ?b1 (n div 2)"
      unfolding s1_def by (rule bit_spread16) (use that z in auto)
    then show ?thesis using that unfolding bit_ucast_iff bit_and_iff m bit_drop_bit_eq by auto
  qed
  have s2: "bit s2 n \<longleftrightarrow> even n \<and> bit d (48 + n div 2)" if "n < 32" for n
  proof -
    have "bit s2 n \<longleftrightarrow> even n \<and> bit ?b2 (n div 2)"
      unfolding s2_def by (rule bit_spread16) (use that z in auto)
    then show ?thesis using that unfolding bit_ucast_iff bit_drop_bit_eq by auto
  qed
  have "etc1_idx d = s1 OR push_bit 1 s2" by (simp add: etc1_idx_def Let_def s1_def s2_def)
  then have "\<forall>n < 32. bit (etc1_idx d) n \<longleftrightarrow> bit d (if even n then 32 + n div 2 else 48 + n div 2)"
    unfolding each_bit by (simp add: s1 s2 bitwise)
  then show ?thesis using assms by blast
qed

lemma two_bits:
  "unat (w AND 3 :: u32) = of_bool (bit w 0) + 2 * of_bool (bit w 1)"
proof -
  have "w AND 3 = take_bit 2 w" by (simp add: take_bit_eq_mask mask_eq_exp_minus_1)
  also have "\<dots> = of_bool (bit w 0) + 2 * of_bool (bit w 1)"
    by (rule word32_eqI) (auto simp: upt_32 bitwise)
  finally show ?thesis by (cases "bit w 0"; cases "bit w 1") simp_all
qed

lemma etc1_idx_selector:
  assumes "p < 16"
  shows "unat (drop_bit (2 * p) (etc1_idx d) AND 3) = of_bool (bit d (32 + p)) + 2 * of_bool (bit d (48 + p))"
  using assms by (simp add: two_bits bit_drop_bit_eq bit_etc1_idx)

text \<open>A selector below four is the number its two low bits make.\<close>

lemma selector_bits:
  assumes "m < 4"
  shows "of_bool (bit (of_nat m :: u16) 0) + 2 * of_bool (bit (of_nat m :: u16) 1) = (m :: nat)"
  using less_4_cases [OF assms] by (elim disjE) simp_all

lemma fit_step_tsel:
  "snd (fold (fit_step a ids src) [0..<m] st) =
     snd st @ map (\<lambda>i. map (\<lambda>t. of_nat (fst (best_selector (pixel_diff (a ! (ids ! i)) src i) t))) [0..<8]) [0..<m]"
  by (induction m) (simp_all add: fit_step_def Let_def case_prod_unfold)

lemma FindBestFit_tsel:
  assumes "i < 16" "t < 8"
  shows "snd (FindBestFit a ids src) ! i ! t =
    of_nat (fst (best_selector (pixel_diff (a ! (ids ! i)) src i) t))"
  using assms by (simp add: FindBestFit_def fit_step_tsel del: upt_Suc)

section \<open>The round trip\<close>

text \<open>The half a pixel belongs to, as the encoder's table \<open>g_id\<close> and as the decoder's split bit
  give it.\<close>

lemma g_id_half:
  assumes "idx < 4" "i < 4" "j < 4"
  shows "g_id ! idx ! (4 * i + j) = 2 * idx + 1 - (if odd idx then j div 2 else i div 2)"
proof -
  have "list_all (\<lambda>idx. list_all (\<lambda>i. list_all (\<lambda>j.
     g_id ! idx ! (4 * i + j) = 2 * idx + 1 - (if odd idx then j div 2 else i div 2)) [0..<4]) [0..<4]) [0..<4]"
    by code_simp
  then show ?thesis using assms by (simp add: list_all_iff del: upt_Suc)
qed

text \<open>What the encoder chose for the pixel at column \<open>i\<close>, row \<open>j\<close>: the base colour of its half, the
  table of the half, and the modifier of the table.\<close>

record etc1_choice =
  ch_base :: "u16 list"
  ch_table :: nat
  ch_selector :: nat

definition encoder_choice :: "u8 list \<Rightarrow> nat \<Rightarrow> nat \<Rightarrow> etc1_choice" where
  "encoder_choice src i j = (let
     (a, err) = PrepareAverages src;
     idx = GetLeastError err 4;
     bid = g_id ! idx ! (4 * i + j);
     (terr, tsel) = FindBestFit a (g_id ! idx) src;
     t = GetLeastError (terr ! (bid mod 2)) 8
   in \<lparr>ch_base = a ! bid, ch_table = t,
       ch_selector = fst (best_selector (pixel_diff (a ! bid) src (4 * i + j)) t)\<rparr>)"

definition encoder_pixel :: "etc1_choice \<Rightarrow> u32" where
  "encoder_pixel c = (let md = word_of_int (g_table ! ch_table c ! ch_selector c) in
     pack_clamped (ucast (ch_base c ! 0) + md) (ucast (ch_base c ! 1) + md) (ucast (ch_base c ! 2) + md))"

lemma PrepareAverages_ok: "averages_ok (fst (PrepareAverages src))"
proof -
  have "length (Average src ! k) = 3" if "k < 4" for k
    using that by (simp add: Average_def)
  then have "averages_ok (ProcessAverages (Average src))"
    by (intro ProcessAverages_ok) (simp_all add: length_Average Average_le)
  then show ?thesis by (simp add: PrepareAverages_def Let_def)
qed

lemma etc1_word_pixel:
  fixes src :: "u8 list"
  assumes ok: "averages_ok a" and idx: "idx < 4" and ij: "i < 4" "j < 4"
    and fit: "FindBestFit a (g_id ! idx) src = (terr, tsel)"
  defines "bid \<equiv> g_id ! idx ! (4 * i + j)"
  defines "t \<equiv> GetLeastError (terr ! (bid mod 2)) 8"
  shows "select_mode (etc1_word a idx terr tsel (g_id ! idx)) = ModeEtc1"
    and "etc1_image (etc1_word a idx terr tsel (g_id ! idx)) alpha i j =
      encoder_pixel \<lparr>ch_base = a ! bid, ch_table = t,
        ch_selector = fst (best_selector (pixel_diff (a ! bid) src (4 * i + j)) t)\<rparr> OR alpha i j"
proof -
  let ?W = "etc1_word a idx terr tsel (g_id ! idx)"
  let ?k = "if odd idx then j div 2 else i div 2"
  let ?m = "fst (best_selector (pixel_diff (a ! bid) src (4 * i + j)) t)"
  have t: "t < 8" unfolding t_def by (rule GetLeastError_less) simp
  have k: "?k < 2" using ij by auto
  have bid: "bid = 2 * idx + 1 - ?k" unfolding bid_def using g_id_half [OF idx ij] .
  have facts: "select_mode ?W = ModeEtc1 \<and> (bit ?W 0 \<longleftrightarrow> odd idx) \<and>
      etc1_bases ?W 0 = (ucast (a ! (2 * idx + 1) ! 0), ucast (a ! (2 * idx + 1) ! 1), ucast (a ! (2 * idx + 1) ! 2)) \<and>
      etc1_bases ?W 1 = (ucast (a ! (2 * idx) ! 0), ucast (a ! (2 * idx) ! 1), ucast (a ! (2 * idx) ! 2)) \<and>
      (\<forall>n \<ge> 26. \<not> bit (EncodeAverages 0 a idx) n)"
  proof (cases "idx < 2")
    case True
    note W = etc1_word_individual(1-4) [OF ok True, of terr tsel "g_id ! idx"] etc1_word_individual(5) [OF ok True]
    have "odd idx \<longleftrightarrow> idx = 1" using True by presburger
    moreover have "select_mode ?W = ModeEtc1" using W(1) by (simp only: select_mode_def and_two_is_bit) simp
    ultimately show ?thesis using W(2-5) by blast
  next
    case False
    then have idx2: "2 \<le> idx" by simp
    note W = etc1_word_differential(1-5) [OF ok idx2 idx, of terr tsel "g_id ! idx"]
      etc1_word_differential(6) [OF ok idx2 idx]
    have "odd idx \<longleftrightarrow> idx = 3" using idx2 idx by presburger
    then show ?thesis using W(2-6) by blast
  qed
  then show "select_mode ?W = ModeEtc1" by blast
  have flip: "(?W AND 1 \<noteq> 0) \<longleftrightarrow> odd idx"
    using facts by (auto simp: and_one_is_bit)
  have bases: "etc1_bases ?W ?k = (ucast (a ! bid ! 0), ucast (a ! bid ! 1), ucast (a ! bid ! 2))"
    using facts k unfolding bid by (cases "?k = 0") (auto simp: less_2_cases_iff)
  have tcw: "etc1_tcw ?W ?k = t"
  proof -
    have "\<And>n. 26 \<le> n \<Longrightarrow> \<not> bit (EncodeAverages 0 a idx) n" using facts by blast
    note T = etc1_word_tcw [OF this]
    have "bid mod 2 = 1 - ?k" using k unfolding bid by (cases "?k = 0") (auto simp: less_2_cases_iff)
    then show ?thesis using T k unfolding t_def by (cases "?k = 0") (auto simp: less_2_cases_iff)
  qed
  have sel: "unat (drop_bit (2 * (4 * i + j)) (etc1_idx ?W) AND 3) = ?m"
  proof -
    have n: "4 * i + j < 16" using ij by simp
    have "chosen_selector terr tsel (g_id ! idx) (4 * i + j) = of_nat ?m"
      using FindBestFit_tsel [OF n t, of a "g_id ! idx" src] fit
      by (simp add: chosen_selector_def chosen_table_def t_def bid_def)
    moreover have "\<not> bit (EncodeAverages 0 a idx) m" if "26 \<le> m" for m using facts that by blast
    ultimately have "bit ?W (32 + (4 * i + j)) = bit (of_nat ?m :: u16) 0" "bit ?W (48 + (4 * i + j)) = bit (of_nat ?m :: u16) 1"
      using n by (simp_all add: bit_etc1_word_high del: of_nat_add)
    then show ?thesis
      unfolding etc1_idx_selector [OF n] using selector_bits [OF best_selector_least(1)] by simp
  qed
  show "etc1_image ?W alpha i j = encoder_pixel \<lparr>ch_base = a ! bid, ch_table = t, ch_selector = ?m\<rparr> OR alpha i j"
    unfolding etc1_image_def flip sel
    by (simp add: etc1_pixel_def bases tcw encoder_pixel_def Let_def)
qed

section \<open>The errors collected per table\<close>

text \<open>The error of table \<open>t\<close> on half \<open>h\<close> under the best selectors, over the first \<open>m\<close> pixels.\<close>

definition half_pixels :: "nat list \<Rightarrow> nat \<Rightarrow> nat \<Rightarrow> nat set" where
  "half_pixels ids h m = {i. i < m \<and> ids ! i mod 2 = h}"

definition fit_cost :: "u16 list list \<Rightarrow> nat list \<Rightarrow> u8 list \<Rightarrow> nat \<Rightarrow> nat \<Rightarrow> nat \<Rightarrow> int" where
  "fit_cost a ids src m h t = (\<Sum>i \<in> half_pixels ids h m. snd (best_selector (pixel_diff (a ! (ids ! i)) src i) t))"

lemma half_pixels_Suc:
  "half_pixels ids h (Suc m) = (if ids ! m mod 2 = h then insert m (half_pixels ids h m) else half_pixels ids h m)"
  by (auto simp: half_pixels_def less_Suc_eq)

lemma finite_half_pixels [simp]: "finite (half_pixels ids h m)"
  by (simp add: half_pixels_def)

lemma fit_cost_Suc:
  "fit_cost a ids src (Suc m) h t = fit_cost a ids src m h t +
     (if ids ! m mod 2 = h then snd (best_selector (pixel_diff (a ! (ids ! m)) src m) t) else 0)"
  by (simp add: fit_cost_def half_pixels_Suc) (simp add: half_pixels_def)

lemma fit_step_terr:
  assumes "t < 8" "length (fst st) = 2"
  shows "fst (fit_step a ids src m st) ! h ! t = (if h < 2 \<and> ids ! m mod 2 = h
     then fst st ! h ! t + word_of_int (snd (best_selector (pixel_diff (a ! (ids ! m)) src m) t)) else fst st ! h ! t)"
    and "length (fst (fit_step a ids src m st)) = 2"
  using assms by (auto simp: fit_step_def Let_def case_prod_unfold nth_list_update)

lemma FindBestFit_terr:
  assumes "h < 2" "t < 8"
  shows "fst (FindBestFit a ids src) ! h ! t = word_of_int (fit_cost a ids src 16 h t)"
proof -
  have "length (fst (fold (fit_step a ids src) [0..<m] (replicate 2 (replicate 8 0), []))) = 2 \<and>
    fst (fold (fit_step a ids src) [0..<m] (replicate 2 (replicate 8 0), [])) ! h ! t =
       word_of_int (fit_cost a ids src m h t)" for m
  proof (induction m)
    case 0
    then show ?case using assms by (simp add: fit_cost_def half_pixels_def)
  next
    case (Suc m)
    then show ?case
      using assms by (simp add: fold_upt_Suc fit_step_terr fit_cost_Suc del: upt_Suc)
  qed
  then show ?thesis unfolding FindBestFit_def by blast
qed

text \<open>The costs are far below \<open>2 ^ 64\<close>, so the 64-bit comparisons of the encoder compare them.\<close>

lemma best_selector_bound:
  assumes "t < 8"
  shows "0 \<le> snd (best_selector (pixel_diff avg src i) t)" "snd (best_selector (pixel_diff avg src i) t) < 2 ^ 50"
proof -
  let ?p = "pixel_diff avg src i"
  show "0 \<le> snd (best_selector ?p t)"
    unfolding best_selector_argmin(2) by (simp add: sq_def)
  have avg: "0 \<le> uint v" "uint v \<le> 65535" for v :: u16
    using unsigned_less [of v, where 'a = int] by simp_all
  have byte: "0 \<le> uint v" "uint v \<le> 255" for v :: u8
    using uint_byte_le by simp_all
  note range = avg [of "avg ! 0"] avg [of "avg ! 1"] avg [of "avg ! 2"]
    byte [of "src ! (4 * i + 2)"] byte [of "src ! (4 * i + 1)"] byte [of "src ! (4 * i)"]
  have p: "-65280 \<le> ?p" "?p \<le> 16776960"
    using range unfolding pixel_diff_def Let_def left_diff_distrib by - linarith+
  have tab: "-65536 \<le> g_table256 ! t ! j \<and> g_table256 ! t ! j \<le> 65536" if "j < 4" for j
  proof -
    have "list_all (\<lambda>t. list_all (\<lambda>j. -65536 \<le> g_table256 ! t ! j \<and> g_table256 ! t ! j \<le> 65536) [0..<4]) [0..<8]"
      by code_simp
    then show ?thesis using that assms by (simp add: list_all_iff del: upt_Suc)
  qed
  let ?x = "g_table256 ! t ! 0 + ?p"
  have "\<bar>?x\<bar> \<le> 2 ^ 24 + 2 ^ 16" using p tab [of 0] by (simp add: abs_le_iff)
  then have "?x * ?x \<le> (2 ^ 24 + 2 ^ 16) * (2 ^ 24 + 2 ^ 16)"
    using mult_mono [of "\<bar>?x\<bar>" "2 ^ 24 + 2 ^ 16" "\<bar>?x\<bar>" "2 ^ 24 + 2 ^ 16"] by simp
  then have "sq ?x < 2 ^ 50" by (simp add: sq_def)
  with best_selector_least(2) [of 0 ?p t] show "snd (best_selector ?p t) < 2 ^ 50" by simp
qed

lemma fit_cost_bound:
  assumes "t < 8"
  shows "0 \<le> fit_cost a ids src m h t \<and> fit_cost a ids src m h t \<le> int m * 2 ^ 50"
proof (induction m)
  case (Suc m)
  with best_selector_bound [OF assms, of "a ! (ids ! m)" src m] show ?case
    by (auto simp: fit_cost_Suc algebra_simps)
qed (simp add: fit_cost_def half_pixels_def)

lemma table_minimises_cost:
  assumes "h < 2" "t < 8"
  shows "fit_cost a ids src 16 h (GetLeastError (fst (FindBestFit a ids src) ! h) 8) \<le> fit_cost a ids src 16 h t"
proof -
  let ?e = "fst (FindBestFit a ids src) ! h"
  let ?T = "GetLeastError ?e 8"
  have T: "?T < 8" by (rule GetLeastError_less) simp
  have u: "uint (?e ! t) = fit_cost a ids src 16 h t" if "t < 8" for t
    using fit_cost_bound [OF that, of a ids src 16 h] FindBestFit_terr [OF assms(1) that]
    by (simp add: take_bit_int_eq_self unsigned_of_int)
  have "?e ! ?T \<le> ?e ! t" by (rule GetLeastError_le [OF assms(2)])
  then show ?thesis using u [OF T] u [OF assms(2)] by (simp add: word_le_def)
qed

section \<open>Solid blocks\<close>

text \<open>The word of a solid block after the decoder's byte swap: the three colours with a zero
  difference, table 0, and the differential flag.\<close>

definition solid_word :: "u8 \<Rightarrow> u8 \<Rightarrow> u8 \<Rightarrow> u64" where
  "solid_word b g r = push_bit 8 (ucast (b AND 0xF8)) OR push_bit 16 (ucast (g AND 0xF8)) OR
     push_bit 24 (ucast (r AND 0xF8)) OR 2"

lemma Convert_CheckSolid:
  assumes "CheckSolid src \<noteq> 0"
  shows "ConvertByteOrder (CheckSolid src) = solid_word (src ! 0) (src ! 1) (src ! 2)"
proof -
  have "CheckSolid src = ucast (0x02000000 OR push_bit 16 (ucast (src ! 0 AND 0xF8) :: u32) OR
        push_bit 8 (ucast (src ! 1 AND 0xF8)) OR ucast (src ! 2 AND 0xF8))"
    using assms unfolding CheckSolid_def by argo
  then show ?thesis
    by (auto intro!: word64_eqI simp: upt_64 ConvertByteOrder_def solid_word_def bswap32_def bitwise)
qed

lemma solid_word_decodes:
  shows "select_mode (solid_word b g r) = ModeEtc1"
    and "etc1_bases (solid_word b g r) k =
      (ext5 (ucast (drop_bit 3 r)), ext5 (ucast (drop_bit 3 g)), ext5 (ucast (drop_bit 3 b)))"
    and "etc1_tcw (solid_word b g r) k = 0"
    and "etc1_idx (solid_word b g r) = 0"
proof -
  let ?W = "solid_word b g r"
  have two: "bit (2 :: u64) n \<longleftrightarrow> n = 1" for n
    using bit_2_iff [where 'a = u64, of n] by auto
  have mode: "?W AND 2 \<noteq> 0" by (simp add: and_two_is_bit solid_word_def bitwise two)
  have base: "base5 ?W = (ucast (drop_bit 3 r), ucast (drop_bit 3 g), ucast (drop_bit 3 b))"
    unfolding base5_def prod.inject solid_word_def
    by (intro conjI word32_eqI) (simp_all add: upt_32 bitwise two)
  have delta: "delta3 ?W = (0, 0, 0)"
    unfolding delta3_def prod.inject solid_word_def
    by (intro conjI word32_eqI) (simp_all add: upt_32 bitwise two)
  then have second: "second5 ?W = base5 ?W" by (simp add: second5_def base)
  have small: "\<not> outside31 (ucast (drop_bit 3 v))" for v :: u8
  proof -
    have "list_all (\<lambda>n. \<not> outside31 (of_nat n)) [0..<32]" by code_simp
    moreover have "unat (drop_bit 3 v) \<in> set [0..<32]"
      using unat_byte_le [of v] unfolding unsigned_drop_bit_eq
      by (simp add: drop_bit_eq_div take_bit_nat_eq_self)
    ultimately have "\<not> outside31 (of_nat (unat (drop_bit 3 v)))" unfolding list_all_iff by blast
    then show ?thesis by simp
  qed
  show "select_mode ?W = ModeEtc1"
    using mode by (simp add: select_mode_def second base small)
  show "etc1_bases ?W k =
      (ext5 (ucast (drop_bit 3 r)), ext5 (ucast (drop_bit 3 g)), ext5 (ucast (drop_bit 3 b)))"
    using mode by (simp add: etc1_bases_def second base)
  have "?W AND 0xE0 = 0" "?W AND 0x1C = 0"
    by (rule word64_eqI; simp add: upt_64 solid_word_def bitwise two)+
  then show "etc1_tcw ?W k = 0" by (simp add: etc1_tcw_def)
  have "\<not> bit ?W n" if "32 \<le> n" for n
    using that unfolding solid_word_def bit_or_iff bit_push_bit_iff bit_ucast_iff two by (auto dest!: bit_imp_le_length)
  then show "etc1_idx ?W = 0"
    by (intro word32_eqI) (simp add: upt_32 bit_etc1_idx)
qed

section \<open>The properties of the encoder\<close>

lemma ProcessRGB_word:
  assumes "CheckSolid src = 0"
  shows "\<exists>a err terr tsel. PrepareAverages src = (a, err) \<and> averages_ok a \<and>
    FindBestFit a (g_id ! GetLeastError err 4) src = (terr, tsel) \<and>
    ConvertByteOrder (ProcessRGB src) = etc1_word a (GetLeastError err 4) terr tsel (g_id ! GetLeastError err 4)"
proof -
  obtain a err where p: "PrepareAverages src = (a, err)" by force
  obtain terr tsel where f: "FindBestFit a (g_id ! GetLeastError err 4) src = (terr, tsel)" by force
  have "averages_ok a" using PrepareAverages_ok [of src] p by simp
  then show ?thesis using p f assms by (simp add: ProcessRGB_def etc1_word_def Let_def)
qed

text \<open>C27: Whatever the pixels of the block, the decoder takes the block written by the ETC1 encoder
  \<open>ProcessRGB\<close> for an ETC1 block: the differences of the base colours never overflow into
  the T, H or planar encodings of ETC2.\<close>

theorem etc1_blocks_stay_etc1: "select_mode (ConvertByteOrder (ProcessRGB src)) = ModeEtc1"
proof (cases "CheckSolid src = 0")
  case True
  from ProcessRGB_word [OF this] obtain a err terr tsel where
    p: "PrepareAverages src = (a, err)" and
    w: "averages_ok a" "FindBestFit a (g_id ! GetLeastError err 4) src = (terr, tsel)"
    "ConvertByteOrder (ProcessRGB src) = etc1_word a (GetLeastError err 4) terr tsel (g_id ! GetLeastError err 4)"
    by blast
  have "GetLeastError err 4 < 4" by (rule GetLeastError_less) simp
  with etc1_word_pixel(1) [OF w(1) this, of 0 0] w show ?thesis by simp
next
  case False
  then have "ProcessRGB src = CheckSolid src" by (simp add: ProcessRGB_def Let_def)
  with False show ?thesis by (simp add: Convert_CheckSolid solid_word_decodes)
qed

lemma etc1_mixed_roundtrip:
  assumes "CheckSolid src = 0" "i < 4" "j < 4"
  shows "etc_opaque (ProcessRGB src) i j = encoder_pixel (encoder_choice src i j) OR 0xFF000000"
proof -
  from ProcessRGB_word [OF assms(1)] obtain a err terr tsel where
    w: "PrepareAverages src = (a, err)" "averages_ok a" "FindBestFit a (g_id ! GetLeastError err 4) src = (terr, tsel)"
    "ConvertByteOrder (ProcessRGB src) = etc1_word a (GetLeastError err 4) terr tsel (g_id ! GetLeastError err 4)"
    by blast
  have "GetLeastError err 4 < 4" by (rule GetLeastError_less) simp
  from etc1_word_pixel [OF w(2) this assms(2,3) w(3)] show ?thesis
    using w(1,3) by (simp add: etc_opaque_def w(4) encoder_choice_def Let_def)
qed

lemma etc1_solid_roundtrip:
  assumes "CheckSolid src \<noteq> 0"
  shows "etc_opaque (ProcessRGB src) i j = pack_clamped (ext5 (ucast (drop_bit 3 (src ! 2))) + 2)
     (ext5 (ucast (drop_bit 3 (src ! 1))) + 2) (ext5 (ucast (drop_bit 3 (src ! 0))) + 2) OR 0xFF000000"
proof -
  have "ProcessRGB src = CheckSolid src" using assms by (simp add: ProcessRGB_def Let_def)
  moreover have "g_table ! 0 ! 0 = 2" by (simp add: g_table_def)
  ultimately show ?thesis
    by (simp add: etc_opaque_def Convert_CheckSolid [OF assms] solid_word_decodes etc1_image_def etc1_pixel_def)
qed

text \<open>\<open>CheckSolid\<close> compares all four bytes of the pixels.\<close>

definition solid :: "u8 list \<Rightarrow> bool" where
  "solid s \<longleftrightarrow> (\<forall>i < 16. take 4 (drop (4 * i) s) = take 4 s)"

lemma some_pixel_differs: "(\<exists>i \<in> set [1..<16]. take 4 (drop (4 * i) s) \<noteq> take 4 s) \<longleftrightarrow> \<not> solid s"
proof -
  have "(\<exists>i \<in> set [1..<16]. take 4 (drop (4 * i) s) \<noteq> take 4 s) \<longleftrightarrow> (\<exists>i \<in> {..<16}. take 4 (drop (4 * i) s) \<noteq> take 4 s)"
    by (auto simp del: upt_Suc upt_rec_numeral) (metis Suc_leI atLeastLessThan_iff drop0 less_Suc_eq_0_disj mult_0_right
        not_less_zero not_less_eq_eq One_nat_def gr0I)
  then show ?thesis by (auto simp: solid_def)
qed

lemma CheckSolid_solid: "CheckSolid s = 0 \<longleftrightarrow> \<not> solid s"
proof -
  have "bit (0x02000000 :: u32) 25" by code_simp
  then have b: "bit (ucast (0x02000000 OR v :: u32) :: u64) 25" for v by (simp add: bit_ucast_iff bit_or_iff)
  have "(ucast (0x02000000 OR v :: u32) :: u64) \<noteq> 0" for v
  proof
    assume z: "(ucast (0x02000000 OR v :: u32) :: u64) = 0"
    show False using b [of v] unfolding z by simp
  qed
  then have "(if \<not> solid s then 0 else ucast (0x02000000 OR v :: u32) :: u64) = 0 \<longleftrightarrow> \<not> solid s" for v by presburger
  then show ?thesis unfolding CheckSolid_def some_pixel_differs or.assoc .
qed

text \<open>C3: Round trip of any block.  A solid block, whose 16 pixels have the same four bytes, decodes at every pixel to its
  colour cut to five bits per channel, widened, plus the smallest modifier of the tables (2), clamped.  For any other
  block the decoder reconstructs, at every pixel, the colour the encoder settled on: the quantised average of the half
  the pixel lies in, changed by the modifier the encoder selected from the table it selected for the half, clamped.\<close>

theorem etc1_roundtrip:
  assumes "i < 4" "j < 4"
  shows "etc_opaque (ProcessRGB src) i j =
    (if \<forall>k < 16. take 4 (drop (4 * k) src) = take 4 src
     then pack_clamped (ext5 (ucast (drop_bit 3 (src ! 2))) + 2) (ext5 (ucast (drop_bit 3 (src ! 1))) + 2)
       (ext5 (ucast (drop_bit 3 (src ! 0))) + 2)
     else encoder_pixel (encoder_choice src i j)) OR 0xFF000000"
  using etc1_solid_roundtrip [of src] etc1_mixed_roundtrip [OF _ assms, of src]
  unfolding CheckSolid_solid solid_def [symmetric] by simp

text \<open>C22: The search is optimal: for either half, the table and the selectors that \<open>FindBestFit\<close> and
  \<open>GetLeastError\<close> pick have, summed over the pixels of the half, at most the weighted squared error of
  any table with any choice of selectors.\<close>

theorem etc1_search_optimal:
  assumes "h < 2" "t < 8" "\<forall>i < 16. s i < 4"
  shows "(\<Sum>i \<in> half_pixels ids h 16.
      sq (g_table256 ! GetLeastError (fst (FindBestFit a ids src) ! h) 8
           ! unat (snd (FindBestFit a ids src) ! i ! GetLeastError (fst (FindBestFit a ids src) ! h) 8)
         + pixel_diff (a ! (ids ! i)) src i))
    \<le> (\<Sum>i \<in> half_pixels ids h 16. sq (g_table256 ! t ! s i + pixel_diff (a ! (ids ! i)) src i))"
proof -
  let ?T = "GetLeastError (fst (FindBestFit a ids src) ! h) 8"
  have T: "?T < 8" by (rule GetLeastError_less) simp
  have "unat (snd (FindBestFit a ids src) ! i ! ?T) = fst (best_selector (pixel_diff (a ! (ids ! i)) src i) ?T)"
    if "i < 16" for i
    using best_selector_least(1) [of "pixel_diff (a ! (ids ! i)) src i" ?T]
    by (simp add: FindBestFit_tsel [OF that T] unsigned_of_nat take_bit_nat_eq_self)
  then have "(\<Sum>i \<in> half_pixels ids h 16. sq (g_table256 ! ?T ! unat (snd (FindBestFit a ids src) ! i ! ?T)
         + pixel_diff (a ! (ids ! i)) src i)) = fit_cost a ids src 16 h ?T"
    unfolding fit_cost_def by (intro sum.cong) (simp_all add: half_pixels_def best_selector_argmin(2))
  also have "\<dots> \<le> fit_cost a ids src 16 h t"
    by (rule table_minimises_cost [OF assms(1,2)])
  also have "\<dots> \<le> (\<Sum>i \<in> half_pixels ids h 16. sq (g_table256 ! t ! s i + pixel_diff (a ! (ids ! i)) src i))"
    unfolding fit_cost_def using assms(3) by (intro sum_mono best_selector_least(2)) (auto simp: half_pixels_def)
  finally show ?thesis .
qed


text \<open>Concrete blocks: a ramp, and a solid block.\<close>

definition ramp_block :: "u8 list" where
  "ramp_block = map of_nat [0..<64]"

definition grey_block :: "u8 list" where
  "grey_block = replicate 64 0x80"

lemma CheckSolid_examples: "CheckSolid ramp_block = 0" "CheckSolid grey_block \<noteq> 0"
  by code_simp+

theorem etc1_roundtrip_witness:
  "etc_opaque (ProcessRGB ramp_block) 2 1 = encoder_pixel (encoder_choice ramp_block 2 1) OR 0xFF000000 \<and>
   etc_opaque (ProcessRGB grey_block) 3 0 = 0xFF868686"
proof
  have "\<not> solid ramp_block" "solid grey_block"
    using CheckSolid_examples CheckSolid_solid [of ramp_block] CheckSolid_solid [of grey_block] by blast+
  note s = this [unfolded solid_def]
  show "etc_opaque (ProcessRGB ramp_block) 2 1 = encoder_pixel (encoder_choice ramp_block 2 1) OR 0xFF000000"
    using etc1_roundtrip [of 2 1 ramp_block] unfolding if_not_P [OF s(1)] by simp
  have g: "grey_block ! 0 = 0x80" "grey_block ! 1 = 0x80" "grey_block ! 2 = 0x80" by (simp_all add: grey_block_def)
  have "pack_clamped (ext5 (ucast (drop_bit 3 (0x80 :: u8))) + 2) (ext5 (ucast (drop_bit 3 (0x80 :: u8))) + 2)
      (ext5 (ucast (drop_bit 3 (0x80 :: u8))) + 2) OR 0xFF000000 = 0xFF868686" by code_simp
  then show "etc_opaque (ProcessRGB grey_block) 3 0 = 0xFF868686"
    using etc1_roundtrip [of 3 0 grey_block] unfolding if_P [OF s(2)] g by simp
qed

theorem etc1_search_optimal_witness:
  "(\<Sum>i \<in> half_pixels (g_id ! 0) 1 16.
      sq (g_table256 ! GetLeastError (fst (FindBestFit (replicate 8 [64, 64, 64]) (g_id ! 0) ramp_block) ! 1) 8
           ! unat (snd (FindBestFit (replicate 8 [64, 64, 64]) (g_id ! 0) ramp_block) ! i
               ! GetLeastError (fst (FindBestFit (replicate 8 [64, 64, 64]) (g_id ! 0) ramp_block) ! 1) 8)
         + pixel_diff (replicate 8 [64, 64, 64] ! (g_id ! 0 ! i)) ramp_block i))
    \<le> (\<Sum>i \<in> half_pixels (g_id ! 0) 1 16.
      sq (g_table256 ! 5 ! 2 + pixel_diff (replicate 8 [64, 64, 64] ! (g_id ! 0 ! i)) ramp_block i))"
  using etc1_search_optimal [of 1 5 "\<lambda>_. 2"] by simp

end
