(* ===== verification/Etc2Modes.thy ===== *)
theory Etc2Modes imports EtcDecode begin

text \<open>
  When a block is a T, H or planar block: the decoder's test on the sums of a five-bit base colour
  and a three-bit signed difference (\<open>DecodeRGBPart\<close> in \<open>src/BlockData.cpp\<close>), restated on
  the bits of the block.  The encoders choose the free bits of the block so that exactly one of
  the sums overflows; their proofs use the lemmas of this theory.
\<close>

section \<open>The fields as numbers\<close>

definition ext3 :: "nat \<Rightarrow> int" where
  "ext3 n = (if n < 4 then int n else int n - 8)"

definition overflows :: "nat \<Rightarrow> nat \<Rightarrow> bool" where
  "overflows base delta \<longleftrightarrow> (let s = int base + ext3 delta in s < 0 \<or> 31 < s)"

lemma ext3_word:
  assumes "n < 8"
  shows "signed_drop_bit 29 (push_bit 29 (of_nat n)) = (word_of_int (ext3 n) :: u32)"
proof -
  have "list_all (\<lambda>n. signed_drop_bit 29 (push_bit 29 (of_nat n)) = (word_of_int (ext3 n) :: u32)) [0..<8]"
    by code_simp
  then show ?thesis using assms by (rule upt_allD)
qed

lemma outside31_word:
  assumes "-4 \<le> s" "s \<le> 34"
  shows "outside31 (word_of_int s) \<longleftrightarrow> s < 0 \<or> 31 < s"
proof -
  have "list_all (\<lambda>s. outside31 (word_of_int s) \<longleftrightarrow> s < 0 \<or> 31 < s) [-4..34]"
    by code_simp
  then show ?thesis using assms by (rule upto_allD)
qed

lemma outside31_overflows:
  assumes "r < 32" "n < 8"
  shows "outside31 (of_nat r + signed_drop_bit 29 (push_bit 29 (of_nat n))) \<longleftrightarrow> overflows r n"
proof -
  have r: "-4 \<le> int r + ext3 n" "int r + ext3 n \<le> 34"
    using assms by (auto simp: ext3_def)
  have "of_nat r + signed_drop_bit 29 (push_bit 29 (of_nat n)) = (word_of_int (int r + ext3 n) :: u32)"
    by (simp add: ext3_word [OF assms(2)])
  then show ?thesis
    by (simp only: outside31_word [OF r] overflows_def Let_def)
qed

text \<open>The five-bit and three-bit fields at a position of the block.\<close>

definition field5 :: "u64 \<Rightarrow> nat \<Rightarrow> nat" where
  "field5 w p = of_bool (bit w p) + 2 * of_bool (bit w (p + 1)) + 4 * of_bool (bit w (p + 2)) +
     8 * of_bool (bit w (p + 3)) + 16 * of_bool (bit w (p + 4))"

definition field3 :: "u64 \<Rightarrow> nat \<Rightarrow> nat" where
  "field3 w p = of_bool (bit w p) + 2 * of_bool (bit w (p + 1)) + 4 * of_bool (bit w (p + 2))"

lemma field5_less: "field5 w p < 32"
  by (simp add: field5_def of_bool_def)

lemma field3_less: "field3 w p < 8"
  by (simp add: field3_def of_bool_def)

lemma field5_bits:
  "bit (of_nat (field5 w p) :: u32) n \<longleftrightarrow> n < 5 \<and> bit w (p + n)"
proof -
  define a b c d e where "a = bit w p" and "b = bit w (p + 1)" and "c = bit w (p + 2)"
    and "d = bit w (p + 3)" and "e = bit w (p + 4)"
  have "(of_nat (field5 w p) :: u32) = horner_sum of_bool 2 [a, b, c, d, e]"
    by (simp add: field5_def a_def b_def c_def d_def e_def)
  then have "bit (of_nat (field5 w p) :: u32) n \<longleftrightarrow> bit (horner_sum of_bool 2 [a, b, c, d, e] :: u32) n"
    by simp
  also have "\<dots> \<longleftrightarrow> n < 5 \<and> [a, b, c, d, e] ! n"
    by (subst bit_horner_sum_bit_word_iff) auto
  also have "\<dots> \<longleftrightarrow> n < 5 \<and> bit w (p + n)"
    by (auto simp: a_def b_def c_def d_def e_def less_Suc_eq numeral_eq_Suc)
  finally show ?thesis .
qed

lemma field3_bits:
  "bit (of_nat (field3 w p) :: u32) n \<longleftrightarrow> n < 3 \<and> bit w (p + n)"
proof -
  define a b c where "a = bit w p" and "b = bit w (p + 1)" and "c = bit w (p + 2)"
  have "(of_nat (field3 w p) :: u32) = horner_sum of_bool 2 [a, b, c]"
    by (simp add: field3_def a_def b_def c_def)
  then have "bit (of_nat (field3 w p) :: u32) n \<longleftrightarrow> bit (horner_sum of_bool 2 [a, b, c] :: u32) n"
    by simp
  also have "\<dots> \<longleftrightarrow> n < 3 \<and> [a, b, c] ! n"
    by (subst bit_horner_sum_bit_word_iff) auto
  also have "\<dots> \<longleftrightarrow> n < 3 \<and> bit w (p + n)"
    by (auto simp: a_def b_def c_def less_Suc_eq numeral_eq_Suc)
  finally show ?thesis .
qed

lemma base5_fields: "base5 d = (of_nat (field5 d 27), of_nat (field5 d 19), of_nat (field5 d 11))"
  unfolding base5_def prod.inject
  by (intro conjI word32_eqI; simp only: upt_32 list.pred_inject field5_bits; simp add: bitwise)

lemma delta3_fields:
  "delta3 d = (signed_drop_bit 29 (push_bit 29 (of_nat (field3 d 24))),
     signed_drop_bit 29 (push_bit 29 (of_nat (field3 d 16))), signed_drop_bit 29 (push_bit 29 (of_nat (field3 d 8))))"
proof -
  have *: "signed_drop_bit 29 x = (signed_drop_bit 29 y :: u32)"
    if "bit x 29 = bit y 29" "bit x 30 = bit y 30" "bit x 31 = bit y 31" for x y
    using that by (intro word32_eqI) (simp add: upt_32 bitwise)
  show ?thesis
    unfolding delta3_def prod.inject
    by (intro conjI *) (simp_all add: bit_push_bit_iff field3_bits bit_ucast_iff)
qed

text \<open>The mode of a block, on its fields.\<close>

lemma select_mode_fields:
  "select_mode d = (if bit d 1 then
       if overflows (field5 d 27) (field3 d 24) then ModeT
       else if overflows (field5 d 19) (field3 d 16) then ModeH
       else if overflows (field5 d 11) (field3 d 8) then ModeP
       else ModeEtc1
     else ModeEtc1)"
proof -
  have two: "(d AND 2 \<noteq> 0) \<longleftrightarrow> bit d 1" by (simp add: and_two_is_bit)
  show ?thesis
    unfolding select_mode_def two second5_def base5_fields delta3_fields prod.case
    by (simp only: outside31_overflows field5_less field3_less)
qed

end
