(* ===== verification/Etc2TH.thy ===== *)
theory Etc2TH imports Etc2Modes begin

text \<open>
  The T and H modes of the ETC2 encoder in \<open>src/ProcessRGB.cpp\<close> (the scalar path): the sort of
  the pixels by luma, the choice of the two base colours, the search over the distances, and the
  packing of the block (\<open>compressBlockTH\<close>, \<open>stuff59bits\<close>, \<open>stuff58bits\<close>).  A colour is a
  triple (red, green, blue); the source's arrays \<open>[2][3]\<close> are pairs of colours.
\<close>

type_synonym colour = "u8 \<times> u8 \<times> u8"

definition map_colour :: "(u8 \<Rightarrow> u8) \<Rightarrow> colour \<Rightarrow> colour" where
  "map_colour f c = (case c of (r, g, b) \<Rightarrow> (f r, f g, f b))"

definition MaxError :: u32 where
  "MaxError = 1065369600"

definition tableTH :: "u8 list" where
  "tableTH = [3, 6, 11, 16, 23, 32, 41, 64]"

section \<open>Small helpers\<close>

definition clamp :: "u8 \<Rightarrow> int \<Rightarrow> u8 \<Rightarrow> u8" where
  "clamp mn val mx = (if val < uint mn then mn else if val > uint mx then mx else word_of_int val)"

definition clampMin :: "u8 \<Rightarrow> int \<Rightarrow> u8" where
  "clampMin mn val = (if val < uint mn then mn else word_of_int val)"

definition clampMax :: "int \<Rightarrow> u8 \<Rightarrow> u8" where
  "clampMax val mx = (if val > uint mx then mx else word_of_int val)"

text \<open>The inner loop of the sort: the hole moves down while the value is smaller.\<close>

fun hole_loop :: "u8 \<Rightarrow> nat \<Rightarrow> u8 list \<Rightarrow> u8 list \<Rightarrow> nat \<times> u8 list \<times> u8 list" where
  "hole_loop v 0 arr1 arr2 = (0, arr1, arr2)"
| "hole_loop v (Suc h) arr1 arr2 =
     (if v < arr1 ! h then hole_loop v h (arr1[Suc h := arr1 ! h]) (arr2[Suc h := arr2 ! h])
      else (Suc h, arr1, arr2))"

definition sort_step :: "nat \<Rightarrow> u8 list \<times> u8 list \<Rightarrow> u8 list \<times> u8 list" where
  "sort_step i st = (case st of (arr1, arr2) \<Rightarrow> let v = arr1 ! i in
     case hole_loop v i arr1 arr2 of (hole, arr1, arr2) \<Rightarrow> (arr1[hole := v], arr2[hole := of_nat i]))"

definition insertionSort :: "u8 list \<Rightarrow> u8 list \<Rightarrow> u8 list \<times> u8 list" where
  "insertionSort arr1 arr2 = fold sort_step [1..<16] (arr1, arr2)"

text \<open>The arrays \<open>LSB[x][y]\<close> and \<open>MSB[x][y]\<close> are flat lists indexed by \<open>4 * x + y\<close>.\<close>

definition index_planes :: "u32 \<Rightarrow> u32 list \<times> u32 list" where
  "index_planes pixelIndices = (let
     (LSB, MSB, _) = fold (\<lambda>y st. fold (\<lambda>x (LSB, MSB, shift).
         (LSB[4 * x + y := drop_bit shift pixelIndices AND 1],
          MSB[4 * x + y := drop_bit (shift + 1) pixelIndices AND 1], shift + 2)) [3, 2, 1, 0] st)
       [3, 2, 1, 0] (replicate 16 0, replicate 16 0, 0)
   in (LSB, MSB))"

definition join_planes :: "u32 list \<Rightarrow> u32 list \<Rightarrow> u32" where
  "join_planes LSB MSB = fst (fold (\<lambda>x st. fold (\<lambda>y (c, shift).
         ((c OR push_bit shift (LSB ! (4 * x + y))) OR push_bit (16 + shift) (MSB ! (4 * x + y)), shift + 1))
         [0, 1, 2, 3] st)
       [0, 1, 2, 3] (0 :: u32, 0 :: nat))"

definition indexConversion :: "u32 \<Rightarrow> u32" where
  "indexConversion pixelIndices = (case index_planes pixelIndices of (LSB, MSB) \<Rightarrow> join_planes LSB MSB)"

definition swapColors :: "colour \<times> colour \<Rightarrow> colour \<times> colour" where
  "swapColors colors = (snd colors, fst colors)"

section \<open>Quantised and paint colours\<close>

definition quant444 :: "u8 \<Rightarrow> int" where
  "quant444 c = 15 * (uint c + 8) div 255"

definition compressColor :: "colour \<times> colour \<Rightarrow> bool \<Rightarrow> colour \<times> colour" where
  "compressColor currColor t_mode =
     (map_colour (\<lambda>c. if t_mode then clampMax (quant444 c) 15 else clamp 1 (quant444 c) 14) (fst currColor),
      map_colour (\<lambda>c. clamp 1 (quant444 c) 14) (snd currColor))"

definition decompressColor :: "colour \<times> colour \<Rightarrow> colour \<times> colour" where
  "decompressColor colorsRGB444 = (let w = map_colour (\<lambda>c. push_bit 4 c OR c) in
     (w (fst colorsRGB444), w (snd colorsRGB444)))"

definition darker :: "nat \<Rightarrow> colour \<Rightarrow> colour" where
  "darker d = map_colour (\<lambda>c. clampMin 0 (uint c - uint (tableTH ! d)))"

definition lighter :: "nat \<Rightarrow> colour \<Rightarrow> colour" where
  "lighter d = map_colour (\<lambda>c. clampMax (uint c + uint (tableTH ! d)) 255)"

definition calculatePaintColors59T :: "nat \<Rightarrow> colour \<times> colour \<Rightarrow> colour list" where
  "calculatePaintColors59T d colors =
     [fst colors, lighter d (snd colors), snd colors, darker d (snd colors)]"

definition calculatePaintColors58H :: "nat \<Rightarrow> colour \<times> colour \<Rightarrow> colour list" where
  "calculatePaintColors58H d colors =
     [lighter d (fst colors), darker d (fst colors), lighter d (snd colors), darker d (snd colors)]"

section \<open>The search over distances\<close>

definition src_pixel :: "u8 list \<Rightarrow> nat \<Rightarrow> colour" where
  "src_pixel src n = (src ! (4 * n + 2), src ! (4 * n + 1), src ! (4 * n))"

definition colour_err :: "colour \<Rightarrow> colour \<Rightarrow> u32" where
  "colour_err p c = (case p of (pr, pg, pb) \<Rightarrow> case c of (cr, cg, cb) \<Rightarrow> word_of_int
     (38 * \<bar>uint pr - uint cr\<bar> + 76 * \<bar>uint pg - uint cg\<bar> + 14 * \<bar>uint pb - uint cb\<bar>))"

text \<open>The inner loop: the best of the four paint colours for one pixel; the two low bits of
  \<open>pixColors\<close> are replaced whenever a better colour is found.\<close>

definition best_paint :: "colour \<Rightarrow> colour list \<Rightarrow> u32 \<Rightarrow> u32 \<times> u32" where
  "best_paint p paints pixColors = fold (\<lambda>c (bestPixErr, pixColors). let
       err = colour_err p (paints ! c);
       pixErr = err * err
     in if pixErr < bestPixErr
        then (pixErr, (pixColors XOR (pixColors AND 3)) OR of_nat c)
        else (bestPixErr, pixColors)) [0..<4] (MaxError, pixColors)"

definition block_paint :: "u8 list \<Rightarrow> colour list \<Rightarrow> u32 \<times> u32" where
  "block_paint src paints = fold (\<lambda>y st. fold (\<lambda>x (blockErr, pixColors). let
       (bestPixErr, pixColors) = best_paint (src_pixel src (x * 4 + y)) paints (push_bit 2 pixColors)
     in (blockErr + bestPixErr, pixColors)) [0..<4] st) [0..<4] (0, 0)"

text \<open>The loop over the distances, with its early exit; \<open>dist\<close> and \<open>pix\<close> are the reference
  parameters of the source.\<close>

fun dist_loop :: "(nat \<Rightarrow> u32 \<times> u32) \<Rightarrow> nat list \<Rightarrow> u32 \<times> nat \<times> u32 \<Rightarrow> u32 \<times> nat \<times> u32" where
  "dist_loop eval [] st = st"
| "dist_loop eval (d # ds) (best, dist, pix) =
     (if 2 \<le> d \<and> dist = d - 2 then (best, dist, pix)
      else case eval d of (blockErr, pixColors) \<Rightarrow>
        if blockErr < best then dist_loop eval ds (blockErr, d, pixColors)
        else dist_loop eval ds (best, dist, pix))"

definition calculateErrorTH :: "bool \<Rightarrow> u8 list \<Rightarrow> colour \<times> colour \<Rightarrow> nat \<Rightarrow> u32 \<Rightarrow> nat \<Rightarrow> u32 \<times> nat \<times> u32" where
  "calculateErrorTH tMode src colorsRGB444 dist pixIndices startDist = (let
     colors = decompressColor colorsRGB444
   in dist_loop (\<lambda>d. block_paint src
        (if tMode then calculatePaintColors59T d colors else calculatePaintColors58H d colors))
      [startDist..<8] (MaxError, dist, pixIndices))"

section \<open>The block compressor\<close>

text \<open>Step 2: the split of the sorted lumas with the least sum of the two ranges.\<close>

definition diffBonus :: "u16 list" where
  "diffBonus = [8, 4, 2, 0, 0, 0, 0, 0, 0, 0, 0, 0, 2, 4, 8]"

definition minSumRangeIdx :: "u8 list \<Rightarrow> nat" where
  "minSumRangeIdx luma = (let
     l = \<lambda>i. ucast (luma ! i) :: u16;
     temp = l 15 - l 0;
     (idx, v) = fold (\<lambda>i (idx, v). let sum = temp - l (i + 1) + l i + diffBonus ! i in
         if v > sum then (i, sum) else (idx, v)) [1..<14] (0, l 15 - l 1 + diffBonus ! 0);
     sum = l 14 - l 0 + diffBonus ! 14
   in if v > sum then 14 else idx)"

text \<open>Step 3: the mode, from the ranges of luma on the two sides of the split: \<open>(tMode, swap)\<close>.\<close>

definition th_mode :: "u8 list \<Rightarrow> nat \<Rightarrow> bool \<times> bool" where
  "th_mode luma idx = (let
     lRange = unat (luma ! idx - luma ! 0);
     rRange = unat (luma ! 15 - luma ! (idx + 1))
   in if lRange \<ge> rRange then if lRange \<ge> rRange * 2 then (True, True) else (False, False)
      else if lRange * 2 \<le> rRange then (True, False) else (False, False))"

definition avg2 :: "u8 \<Rightarrow> u8 \<Rightarrow> u8" where
  "avg2 x y = word_of_int ((uint x + uint y) div 2)"

definition mid_colour :: "colour \<Rightarrow> colour \<Rightarrow> colour" where
  "mid_colour p q = (case p of (pr, pg, pb) \<Rightarrow> case q of (qr, qg, qb) \<Rightarrow> (avg2 pr qr, avg2 pg qg, avg2 pb qb))"

text \<open>The average of the pixels above the split: 16-bit sums over \<open>15 - idx\<close> pixels.\<close>

definition mean_above :: "u8 list \<Rightarrow> u8 list \<Rightarrow> nat \<Rightarrow> colour" where
  "mean_above src pixIdx idx = (let
     sum = \<lambda>c. fold (\<lambda>i s. s + ucast (src ! (4 * unat (pixIdx ! i) + c))) [idx + 1..<16] (0 :: u16);
     n = of_nat (15 - idx)
   in (ucast (sum 2 div n), ucast (sum 1 div n), ucast (sum 0 div n)))"

text \<open>Step 4: the two base colours.  \<open>q\<close> are the pixels at the ends of the two ranges.\<close>

definition base_colours :: "u8 list \<Rightarrow> u8 list \<Rightarrow> nat \<Rightarrow> bool \<times> bool \<Rightarrow> colour \<times> colour" where
  "base_colours src pixIdx idx mode = (case mode of (tMode, swap) \<Rightarrow> let
     q = \<lambda>i. src_pixel src (unat (pixIdx ! i))
   in if swap then (mean_above src pixIdx idx, mid_colour (q 0) (q idx))
      else (mid_colour (q 0) (q idx),
            if tMode then mean_above src pixIdx idx else mid_colour (q (idx + 1)) (q 15)))"

text \<open>Step 5: the first distance to try.\<close>

definition colour_sum :: "colour \<Rightarrow> int" where
  "colour_sum c = (case c of (r, g, b) \<Rightarrow> uint b + uint g + uint r)"

definition startDistCandidate :: "u8 list \<Rightarrow> u8 list \<Rightarrow> nat \<Rightarrow> bool \<times> bool \<Rightarrow> nat" where
  "startDistCandidate src pixIdx idx mode = (case mode of (tMode, swap) \<Rightarrow> let
     s = \<lambda>i. colour_sum (src_pixel src (unat (pixIdx ! i)));
     avgDist = word_of_int (
       if tMode then
         if swap then tdiv (s idx - s 0) 6 else tdiv (s 15 - s (idx + 1)) 6
       else tdiv (s idx - s 0 + s 15 - s (idx + 1)) 12) :: u32
   in if avgDist \<le> 16 then 0 else if avgDist \<le> 23 then 1 else if avgDist \<le> 32 then 2
      else if avgDist \<le> 41 then 3 else 4)"

text \<open>Step 7: the parameters of the block, before the bits are stuffed.\<close>

definition pack444 :: "colour \<Rightarrow> int" where
  "pack444 c = (case c of (r, g, b) \<Rightarrow> push_bit 8 (uint r) + push_bit 4 (uint g) + uint b)"

definition packT :: "colour \<times> colour \<Rightarrow> nat \<Rightarrow> u32" where
  "packT cs dist = (case cs of ((r0, g0, b0), (r1, g1, b1)) \<Rightarrow>
     push_bit 23 (ucast (r0 AND 0xF)) OR push_bit 19 (ucast (g0 AND 0xF)) OR
     push_bit 15 (ucast b0) OR push_bit 11 (ucast r1) OR push_bit 7 (ucast g1) OR
     push_bit 3 (ucast b1) OR (of_nat dist AND 0x7))"

definition packH :: "colour \<times> colour \<Rightarrow> nat \<Rightarrow> u32" where
  "packH cs dist = (case cs of ((r0, g0, b0), (r1, g1, b1)) \<Rightarrow>
     push_bit 22 (ucast (r0 AND 0xF)) OR push_bit 18 (ucast (g0 AND 0xF)) OR
     push_bit 14 (ucast (b0 AND 0xF)) OR push_bit 10 (ucast (r1 AND 0xF)) OR
     push_bit 6 (ucast (g1 AND 0xF)) OR push_bit 2 (ucast (b1 AND 0xF)) OR
     (drop_bit 1 (of_nat dist) AND 0x3))"

definition swap_needed :: "colour \<times> colour \<Rightarrow> nat \<Rightarrow> bool" where
  "swap_needed cs dist \<longleftrightarrow> (pack444 (fst cs) \<ge> pack444 (snd cs)) \<noteq> (dist AND 1 = 1)"

definition packTH :: "bool \<Rightarrow> colour \<times> colour \<Rightarrow> nat \<Rightarrow> u32 \<Rightarrow> u32 \<times> u32" where
  "packTH tMode cs dist pix = (let
     (compressed1, pix) =
       (if tMode then (packT cs dist, pix)
        else if swap_needed cs dist
          then (packH (swapColors cs) dist, (0x55555555 AND pix) OR (0xAAAAAAAA AND NOT pix))
          else (packH cs dist, pix));
     pix = indexConversion pix
   in (compressed1, pix AND (push_bit 31 2 - 1)))"

text \<open>\<open>(error, compressed1, compressed2, tMode)\<close>; \<open>pix0\<close> stands for the uninitialised
  \<open>bestPixIndices\<close>, which only survives when no distance beats \<open>MaxError\<close>.\<close>

definition compressBlockTH :: "u8 list \<Rightarrow> u8 list \<Rightarrow> u32 \<Rightarrow> u32 \<times> u32 \<times> u32 \<times> bool" where
  "compressBlockTH src luma pix0 = (let
     (luma, pixIdx) = insertionSort luma (map of_nat [0..<16]);
     idx = minSumRangeIdx luma;
     mode = th_mode luma idx;
     cs = compressColor (base_colours src pixIdx idx mode) (fst mode);
     (bestErr, bestDist, bestPixIndices) =
       calculateErrorTH (fst mode) src cs 10 pix0 (startDistCandidate src pixIdx idx mode);
     (compressed1, compressed2) = packTH (fst mode) cs bestDist bestPixIndices
   in (bestErr, compressed1, compressed2, fst mode))"

section \<open>Stuffing the bits\<close>

text \<open>The free bits of the block are set so that the wanted sum overflows; \<open>padding\<close> is the
  expression \<open>(a & c) | (!a & b & c & d) | (a & b & !c & d)\<close>.\<close>

definition padding :: "u32 \<Rightarrow> u32 \<Rightarrow> u32 \<Rightarrow> u32 \<Rightarrow> u32" where
  "padding a b c d = (let n = \<lambda>x :: u32. if x = 0 then 1 else 0 in
     (a AND c) OR (n a AND b AND c AND d) OR (a AND b AND n c AND d))"

definition move59 :: "u32 \<Rightarrow> u32" where
  "move59 thumbT59W1 = (let
     R0a = drop_bit 25 thumbT59W1 AND 0x3;
     w = push_bit 1 thumbT59W1;
     w = (w AND NOT (push_bit 27 0x3)) OR push_bit 27 (R0a AND 0x3)
   in (w AND NOT 0x1) OR (thumbT59W1 AND 0x1))"

definition force_red :: "u32 \<Rightarrow> u32" where
  "force_red w = (let
     bt = padding (drop_bit 28 w AND 0x1) (drop_bit 27 w AND 0x1) (drop_bit 25 w AND 0x1) (drop_bit 24 w AND 0x1);
     bits = 0xF * bt;
     w = (w AND NOT (push_bit 29 0x7)) OR push_bit 29 (bits AND 0x7)
   in (w AND NOT (push_bit 26 0x1)) OR push_bit 26 ((if bt = 0 then 1 else 0) AND 0x1))"

definition stuff59bits :: "u32 \<Rightarrow> u32" where
  "stuff59bits thumbT59W1 = (force_red (move59 thumbT59W1) AND NOT 0x2) OR 0x2"

definition move58 :: "u32 \<Rightarrow> u32" where
  "move58 thumbH58W1 = (let
     part0 = drop_bit 19 thumbH58W1 AND 0x7F;
     part1 = drop_bit 17 thumbH58W1 AND 0x3;
     part2 = drop_bit 1 thumbH58W1 AND 0xFFFF;
     part3 = thumbH58W1 AND 0x1;
     w = 0;
     w = (w AND NOT (push_bit 24 0x7F)) OR push_bit 24 (part0 AND 0x7F);
     w = (w AND NOT (push_bit 19 0x3)) OR push_bit 19 (part1 AND 0x3);
     w = (w AND NOT (push_bit 2 0xFFFF)) OR push_bit 2 (part2 AND 0xFFFF)
   in (w AND NOT 0x1) OR (part3 AND 0x1))"

definition keep_red :: "u32 \<Rightarrow> u32" where
  "keep_red w = (let bt = drop_bit 30 w AND 0x1
   in (w AND NOT (push_bit 31 0x1)) OR push_bit 31 ((if bt = 0 then 1 else 0) AND 0x1))"

definition force_green :: "u32 \<Rightarrow> u32" where
  "force_green w = (let
     bt = padding (drop_bit 20 w AND 0x1) (drop_bit 19 w AND 0x1) (drop_bit 17 w AND 0x1) (drop_bit 16 w AND 0x1);
     bits = 0xF * bt;
     w = (w AND NOT (push_bit 21 0x7)) OR push_bit 21 (bits AND 0x7)
   in (w AND NOT (push_bit 18 0x1)) OR push_bit 18 ((if bt = 0 then 1 else 0) AND 0x1))"

definition stuff58bits :: "u32 \<Rightarrow> u32" where
  "stuff58bits thumbH58W1 = (force_green (keep_red (move58 thumbH58W1)) AND NOT 0x2) OR 0x2"

text \<open>The block as it is written: both words in big-endian order.\<close>

definition th_block :: "bool \<Rightarrow> u32 \<Rightarrow> u32 \<Rightarrow> u64" where
  "th_block tMode compressed1 compressed2 =
     ucast (bswap32 (if tMode then stuff59bits compressed1 else stuff58bits compressed1)) OR
     push_bit 32 (ucast (bswap32 compressed2))"

section \<open>The bits of a stuffed block\<close>

definition pads :: "bool \<Rightarrow> bool \<Rightarrow> bool \<Rightarrow> bool \<Rightarrow> bool" where
  "pads a b c d \<longleftrightarrow> a \<and> c \<or> \<not> a \<and> b \<and> c \<and> d \<or> a \<and> b \<and> \<not> c \<and> d"

lemma padding_bool:
  "padding (of_bool a) (of_bool b) (of_bool c) (of_bool d) = of_bool (pads a b c d)"
  by (cases a; cases b; cases c; cases d) (simp_all add: padding_def pads_def)

lemma and_one_of_bool: "drop_bit k w AND 1 = (of_bool (bit w k) :: u32)"
  by (simp add: bitwise)

lemma padding_bits:
  "padding (drop_bit i w AND 1) (drop_bit j w AND 1) (drop_bit k w AND 1) (drop_bit l w AND 1) =
     of_bool (pads (bit w i) (bit w j) (bit w k) (bit w l))"
  unfolding and_one_of_bool by (rule padding_bool)

lemma of_bool_facts:
  "(if (of_bool P :: u32) = 0 then 1 else 0) = (of_bool (\<not> P) :: u32)" "0xF * (of_bool P :: u32) = (if P then 0xF else 0)"
  by auto

lemma bit_move59:
  "n < 32 \<Longrightarrow> bit (move59 x) n \<longleftrightarrow>
     bit x (if n = 0 then 0 else if n = 27 then 25 else if n = 28 then 26 else n - 1)"
proof -
  have "\<forall>n < 32. bit (move59 x) n \<longleftrightarrow>
     bit x (if n = 0 then 0 else if n = 27 then 25 else if n = 28 then 26 else n - 1)"
    unfolding each_bit by (simp add: move59_def Let_def bitwise)
  then show "n < 32 \<Longrightarrow> ?thesis" by blast
qed

lemma bit_force_red:
  "n < 32 \<Longrightarrow> bit (force_red w) n \<longleftrightarrow> (let p = pads (bit w 28) (bit w 27) (bit w 25) (bit w 24) in
     if 29 \<le> n then p else if n = 26 then \<not> p else bit w n)"
proof -
  have "\<forall>n < 32. bit (force_red w) n \<longleftrightarrow> (let p = pads (bit w 28) (bit w 27) (bit w 25) (bit w 24) in
     if 29 \<le> n then p else if n = 26 then \<not> p else bit w n)"
    unfolding each_bit force_red_def padding_bits of_bool_facts Let_def
    by (cases "pads (bit w 28) (bit w 27) (bit w 25) (bit w 24)") (simp_all add: bitwise)
  then show "n < 32 \<Longrightarrow> ?thesis" by blast
qed

lemma bit_move58:
  "n < 32 \<Longrightarrow> bit (move58 x) n \<longleftrightarrow>
     (if n = 0 then bit x 0 else if 2 \<le> n \<and> n < 18 then bit x (n - 1)
      else if 19 \<le> n \<and> n < 21 then bit x (n - 2) else if 24 \<le> n \<and> n < 31 then bit x (n - 5) else False)"
proof -
  have "\<forall>n < 32. bit (move58 x) n \<longleftrightarrow>
     (if n = 0 then bit x 0 else if 2 \<le> n \<and> n < 18 then bit x (n - 1)
      else if 19 \<le> n \<and> n < 21 then bit x (n - 2) else if 24 \<le> n \<and> n < 31 then bit x (n - 5) else False)"
    unfolding each_bit by (simp add: move58_def Let_def bitwise)
  then show "n < 32 \<Longrightarrow> ?thesis" by blast
qed

lemma bit_keep_red:
  "n < 32 \<Longrightarrow> bit (keep_red w) n \<longleftrightarrow> (if n = 31 then \<not> bit w 30 else bit w n)"
proof -
  have "\<forall>n < 32. bit (keep_red w) n \<longleftrightarrow> (if n = 31 then \<not> bit w 30 else bit w n)"
    unfolding each_bit keep_red_def and_one_of_bool of_bool_facts Let_def
    by (cases "bit w 30") (simp_all add: bitwise)
  then show "n < 32 \<Longrightarrow> ?thesis" by blast
qed

lemma bit_force_green:
  "n < 32 \<Longrightarrow> bit (force_green w) n \<longleftrightarrow> (let p = pads (bit w 20) (bit w 19) (bit w 17) (bit w 16) in
     if 21 \<le> n \<and> n < 24 then p else if n = 18 then \<not> p else bit w n)"
proof -
  have "\<forall>n < 32. bit (force_green w) n \<longleftrightarrow> (let p = pads (bit w 20) (bit w 19) (bit w 17) (bit w 16) in
     if 21 \<le> n \<and> n < 24 then p else if n = 18 then \<not> p else bit w n)"
    unfolding each_bit force_green_def padding_bits of_bool_facts Let_def
    by (cases "pads (bit w 20) (bit w 19) (bit w 17) (bit w 16)") (simp_all add: bitwise)
  then show "n < 32 \<Longrightarrow> ?thesis" by blast
qed

lemma bit_set_diff: "n < 32 \<Longrightarrow> bit ((w AND NOT 2) OR 2 :: u32) n \<longleftrightarrow> n = 1 \<or> bit w n"
proof -
  have "\<forall>n < 32. bit ((w AND NOT 2) OR 2 :: u32) n \<longleftrightarrow> n = 1 \<or> bit w n"
    unfolding each_bit by (simp add: bitwise)
  then show "n < 32 \<Longrightarrow> ?thesis" by blast
qed

lemma bit_stuff59:
  "n < 32 \<Longrightarrow> bit (stuff59bits x) n \<longleftrightarrow> n = 1 \<or> bit (force_red (move59 x)) n"
  by (simp only: stuff59bits_def bit_set_diff)

lemma bit_stuff58:
  "n < 32 \<Longrightarrow> bit (stuff58bits x) n \<longleftrightarrow> n = 1 \<or> bit (force_green (keep_red (move58 x))) n"
  by (simp only: stuff58bits_def bit_set_diff)

text \<open>The block after the decoder's byte swap.\<close>

definition th_word :: "u32 \<Rightarrow> u32 \<Rightarrow> u64" where
  "th_word w c2 = ucast w OR push_bit 32 (ucast c2)"

lemma Convert_th_block:
  "ConvertByteOrder (th_block tMode c1 c2) = th_word (if tMode then stuff59bits c1 else stuff58bits c1) c2"
proof -
  have "ConvertByteOrder (ucast (bswap32 w) OR push_bit 32 (ucast (bswap32 c2))) = th_word w c2" for w
  proof -
    have "(ucast (ucast (bswap32 w) OR push_bit 32 (ucast (bswap32 c2)) :: u64) :: u32) = bswap32 w"
      by (rule word32_eqI) (simp add: upt_32 bitwise)
    moreover have "(ucast (drop_bit 32 (ucast (bswap32 w) OR push_bit 32 (ucast (bswap32 c2)) :: u64)) :: u32) = bswap32 c2"
      by (rule word32_eqI) (simp add: upt_32 bitwise)
    ultimately show ?thesis by (simp add: ConvertByteOrder_def th_word_def or.commute)
  qed
  then show ?thesis by (simp add: th_block_def)
qed

lemma bit_th_word:
  "n < 32 \<Longrightarrow> bit (th_word w c2) n \<longleftrightarrow> bit w n"
  "32 \<le> n \<Longrightarrow> bit (th_word w c2) n \<longleftrightarrow> bit c2 (n - 32)"
  using bit_imp_le_length [of w n] bit_imp_le_length [of c2 "n - 32"]
  by (auto simp: th_word_def bit_or_iff bit_push_bit_iff bit_ucast_iff)

text \<open>A padded sum leaves the range, whatever the four significant bits.\<close>

lemma padded_overflows:
  assumes "pads (bit w (p + 1)) (bit w p) (bit w (q + 1)) (bit w q) = P"
    and "bit w (p + 2) = P" "bit w (p + 3) = P" "bit w (p + 4) = P" "bit w (q + 2) = (\<not> P)"
  shows "overflows (field5 w p) (field3 w q)"
  unfolding field5_def field3_def assms(2-5) assms(1) [symmetric]
  by (cases "bit w (p + 1)"; cases "bit w p"; cases "bit w (q + 1)"; cases "bit w q")
    (simp_all only: overflows_def pads_def ext3_def Let_def of_bool_eq simp_thms, simp_all)

lemma opposite_bits_stay:
  assumes "bit w (p + 4) = (\<not> bit w (p + 3))"
  shows "\<not> overflows (field5 w p) (field3 w q)"
proof -
  have "ext3 (field3 w q) \<in> {-4..3}" using field3_less [of w q] by (auto simp: ext3_def)
  moreover have "field5 w p \<in> {8..23}"
    unfolding field5_def assms by (cases "bit w (p + 3)") (simp_all add: of_bool_def)
  ultimately show ?thesis by (auto simp: overflows_def Let_def)
qed

lemma th_word_T: "select_mode (th_word (stuff59bits x) c2) = ModeT"
proof -
  let ?W = "th_word (stuff59bits x) c2"
  have "overflows (field5 ?W 27) (field3 ?W 24)"
    by (rule padded_overflows [OF refl]) (simp_all add: bit_th_word bit_stuff59 bit_force_red Let_def)
  moreover have "bit ?W 1" by (simp add: bit_th_word bit_stuff59)
  ultimately show ?thesis by (simp add: select_mode_fields)
qed

lemma th_word_H: "select_mode (th_word (stuff58bits x) c2) = ModeH"
proof -
  let ?W = "th_word (stuff58bits x) c2"
  have "\<not> overflows (field5 ?W 27) (field3 ?W 24)"
    by (rule opposite_bits_stay) (simp add: bit_th_word bit_stuff58 bit_force_green bit_keep_red Let_def)
  moreover have "overflows (field5 ?W 19) (field3 ?W 16)"
    by (rule padded_overflows [OF refl])
      (simp_all add: bit_th_word bit_stuff58 bit_force_green bit_keep_red Let_def)
  moreover have "bit ?W 1" by (simp add: bit_th_word bit_stuff58)
  ultimately show ?thesis by (simp add: select_mode_fields)
qed

section \<open>Round trip of the T mode\<close>

definition nibble :: "u8 \<Rightarrow> bool" where
  "nibble v \<longleftrightarrow> v AND 0xF = v"

definition nibbles :: "colour \<Rightarrow> bool" where
  "nibbles c \<longleftrightarrow> (case c of (r, g, b) \<Rightarrow> nibble r \<and> nibble g \<and> nibble b)"

lemma nibble_bits: "nibble v \<Longrightarrow> 4 \<le> n \<Longrightarrow> \<not> bit v n"
proof -
  assume v: "nibble v" and n: "4 \<le> n"
  have "(0xF :: u8) = mask 4" by (simp add: mask_eq_exp_minus_1)
  with v have "v = v AND mask 4" by (simp add: nibble_def)
  then show ?thesis using n by (metis bit_and_iff bit_mask_iff not_le)
qed

definition rgb_of :: "colour \<Rightarrow> u32" where
  "rgb_of c = (case c of (r, g, b) \<Rightarrow> rgb (ucast r) (ucast g) (ucast b))"

lemma ucast_word_of_int_u64: "(ucast (word_of_int x :: u64) :: u32) = word_of_int x"
  by (rule bit_word_eqI) (simp add: bit_ucast_iff bit_word_of_int_iff)

lemma small_sint: "-1000 \<le> x \<Longrightarrow> x \<le> 1000 \<Longrightarrow> sint (word_of_int x :: u32) = x"
  by (simp add: signed_of_int signed_take_bit_int_eq_self)

lemma clampMax_int:
  assumes "0 \<le> x" "x \<le> 1000"
  shows "clampu8 (word_of_int x) = clampMax x 255"
proof -
  have "uint (clampu8 (word_of_int x)) = min 255 x"
    using assms by (simp add: clampu8_value small_sint)
  moreover have "uint (clampMax x 255) = min 255 x"
    using assms by (auto simp: clampMax_def unsigned_of_int take_bit_int_eq_self)
  ultimately show ?thesis by (simp add: word_uint_eqI)
qed

lemma clampMin_int:
  assumes "-1000 \<le> x" "x \<le> 255"
  shows "clampu8 (word_of_int x) = clampMin 0 x"
proof -
  have "uint (clampu8 (word_of_int x)) = max 0 x"
    using assms by (simp add: clampu8_value small_sint)
  moreover have "uint (clampMin 0 x) = max 0 x"
    using assms by (auto simp: clampMin_def unsigned_of_int take_bit_int_eq_self)
  ultimately show ?thesis by (simp add: word_uint_eqI)
qed

lemma clamp_add:
  fixes c t :: u8
  shows "clampu8 (ucast (ucast c + ucast t :: u64)) = clampMax (uint c + uint t) 255"
proof -
  have "(ucast (ucast c + ucast t :: u64) :: u32) = word_of_int (uint c + uint t)"
    unfolding ucast_word_of_int_u64 [symmetric] by simp
  then show ?thesis
    using uint_byte_le [of c] uint_byte_le [of t] by (simp only:) (rule clampMax_int, simp_all)
qed

lemma clamp_sub:
  fixes c t :: u8
  shows "clampu8 (ucast (ucast c - ucast t :: u64)) = clampMin 0 (uint c - uint t)"
proof -
  have "(ucast (ucast c - ucast t :: u64) :: u32) = word_of_int (uint c - uint t)"
    unfolding ucast_word_of_int_u64 [symmetric] by simp
  moreover have "-1000 \<le> uint c - uint t" "uint c - uint t \<le> 255"
    using uint_byte_le [of c] uint_byte_le [of t] unsigned_greater_eq [of c, where 'a = int]
      unsigned_greater_eq [of t, where 'a = int] by linarith+
  ultimately show ?thesis by (simp only: clampMin_int)
qed

lemma tables_agree: "table59T58H = tableTH"
  by (simp add: table59T58H_def tableTH_def)

text \<open>The fields of a T block are the packed parameters.\<close>

lemmas bit_T_word = bit_th_word bit_stuff59 bit_force_red bit_move59 Let_def packT_def prod.case

lemma T_word_bits:
  fixes c2 :: u32
  assumes n0: "nibble r0" "nibble g0" "nibble b0" and n1: "nibble r1" "nibble g1" "nibble b1" and d: "d < 8"
  defines "W \<equiv> th_word (stuff59bits (packT ((r0, g0, b0), (r1, g1, b1)) d)) c2"
  shows "bit W 0 = bit d 0" "bit W 2 = bit d 1" "bit W 3 = bit d 2" "bit W 4 = bit b1 0" "bit W 5 = bit b1 1"
    "bit W 6 = bit b1 2" "bit W 7 = bit b1 3" "bit W 8 = bit g1 0" "bit W 9 = bit g1 1" "bit W 10 = bit g1 2"
    "bit W 11 = bit g1 3" "bit W 12 = bit r1 0" "bit W 13 = bit r1 1" "bit W 14 = bit r1 2" "bit W 15 = bit r1 3"
    "bit W 16 = bit b0 0" "bit W 17 = bit b0 1" "bit W 18 = bit b0 2" "bit W 19 = bit b0 3" "bit W 20 = bit g0 0"
    "bit W 21 = bit g0 1" "bit W 22 = bit g0 2" "bit W 23 = bit g0 3" "bit W 24 = bit r0 0" "bit W 25 = bit r0 1"
    "bit W 27 = bit r0 2" "bit W 28 = bit r0 3"
proof -
  note z = n0 [THEN nibble_bits] n1 [THEN nibble_bits]
  have dz: "\<not> bit d n" if "3 \<le> n" for n using small_nat_bits [OF d that] .
  show "bit W 0 = bit d 0" "bit W 2 = bit d 1" "bit W 3 = bit d 2" "bit W 4 = bit b1 0" "bit W 5 = bit b1 1"
    "bit W 6 = bit b1 2" "bit W 7 = bit b1 3" "bit W 8 = bit g1 0" "bit W 9 = bit g1 1" "bit W 10 = bit g1 2"
    "bit W 11 = bit g1 3" "bit W 12 = bit r1 0" "bit W 13 = bit r1 1" "bit W 14 = bit r1 2" "bit W 15 = bit r1 3"
    "bit W 16 = bit b0 0" "bit W 17 = bit b0 1" "bit W 18 = bit b0 2" "bit W 19 = bit b0 3" "bit W 20 = bit g0 0"
    "bit W 21 = bit g0 1" "bit W 22 = bit g0 2" "bit W 23 = bit g0 3" "bit W 24 = bit r0 0" "bit W 25 = bit r0 1"
    "bit W 27 = bit r0 2" "bit W 28 = bit r0 3"
    by (simp_all add: W_def bit_T_word bitwise z dz)
qed

lemma T_fields:
  fixes c2 :: u32
  assumes n0: "nibble r0" "nibble g0" "nibble b0" and n1: "nibble r1" "nibble g1" "nibble b1" and d: "d < 8"
  defines "W \<equiv> th_word (stuff59bits (packT ((r0, g0, b0), (r1, g1, b1)) d)) c2"
  shows "T_codeword W = of_nat d"
    and "drop_bit 20 W AND 0xF = ucast g0" "drop_bit 16 W AND 0xF = ucast b0"
    and "drop_bit 12 W AND 0xF = ucast r1" "drop_bit 8 W AND 0xF = ucast g1" "drop_bit 4 W AND 0xF = ucast b1"
    and "drop_bit 3 (drop_bit 24 W AND 0x1B) AND 0x3 = ucast (drop_bit 2 r0)"
    and "(drop_bit 24 W AND 0x1B) AND 0x3 = ucast (r0 AND 0x3)"
proof -
  note z = n0 [THEN nibble_bits] n1 [THEN nibble_bits]
  have dz: "\<not> bit d n" if "3 \<le> n" for n using small_nat_bits [OF d that] .
  note Wb = T_word_bits [OF n0 n1 d, of c2, folded W_def]
  show "T_codeword W = of_nat d"
    by (rule word64_eqI) (simp add: T_codeword_def upt_64 Wb bitwise z dz)
  show "drop_bit 20 W AND 0xF = ucast g0" "drop_bit 16 W AND 0xF = ucast b0"
    "drop_bit 12 W AND 0xF = ucast r1" "drop_bit 8 W AND 0xF = ucast g1" "drop_bit 4 W AND 0xF = ucast b1"
    "drop_bit 3 (drop_bit 24 W AND 0x1B) AND 0x3 = ucast (drop_bit 2 r0)"
    "(drop_bit 24 W AND 0x1B) AND 0x3 = ucast (r0 AND 0x3)"
    by (rule word64_eqI; simp add: upt_64 Wb bitwise z dz)+
qed

lemma T_block_table:
  assumes "nibbles (fst cs)" "nibbles (snd cs)" "d < 8"
  shows "T_col_tab (th_word (stuff59bits (packT cs d)) c2) =
    map rgb_of (calculatePaintColors59T d (decompressColor cs))"
proof -
  obtain r0 g0 b0 r1 g1 b1 where cs: "cs = ((r0, g0, b0), (r1, g1, b1))" by (metis prod.exhaust)
  have n: "nibble r0" "nibble g0" "nibble b0" "nibble r1" "nibble g1" "nibble b1"
    using assms(1,2) by (simp_all add: cs nibbles_def)
  note F = T_fields [OF n assms(3), of c2]
  have tab: "table59T58H ! unat (of_nat d :: u64) = tableTH ! d"
    using assms(3) by (simp add: tables_agree unsigned_of_nat take_bit_nat_eq_self)
  have wide: "push_bit 4 (ucast v) OR ucast v = (ucast (push_bit 4 v OR v) :: u64)" if "nibble v" for v :: u8
    using nibble_bits [OF that] by (intro word64_eqI) (simp add: upt_64 bitwise)
  have red: "push_bit 6 (ucast (drop_bit 2 r0)) OR push_bit 4 (ucast (r0 AND 0x3)) OR push_bit 2 (ucast (drop_bit 2 r0)) OR
      ucast (r0 AND 0x3) = (ucast (push_bit 4 r0 OR r0) :: u64)"
    using nibble_bits [OF n(1)] by (intro word64_eqI) (simp add: upt_64 bitwise)
  have narrow: "(ucast (ucast v :: u64) :: u32) = ucast v" for v :: u8
    by (rule word32_eqI) (simp add: upt_32 bitwise)
  show ?thesis
    unfolding T_col_tab_def Let_def cs F tab red wide [OF n(2)] wide [OF n(3)] wide [OF n(4)]
      wide [OF n(5)] wide [OF n(6)] clamp_add clamp_sub narrow
    by (simp add: calculatePaintColors59T_def decompressColor_def lighter_def darker_def map_colour_def rgb_of_def Let_def)
qed

section \<open>Round trip of the H mode\<close>

lemmas bit_H_word = bit_th_word bit_stuff58 bit_force_green bit_keep_red bit_move58 Let_def packH_def prod.case

lemma H_word_bits:
  fixes c2 :: u32
  assumes n0: "nibble r0" "nibble g0" "nibble b0" and n1: "nibble r1" "nibble g1" "nibble b1" and d: "d < 8"
  defines "W \<equiv> th_word (stuff58bits (packH ((r0, g0, b0), (r1, g1, b1)) d)) c2"
  shows "bit W 0 = bit d 1" "bit W 2 = bit d 2" "bit W 3 = bit b1 0" "bit W 4 = bit b1 1" "bit W 5 = bit b1 2"
    "bit W 6 = bit b1 3" "bit W 7 = bit g1 0" "bit W 8 = bit g1 1" "bit W 9 = bit g1 2" "bit W 10 = bit g1 3"
    "bit W 11 = bit r1 0" "bit W 12 = bit r1 1" "bit W 13 = bit r1 2" "bit W 14 = bit r1 3" "bit W 15 = bit b0 0"
    "bit W 16 = bit b0 1" "bit W 17 = bit b0 2" "bit W 19 = bit b0 3" "bit W 20 = bit g0 0" "bit W 24 = bit g0 1"
    "bit W 25 = bit g0 2" "bit W 26 = bit g0 3" "bit W 27 = bit r0 0" "bit W 28 = bit r0 1" "bit W 29 = bit r0 2"
    "bit W 30 = bit r0 3"
proof -
  note z = n0 [THEN nibble_bits] n1 [THEN nibble_bits]
  have dz: "\<not> bit d n" if "3 \<le> n" for n using small_nat_bits [OF d that] .
  show "bit W 0 = bit d 1" "bit W 2 = bit d 2" "bit W 3 = bit b1 0" "bit W 4 = bit b1 1" "bit W 5 = bit b1 2"
    "bit W 6 = bit b1 3" "bit W 7 = bit g1 0" "bit W 8 = bit g1 1" "bit W 9 = bit g1 2" "bit W 10 = bit g1 3"
    "bit W 11 = bit r1 0" "bit W 12 = bit r1 1" "bit W 13 = bit r1 2" "bit W 14 = bit r1 3" "bit W 15 = bit b0 0"
    "bit W 16 = bit b0 1" "bit W 17 = bit b0 2" "bit W 19 = bit b0 3" "bit W 20 = bit g0 0" "bit W 24 = bit g0 1"
    "bit W 25 = bit g0 2" "bit W 26 = bit g0 3" "bit W 27 = bit r0 0" "bit W 28 = bit r0 1" "bit W 29 = bit r0 2"
    "bit W 30 = bit r0 3"
    by (simp_all add: W_def bit_H_word bitwise z dz)
qed

lemma H_fields:
  fixes c2 :: u32
  assumes n0: "nibble r0" "nibble g0" "nibble b0" and n1: "nibble r1" "nibble g1" "nibble b1" and d: "d < 8"
  defines "W \<equiv> th_word (stuff58bits (packH ((r0, g0, b0), (r1, g1, b1)) d)) c2"
  shows "drop_bit 27 W AND 0xF = ucast r0"
    and "(drop_bit 20 W AND 0x1) OR push_bit 1 (drop_bit 24 W AND 0x7) = ucast g0"
    and "(drop_bit 15 W AND 0x7) OR push_bit 3 (drop_bit 19 W AND 0x1) = ucast b0"
    and "drop_bit 11 W AND 0xF = ucast r1" "drop_bit 7 W AND 0xF = ucast g1" "drop_bit 3 W AND 0xF = ucast b1"
    and "drop_bit 3 W AND (push_bit 12 1 - 1) = push_bit 8 (ucast r1) OR push_bit 4 (ucast g1) OR push_bit 0 (ucast b1)"
    and "push_bit 1 (W AND 0x1) OR (W AND 0x4) = of_nat d AND 0x6"
proof -
  note z = n0 [THEN nibble_bits] n1 [THEN nibble_bits]
  have dz: "\<not> bit d n" if "3 \<le> n" for n using small_nat_bits [OF d that] .
  note Wb = H_word_bits [OF n0 n1 d, of c2, folded W_def]
  show "drop_bit 27 W AND 0xF = ucast r0"
    "(drop_bit 20 W AND 0x1) OR push_bit 1 (drop_bit 24 W AND 0x7) = ucast g0"
    "(drop_bit 15 W AND 0x7) OR push_bit 3 (drop_bit 19 W AND 0x1) = ucast b0"
    "drop_bit 11 W AND 0xF = ucast r1" "drop_bit 7 W AND 0xF = ucast g1" "drop_bit 3 W AND 0xF = ucast b1"
    "drop_bit 3 W AND (push_bit 12 1 - 1) = push_bit 8 (ucast r1) OR push_bit 4 (ucast g1) OR push_bit 0 (ucast b1)"
    "push_bit 1 (W AND 0x1) OR (W AND 0x4) = of_nat d AND 0x6"
    by (rule word64_eqI; simp add: upt_64 Wb bitwise z dz)+
qed

lemma pack444_word:
  assumes "nibble r" "nibble g" "nibble b"
  shows "uint (push_bit 8 (ucast r) OR push_bit 4 (ucast g) OR push_bit 0 (ucast b) :: u64) = pack444 (r, g, b)"
proof -
  have le: "uint v \<le> 15" if "nibble v" for v :: u8
  proof -
    have "uint v = uint (v AND 0xF)" using that by (simp add: nibble_def)
    also have "\<dots> = uint v AND 15" by (simp add: unsigned_and_eq)
    finally show ?thesis using AND_upper2 [of 15 "uint v"] by simp
  qed
  have "(push_bit 8 (ucast r) OR push_bit 4 (ucast g) OR push_bit 0 (ucast b) :: u64) =
      push_bit 8 (ucast r) + (push_bit 4 (ucast g) + ucast b)"
  proof -
    have "push_bit 4 (ucast g) AND (ucast b :: u64) = 0" "push_bit 8 (ucast r) AND (push_bit 4 (ucast g) OR ucast b :: u64) = 0"
      using assms by (auto intro!: word64_eqI simp: upt_64 bitwise nibble_bits)
    then show ?thesis by (simp add: disjunctive_add_eq_or)
  qed
  also have "\<dots> = word_of_int (pack444 (r, g, b))"
    by (simp add: pack444_def push_bit_eq_mult)
  finally have w: "(push_bit 8 (ucast r) OR push_bit 4 (ucast g) OR push_bit 0 (ucast b) :: u64) = word_of_int (pack444 (r, g, b))" .
  have "0 \<le> pack444 (r, g, b)" "pack444 (r, g, b) < 2 ^ 64"
    using le [OF assms(1)] le [OF assms(2)] le [OF assms(3)] by (simp_all add: pack444_def push_bit_eq_mult)
  then show ?thesis unfolding w by (simp add: unsigned_of_int take_bit_int_eq_self)
qed

lemma H_codeword_packed:
  fixes c2 :: u32
  assumes n0: "nibble r0" "nibble g0" "nibble b0" and n1: "nibble r1" "nibble g1" "nibble b1" and d: "d < 8"
    and order: "pack444 (r0, g0, b0) \<ge> pack444 (r1, g1, b1) \<longleftrightarrow> odd d"
  shows "H_codeword (th_word (stuff58bits (packH ((r0, g0, b0), (r1, g1, b1)) d)) c2) = of_nat d"
proof -
  let ?W = "th_word (stuff58bits (packH ((r0, g0, b0), (r1, g1, b1)) d)) c2"
  let ?c = "\<lambda>r g b. push_bit 8 (ucast r) OR push_bit 4 (ucast g) OR push_bit 0 (ucast b) :: u64"
  have "?c r0 g0 b0 \<ge> ?c r1 g1 b1 \<longleftrightarrow> odd d"
    unfolding word_le_def pack444_word [OF n0] pack444_word [OF n1] by (rule order)
  then have "H_codeword ?W = (of_nat d AND 6) OR (if odd d then 1 else 0)"
    unfolding H_codeword_def Let_def H_fields [OF n0 n1 d] by (simp only:)
  also have "\<dots> = of_nat d"
  proof -
    have "list_all (\<lambda>d. (of_nat d AND 6) OR (if odd d then 1 else 0) = (of_nat d :: u64)) [0..<8]" by code_simp
    then show ?thesis using d by (rule upt_allD)
  qed
  finally show ?thesis .
qed

lemma widen_nibble: "nibble v \<Longrightarrow> push_bit 4 (ucast v) OR ucast v = (ucast (push_bit 4 v OR v) :: u64)"
  using nibble_bits [of v] by (intro word64_eqI) (simp add: upt_64 bitwise)

lemma H_block_table:
  assumes "nibbles (fst cs)" "nibbles (snd cs)" "d < 8" "pack444 (fst cs) \<ge> pack444 (snd cs) \<longleftrightarrow> odd d"
  shows "H_col_tab (th_word (stuff58bits (packH cs d)) c2) =
    map rgb_of (calculatePaintColors58H d (decompressColor cs))"
proof -
  obtain r0 g0 b0 r1 g1 b1 where cs: "cs = ((r0, g0, b0), (r1, g1, b1))" by (metis prod.exhaust)
  have n: "nibble r0" "nibble g0" "nibble b0" "nibble r1" "nibble g1" "nibble b1"
    using assms(1,2) by (simp_all add: cs nibbles_def)
  have "pack444 (r0, g0, b0) \<ge> pack444 (r1, g1, b1) \<longleftrightarrow> odd d" using assms(4) by (simp add: cs)
  note code = H_codeword_packed [OF n assms(3) this, of c2]
  note F = H_fields [OF n assms(3), of c2]
  have tab: "table59T58H ! unat (of_nat d :: u64) = tableTH ! d"
    using assms(3) by (simp add: tables_agree unsigned_of_nat take_bit_nat_eq_self)
  show ?thesis
    unfolding H_col_tab_def Let_def cs F code tab widen_nibble [OF n(1)] widen_nibble [OF n(2)] widen_nibble [OF n(3)]
      widen_nibble [OF n(4)] widen_nibble [OF n(5)] widen_nibble [OF n(6)] clamp_add clamp_sub
    by (simp add: calculatePaintColors58H_def decompressColor_def lighter_def darker_def map_colour_def rgb_of_def Let_def)
qed

section \<open>The pixel indices\<close>

text \<open>The search numbers the pixels row by row and shifts two bits in per pixel; \<open>pix_sel\<close> reads
  the index of pixel \<open>n\<close>.\<close>

definition pix_sel :: "u32 \<Rightarrow> nat \<Rightarrow> nat" where
  "pix_sel pix n = unat (drop_bit (2 * (15 - n)) pix AND 3)"

definition pix_shift :: "nat \<Rightarrow> nat" where
  "pix_shift k = 2 * (15 - (4 * (k mod 4) + k div 4))"

lemma index_planes_eq:
  "index_planes p = (map (\<lambda>k. drop_bit (pix_shift k) p AND 1) [0..<16],
     map (\<lambda>k. drop_bit (pix_shift k + 1) p AND 1) [0..<16])"
proof -
  obtain L M where LM: "index_planes p = (L, M)" by (cases "index_planes p")
  have "length L = 16 \<and> length M = 16 \<and> list_all (\<lambda>k. L ! k = drop_bit (pix_shift k) p AND 1 \<and>
      M ! k = drop_bit (pix_shift k + 1) p AND 1) [0..<16]"
    using LM by (auto simp add: index_planes_def upt_16 pix_shift_def nth_list_update Let_def
      simp del: and_one_eq drop_bit_Suc list_update.simps add_2_eq_Suc add_2_eq_Suc')
  then show ?thesis unfolding LM by (auto simp: list_all_iff intro!: nth_equalityI)
qed

lemma join_planes_fold:
  "join_planes LSB MSB = fold (\<lambda>k c. c OR (push_bit k (LSB ! k) OR push_bit (16 + k) (MSB ! k))) [0..<16] 0"
  by (simp add: join_planes_def upt_16 or.assoc One_nat_def [symmetric] Suc_1 del: push_bit_Suc One_nat_def)

lemma bit_indexConversion:
  assumes "n < 32"
  shows "bit (indexConversion p) n \<longleftrightarrow>
    (if n < 16 then bit p (pix_shift n) else bit p (pix_shift (n - 16) + 1))"
proof -
  have "bit (push_bit k (drop_bit (pix_shift k) p AND 1) OR push_bit (16 + k) (drop_bit (pix_shift k + 1) p AND 1)) n \<longleftrightarrow>
      n = k \<and> bit p (pix_shift k) \<or> n = 16 + k \<and> bit p (pix_shift k + 1)" if "k < 16" for k
    using assms that unfolding and_one_of_bool by (auto simp: bit_or_iff bit_push_bit_iff bit_of_bool_iff)
  then have "bit (indexConversion p) n \<longleftrightarrow>
     (\<exists>k < 16. n = k \<and> bit p (pix_shift k) \<or> n = 16 + k \<and> bit p (pix_shift k + 1))"
    unfolding indexConversion_def index_planes_eq prod.case join_planes_fold bit_fold_or
    by (auto simp del: upt_Suc)
  then show ?thesis using assms by (auto intro: exI [of _ "n - 16"])
qed

lemma sel_two_bits: "unat (push_bit 1 (of_bool P) OR of_bool Q :: u32) = of_bool Q + 2 * of_bool P"
  by (cases P; cases Q) simp_all

lemma pix_sel_bits:
  assumes "n < 16"
  shows "pix_sel p n = of_bool (bit p (2 * (15 - n))) + 2 * of_bool (bit p (2 * (15 - n) + 1))"
proof -
  have two_bits: "unat (w AND 3 :: u32) = of_bool (bit w 0) + 2 * of_bool (bit w 1)" for w
  proof -
    have "w AND 3 = push_bit 1 (of_bool (bit w 1)) OR of_bool (bit w 0)"
      by (rule word32_eqI) (simp add: upt_32 bitwise)
    then show ?thesis by (simp only: sel_two_bits)
  qed
  show ?thesis by (simp add: pix_sel_def two_bits bit_drop_bit_eq)
qed

lemma th_index_word:
  assumes "x < 4" "y < 4"
  shows "th_index (th_word w c2) x y =
     of_bool (bit c2 (4 * x + y)) + 2 * of_bool (bit c2 (16 + (4 * x + y)))"
proof -
  have hi: "ucast (drop_bit 32 (th_word w c2) AND 0xFFFFFFFF) = c2"
    by (rule word32_eqI) (simp add: upt_32 th_word_def bitwise)
  have bits: "drop_bit k c2 AND 1 = of_bool (bit c2 k)" for k by (simp add: and_one_of_bool)
  show ?thesis
    unfolding th_index_def Let_def hi bits sel_two_bits by (simp add: ac_simps)
qed

lemma th_index_converted:
  assumes "x < 4" "y < 4"
  shows "th_index (th_word w (indexConversion p)) x y = pix_sel p (4 * y + x)"
proof -
  have "4 * y + x < 16" using assms by simp
  moreover have "bit (indexConversion p) (4 * x + y) = bit p (2 * (15 - (4 * y + x))) \<and>
      bit (indexConversion p) (16 + (4 * x + y)) = bit p (2 * (15 - (4 * y + x)) + 1)"
    using assms by (simp add: bit_indexConversion pix_shift_def)
  ultimately show ?thesis by (simp only: th_index_word [OF assms] pix_sel_bits)
qed

text \<open>Exchanging the colours flips the high bit of every index.\<close>

lemma pix_sel_flipped:
  assumes "n < 16"
  shows "pix_sel ((0x55555555 AND p) OR (0xAAAAAAAA AND NOT p)) n = (pix_sel p n + 2) mod 4"
proof -
  have "list_all (\<lambda>n. bit ((0x55555555 AND p) OR (0xAAAAAAAA AND NOT p)) (2 * (15 - n)) = bit p (2 * (15 - n)) \<and>
      bit ((0x55555555 AND p) OR (0xAAAAAAAA AND NOT p)) (2 * (15 - n) + 1) = (\<not> bit p (2 * (15 - n) + 1))) [0..<16]"
    by (simp add: upt_16 bitwise)
  note upt_allD [OF this assms]
  then show ?thesis by (simp add: pix_sel_bits [OF assms] of_bool_def)
qed

end
