(* ===== verification/Etc2THSort.thy ===== *)
theory Etc2THSort imports Etc2TH "HOL-Library.Multiset" begin

text \<open>
  \<open>insertionSort\<close> of \<open>src/ProcessRGB.cpp\<close> sorts the sixteen lumas stably and leaves in its second
  array the pixel numbers in sorted order.
\<close>

lemma hole_moves:
  assumes "\<forall>b \<in> set bs. v < b" "length as2 = length as" "length bs2 = length bs"
  shows "\<exists>c c2. hole_loop v (length as + length bs) (as @ bs @ x # r) (as2 @ bs2 @ x2 # r2) =
    hole_loop v (length as) (as @ c # bs @ r) (as2 @ c2 # bs2 @ r2)"
  using assms
proof (induction bs arbitrary: bs2 x x2 r r2 rule: rev_induct)
  case (snoc b bs)
  obtain cs2 b2 where bs2: "bs2 = cs2 @ [b2]" "length cs2 = length bs"
    using snoc.prems(3) by (cases bs2 rule: rev_cases) auto
  have at: "(as @ (bs @ [b]) @ x # r) ! (length as + length bs) = b"
    "(as2 @ bs2 @ x2 # r2) ! (length as + length bs) = b2"
    using snoc.prems bs2 by (simp_all add: nth_append)
  have upd: "(as @ (bs @ [b]) @ x # r)[Suc (length as + length bs) := b] = as @ bs @ b # b # r"
    "(as2 @ bs2 @ x2 # r2)[Suc (length as + length bs) := b2] = as2 @ cs2 @ b2 # b2 # r2"
    using snoc.prems bs2 by (simp_all add: list_update_append)
  have "hole_loop v (length as + length (bs @ [b])) (as @ (bs @ [b]) @ x # r) (as2 @ bs2 @ x2 # r2) =
      hole_loop v (length as + length bs) (as @ bs @ b # b # r) (as2 @ cs2 @ b2 # b2 # r2)"
  proof -
    have "length as + length (bs @ [b]) = Suc (length as + length bs)" "v < b" using snoc.prems(1) by simp_all
    then show ?thesis by (simp only: hole_loop.simps at upd if_True)
  qed
  with snoc.IH [of cs2 b "b # r" b2 "b2 # r2"] snoc.prems bs2 show ?case by simp
qed auto

lemma hole_stops:
  "(as = [] \<or> \<not> v < last as) \<Longrightarrow> hole_loop v (length as) (as @ r) as2 = (length as, as @ r, as2)"
  by (cases as rule: rev_cases) (auto simp: nth_append)

lemma sort_step_inserts:
  assumes sorted: "\<forall>b \<in> set bs. v < b" "as = [] \<or> \<not> v < last as"
    and len: "length as2 = length as" "length bs2 = length bs" "i = length as + length bs"
  shows "sort_step i (as @ bs @ v # r, as2 @ bs2 @ x2 # r2) = (as @ v # bs @ r, as2 @ of_nat i # bs2 @ r2)"
proof -
  obtain c c2 where "hole_loop v i (as @ bs @ v # r) (as2 @ bs2 @ x2 # r2) =
      hole_loop v (length as) (as @ c # bs @ r) (as2 @ c2 # bs2 @ r2)"
    using hole_moves [OF sorted(1) len(1,2)] unfolding len(3) by blast
  also have "\<dots> = (length as, as @ c # bs @ r, as2 @ c2 # bs2 @ r2)" by (rule hole_stops [OF sorted(2)])
  finally show ?thesis by (simp add: sort_step_def nth_append len list_update_append Let_def)
qed

definition in_order :: "(nat \<Rightarrow> u8) \<Rightarrow> nat \<Rightarrow> nat \<Rightarrow> bool" where
  "in_order f a b \<longleftrightarrow> f a < f b \<or> f a = f b \<and> a < b"

text \<open>The state after \<open>n\<close> values: the first \<open>n\<close> positions hold a stable sort of them.\<close>

definition sort_inv :: "u8 list \<Rightarrow> u8 list \<Rightarrow> nat \<Rightarrow> u8 list \<times> u8 list \<Rightarrow> bool" where
  "sort_inv luma idx n st \<longleftrightarrow> (\<exists>js. mset js = mset [0..<n] \<and> sorted_wrt (in_order ((!) luma)) js \<and>
     st = (map ((!) luma) js @ drop n luma, map of_nat js @ drop n idx))"

lemma sort_step_inv:
  assumes inv: "sort_inv luma idx n st" and n: "n < length luma" "length idx = length luma"
  shows "sort_inv luma idx (Suc n) (sort_step n st)"
proof -
  let ?f = "(!) luma" and ?v = "luma ! n"
  obtain js where js: "mset js = mset [0..<n]" "sorted_wrt (in_order ?f) js"
      "st = (map ?f js @ drop n luma, map of_nat js @ drop n idx)"
    using inv by (auto simp: sort_inv_def)
  have "set js = {0..<n}" using arg_cong [OF js(1), of set_mset] by simp
  then have below: "j < n" if "j \<in> set js" for j using that by simp
  have len: "length js = n" using js(1) by (metis diff_zero length_upt size_mset)
  define as where "as = takeWhile (\<lambda>j. \<not> ?v < ?f j) js"
  define bs where "bs = dropWhile (\<lambda>j. \<not> ?v < ?f j) js"
  have split: "js = as @ bs" by (simp add: as_def bs_def)
  have as: "\<not> ?v < ?f a" if "a \<in> set as" for a using that by (auto simp: as_def dest: set_takeWhileD)
  have bs: "?v < ?f b" if b: "b \<in> set bs" for b
  proof (cases bs)
    case (Cons h t)
    have "?v < ?f h" using Cons hd_dropWhile [of "\<lambda>j. \<not> ?v < ?f j" js] by (simp add: bs_def)
    moreover have "b = h \<or> in_order ?f h b" using js(2) b by (auto simp: split Cons sorted_wrt_append)
    ultimately show ?thesis by (auto simp: in_order_def)
  qed (use b in simp)
  have "drop n luma = ?v # drop (Suc n) luma" "drop n idx = idx ! n # drop (Suc n) idx"
    using n by (simp_all add: Cons_nth_drop_Suc)
  then have st: "st = (map ?f as @ map ?f bs @ ?v # drop (Suc n) luma, map of_nat as @ map of_nat bs @ idx ! n # drop (Suc n) idx)"
    by (simp add: js(3) split)
  have "as = [] \<or> \<not> ?v < last (map ?f as)" using as last_in_set [of as] by (cases "as = []") (simp_all add: last_map)
  then have "sort_step n st = (map ?f as @ ?v # map ?f bs @ drop (Suc n) luma, map of_nat as @ of_nat n # map of_nat bs @ drop (Suc n) idx)"
    unfolding st using bs len by (intro sort_step_inserts) (simp_all add: split)
  moreover have "sorted_wrt (in_order ?f) (as @ n # bs)"
  proof -
    have "in_order ?f a n" if "a \<in> set as" for a
      using as [OF that] below [of a] that by (auto simp: in_order_def split not_less le_less)
    moreover have "in_order ?f n b" if "b \<in> set bs" for b using bs [OF that] by (simp add: in_order_def)
    moreover have "sorted_wrt (in_order ?f) as" "sorted_wrt (in_order ?f) bs" "\<forall>a \<in> set as. \<forall>b \<in> set bs. in_order ?f a b"
      using js(2) by (simp_all add: split sorted_wrt_append)
    ultimately show ?thesis by (simp add: sorted_wrt_append)
  qed
  moreover have "mset (as @ n # bs) = mset [0..<Suc n]" using js(1) by (simp add: split)
  ultimately show ?thesis unfolding sort_inv_def by (intro exI [of _ "as @ n # bs"]) simp
qed

text \<open>C29: The sort is a stable sort: the lumas come out in ascending order together with the
  numbers of their pixels, every pixel exactly once, equal lumas in pixel order.\<close>

theorem insertionSort_sorts:
  assumes "length luma = 16" "length idx = 16" "idx ! 0 = 0"
  shows "\<exists>js. mset js = mset [0..<16] \<and> sorted_wrt (in_order ((!) luma)) js \<and>
    insertionSort luma idx = (map ((!) luma) js, map of_nat js)"
proof -
  have "sort_inv luma idx n (fold sort_step [1..<n] (luma, idx))" if "1 \<le> n" "n \<le> 16" for n
    using that
  proof (induction n rule: nat_induct_at_least)
    case base
    obtain l ls i "is" where "luma = l # ls" "idx = i # is" using assms by (cases luma; cases idx) auto
    then show ?case using assms(3) by (auto simp: sort_inv_def intro!: exI [of _ "[0]"])
  next
    case (Suc n)
    then show ?case using sort_step_inv [of luma idx n "fold sort_step [1..<n] (luma, idx)"] assms by simp
  qed
  from this [of 16] obtain js where js: "mset js = mset [0..<16]" "sorted_wrt (in_order ((!) luma)) js"
      "insertionSort luma idx = (map ((!) luma) js @ drop 16 luma, map of_nat js @ drop 16 idx)"
    unfolding sort_inv_def insertionSort_def by auto
  have "drop 16 luma = []" "drop 16 idx = []" using assms by simp_all
  with js(3) have "insertionSort luma idx = (map ((!) luma) js, map of_nat js)" by simp
  with js(1,2) show ?thesis by blast
qed

lemma insertionSort_sorts_witness:
  "\<exists>js. mset js = mset [0..<16] \<and> sorted_wrt (in_order ((!) [9, 3, 7, 3, 1, 8, 8, 2, 0, 5, 6, 4, 9, 1, 2, 250])) js \<and>
    insertionSort [9, 3, 7, 3, 1, 8, 8, 2, 0, 5, 6, 4, 9, 1, 2, 250] (map of_nat [0..<16]) =
      (map ((!) [9, 3, 7, 3, 1, 8, 8, 2, 0, 5, 6, 4, 9, 1, 2, 250]) js, map of_nat js)"
  by (rule insertionSort_sorts) simp_all

end
