(* ===== verification/Etc2THRoundTrip.thy ===== *)
theory Etc2THRoundTrip imports Etc2TH begin

text \<open>
  What the T and H encoder promises: a packed block decodes to the paint colours that the search
  chose (\<open>th_roundtrip\<close>), with the one exception of an H block whose base colours are equal
  (\<open>th_equal_colours\<close>); the search gives every pixel its nearest paint colour, and
  \<open>compressBlockTH\<close> puts both together.
\<close>

section \<open>Round trip of a packed block\<close>

definition th_paints :: "bool \<Rightarrow> nat \<Rightarrow> colour \<times> colour \<Rightarrow> colour list" where
  "th_paints tMode d cs = (if tMode then calculatePaintColors59T d (decompressColor cs)
     else calculatePaintColors58H d (decompressColor cs))"

lemma pix_sel_less: "pix_sel p n < 4"
proof -
  have "drop_bit (2 * (15 - n)) p AND 3 \<le> 3" by (simp add: word_and_le1)
  then have "unat (drop_bit (2 * (15 - n)) p AND 3) \<le> unat (3 :: u32)" by (simp only: word_le_nat_alt)
  then show ?thesis by (simp add: pix_sel_def)
qed

lemma etc_opaque_T:
  "etc_opaque (th_block True c1 c2) x y =
     T_col_tab (th_word (stuff59bits c1) c2) ! th_index (th_word (stuff59bits c1) c2) x y OR 0xFF000000"
  by (simp add: etc_opaque_def Convert_th_block th_word_T Let_def)

lemma etc_opaque_H:
  "etc_opaque (th_block False c1 c2) x y =
     H_col_tab (th_word (stuff58bits c1) c2) ! th_index (th_word (stuff58bits c1) c2) x y OR 0xFF000000"
  by (simp add: etc_opaque_def Convert_th_block th_word_H Let_def)

lemma full_mask [simp]: "w AND 4294967295 = (w :: u32)"
  by (rule word32_eqI) (simp add: upt_32 bitwise)

lemma length_paints: "length (calculatePaintColors59T d cs) = 4" "length (calculatePaintColors58H d cs) = 4"
  by (simp_all add: calculatePaintColors59T_def calculatePaintColors58H_def)

lemma paints_swapped:
  assumes "k < 4"
  shows "calculatePaintColors58H d (decompressColor (swapColors cs)) ! ((k + 2) mod 4) =
     calculatePaintColors58H d (decompressColor cs) ! k"
proof -
  have "k = 0 \<or> k = 1 \<or> k = 2 \<or> k = 3" using assms by auto
  then show ?thesis
    by (elim disjE) (simp_all add: calculatePaintColors58H_def decompressColor_def swapColors_def Let_def)
qed

lemma nibble_range: "nibble v \<Longrightarrow> 0 \<le> uint v \<and> uint v \<le> 15"
proof -
  assume "nibble v"
  then have "uint v = uint (v AND 0xF)" by (simp add: nibble_def)
  also have "\<dots> = uint v AND 15" by (simp add: unsigned_and_eq)
  finally show ?thesis using AND_upper2 [of 15 "uint v"] by simp
qed

lemma pack444_inj: "nibbles c \<Longrightarrow> nibbles c' \<Longrightarrow> pack444 c = pack444 c' \<longleftrightarrow> c = c'"
proof -
  assume n: "nibbles c" "nibbles c'"
  obtain r g b where c: "c = (r, g, b)" by (metis prod.exhaust)
  obtain r' g' b' where c': "c' = (r', g', b')" by (metis prod.exhaust)
  have digits: "u1 * 256 + v1 * 16 + w1 = u2 * 256 + v2 * 16 + w2 \<longleftrightarrow> u1 = u2 \<and> v1 = v2 \<and> w1 = w2"
    if "0 \<le> u1" "u1 \<le> 15" "0 \<le> v1" "v1 \<le> 15" "0 \<le> w1" "w1 \<le> 15"
      "0 \<le> u2" "u2 \<le> 15" "0 \<le> v2" "v2 \<le> 15" "0 \<le> w2" "w2 \<le> 15"
    for u1 v1 w1 u2 v2 w2 :: int
  proof
    assume eq: "u1 * 256 + v1 * 16 + w1 = u2 * 256 + v2 * 16 + w2"
    have "u1 = u2" using eq that by linarith
    moreover from this have "v1 = v2" using eq that by linarith
    ultimately show "u1 = u2 \<and> v1 = v2 \<and> w1 = w2" using eq by simp
  qed simp
  show ?thesis
    using n nibble_range [of r] nibble_range [of g] nibble_range [of b]
      nibble_range [of r'] nibble_range [of g'] nibble_range [of b']
      digits [of "uint r" "uint g" "uint b" "uint r'" "uint g'" "uint b'"]
    by (simp add: c c' nibbles_def pack444_def push_bit_eq_mult word_uint_eq_iff)
qed

lemma packed_pixel:
  assumes n: "nibbles (fst cs)" "nibbles (snd cs)" and d: "d < 8"
    and ok: "\<not> tMode \<Longrightarrow> fst cs = snd cs \<Longrightarrow> odd d" and xy: "x < 4" "y < 4"
  shows "etc_opaque (th_block tMode (fst (packTH tMode cs d pix)) (snd (packTH tMode cs d pix))) x y =
    rgb_of (th_paints tMode d cs ! pix_sel pix (4 * y + x)) OR 0xFF000000"
proof (cases tMode)
  case True
  then show ?thesis
    using pix_sel_less [of pix "4 * y + x"]
    by (simp add: packTH_def Let_def etc_opaque_T T_block_table [OF n d] th_index_converted [OF xy]
        th_paints_def length_paints)
next
  case False
  have pixel: "etc_opaque (th_block False (packH cs' d) (indexConversion p)) x y =
      rgb_of (calculatePaintColors58H d (decompressColor cs') ! pix_sel p (4 * y + x)) OR 0xFF000000"
    if "nibbles (fst cs')" "nibbles (snd cs')" "pack444 (fst cs') \<ge> pack444 (snd cs') \<longleftrightarrow> odd d" for cs' p
    using pix_sel_less [of p "4 * y + x"]
    by (simp add: etc_opaque_H H_block_table [OF that(1,2) d that(3)] th_index_converted [OF xy] length_paints)
  have odd_iff: "d AND 1 = 1 \<longleftrightarrow> odd d" by (simp add: and_one_eq odd_iff_mod_2_eq_one)
  show ?thesis
  proof (cases "swap_needed cs d")
    case True
    have "pack444 (fst cs) = pack444 (snd cs) \<Longrightarrow> odd d" using ok False pack444_inj [OF n] by simp
    then have "pack444 (fst (swapColors cs)) \<ge> pack444 (snd (swapColors cs)) \<longleftrightarrow> odd d"
      using True by (auto simp: swap_needed_def swapColors_def odd_iff)
    note pixel [OF _ _ this]
    moreover have "4 * y + x < 16" using xy by simp
    ultimately show ?thesis
      using n False True pix_sel_less [of pix "4 * y + x"]
      by (simp add: packTH_def Let_def swapColors_def pix_sel_flipped th_paints_def
          paints_swapped [of _ d cs, unfolded swapColors_def] del: add_2_eq_Suc add_2_eq_Suc')
  next
    case no: False
    then have "pack444 (fst cs) \<ge> pack444 (snd cs) \<longleftrightarrow> odd d" by (auto simp: swap_needed_def odd_iff)
    note pixel [OF n this]
    then show ?thesis using False no by (simp add: packTH_def Let_def th_paints_def)
  qed
qed


text \<open>An H block with equal base colours and an even distance.\<close>

lemma packed_equal_pixel:
  assumes n: "nibbles c" and d: "d < 8" "even d" and xy: "x < 4" "y < 4"
  shows "etc_opaque (th_block False (fst (packTH False (c, c) d pix)) (snd (packTH False (c, c) d pix))) x y =
    rgb_of (th_paints False (d + 1) (c, c) ! pix_sel pix (4 * y + x)) OR 0xFF000000"
proof -
  obtain r g b where c: "c = (r, g, b)" by (metis prod.exhaust)
  have d1: "d + 1 < 8" "odd (d + 1)" using d by presburger+
  have same: "packTH False (c, c) d pix = packTH False (c, c) (d + 1) ((0x55555555 AND pix) OR (0xAAAAAAAA AND NOT pix))"
  proof -
    have "list_all (\<lambda>d. even d \<longrightarrow> drop_bit 1 (of_nat d :: u32) AND 3 = drop_bit 1 (of_nat (d + 1)) AND 3) [0..<8]"
      by code_simp
    note code = upt_allD [OF this d(1)]
    have "d AND 1 \<noteq> 1" "(d + 1) AND 1 = 1" using d(2) by (simp_all add: and_one_eq mod_2_eq_odd)
    with code d(2) show ?thesis
      by (simp add: packTH_def Let_def swapColors_def swap_needed_def packH_def c del: and_one_eq)
  qed
  have n16: "4 * y + x < 16" using xy by simp
  have two: "th_paints False (d + 1) (c, c) ! ((k + 2) mod 4) = th_paints False (d + 1) (c, c) ! k" if "k < 4" for k
    using paints_swapped [OF that, of "d + 1" "(c, c)"] by (simp add: th_paints_def swapColors_def)
  show ?thesis
    unfolding same using packed_pixel [of "(c, c)" "d + 1" False x y] n d1 xy two [OF pix_sel_less]
    by (simp add: pix_sel_flipped [OF n16] del: add_2_eq_Suc add_2_eq_Suc')
qed

text \<open>The distance that the decoder reads.\<close>

definition shown_distance :: "bool \<Rightarrow> colour \<times> colour \<Rightarrow> nat \<Rightarrow> nat" where
  "shown_distance tMode cs d = (if \<not> tMode \<and> fst cs = snd cs \<and> even d then d + 1 else d)"

lemma packed_shown_pixel:
  assumes "nibbles (fst cs)" "nibbles (snd cs)" "d < 8" "x < 4" "y < 4"
  shows "etc_opaque (th_block tMode (fst (packTH tMode cs d pix)) (snd (packTH tMode cs d pix))) x y =
    rgb_of (th_paints tMode (shown_distance tMode cs d) cs ! pix_sel pix (4 * y + x)) OR 0xFF000000"
proof (cases "\<not> tMode \<and> fst cs = snd cs \<and> even d")
  case True
  then have "cs = (fst cs, fst cs)" by (simp add: prod_eq_iff)
  then obtain c where "cs = (c, c)" by blast
  then show ?thesis using packed_equal_pixel [of c d x y pix] assms True by (simp add: shown_distance_def)
next
  case False
  then show ?thesis using packed_pixel [OF assms(1-3) _ assms(4,5), of tMode pix] by (auto simp: shown_distance_def)
qed

text \<open>C4: A T block decodes, pixel by pixel, to the paint colour its index names; an H block does
  so unless its two base colours are equal and the distance is even.  The order of the H colours,
  which carries the low bit of the distance, and the exchange of the colours are undone by the
  decoder.\<close>

theorem th_roundtrip:
  assumes n: "nibbles (fst cs)" "nibbles (snd cs)" and d: "d < 8"
    and ok: "\<not> tMode \<Longrightarrow> fst cs = snd cs \<Longrightarrow> odd d" and xy: "x < 4" "y < 4"
  shows "etc_opaque (th_block tMode (fst (packTH tMode cs d pix)) (snd (packTH tMode cs d pix))) x y =
    rgb_of (th_paints tMode d cs ! pix_sel pix (4 * y + x)) OR 0xFF000000"
  using packed_pixel [OF n d _ xy] ok by blast

lemma th_roundtrip_witness:
  "etc_opaque (th_block False (fst (packTH False ((1, 2, 3), (9, 8, 7)) 2 0x12345678))
      (snd (packTH False ((1, 2, 3), (9, 8, 7)) 2 0x12345678))) 1 2 =
   rgb_of (th_paints False 2 ((1, 2, 3), (9, 8, 7)) ! pix_sel 0x12345678 (4 * 2 + 1)) OR 0xFF000000"
  by (rule th_roundtrip) (simp_all add: nibbles_def nibble_def)

text \<open>C28: The exception: an H block with equal base colours and an even distance decodes with the
  next distance of the table, so every pixel is off from the colour the search chose.\<close>

theorem th_equal_colours:
  assumes n: "nibbles c" and d: "d < 8" "even d" and xy: "x < 4" "y < 4"
  shows "etc_opaque (th_block False (fst (packTH False (c, c) d pix)) (snd (packTH False (c, c) d pix))) x y =
    rgb_of (th_paints False (d + 1) (c, c) ! pix_sel pix (4 * y + x)) OR 0xFF000000"
  by (rule packed_equal_pixel [OF assms])

lemma th_equal_colours_witness:
  "etc_opaque (th_block False (fst (packTH False ((7, 7, 7), (7, 7, 7)) 4 0)) (snd (packTH False ((7, 7, 7), (7, 7, 7)) 4 0))) 0 0 =
   rgb_of (th_paints False (4 + 1) ((7, 7, 7), (7, 7, 7)) ! pix_sel 0 (4 * 0 + 0)) OR 0xFF000000 \<and>
   th_paints False (4 + 1) ((7, 7, 7), (7, 7, 7)) ! 0 \<noteq> th_paints False 4 ((7, 7, 7), (7, 7, 7)) ! 0"
proof (rule conjI)
  show "etc_opaque (th_block False (fst (packTH False ((7, 7, 7), (7, 7, 7)) 4 0)) (snd (packTH False ((7, 7, 7), (7, 7, 7)) 4 0))) 0 0 =
     rgb_of (th_paints False (4 + 1) ((7, 7, 7), (7, 7, 7)) ! pix_sel 0 (4 * 0 + 0)) OR 0xFF000000"
    by (rule th_equal_colours) (simp_all add: nibbles_def nibble_def)
qed code_simp

end
