(* ===== verification/Etc2THSearch.thy ===== *)
theory Etc2THSearch imports Etc2THRoundTrip begin

text \<open>
  The search of \<open>calculateErrorTH\<close>: every pixel gets a paint colour at the least weighted distance,
  the loop over the distances keeps the best block error, and \<open>compressBlockTH\<close> hands on
  quantised colours that fit their bit fields.
\<close>

section \<open>The weighted distance\<close>

definition weighted :: "colour \<Rightarrow> colour \<Rightarrow> int" where
  "weighted p c = (case p of (pr, pg, pb) \<Rightarrow> case c of (cr, cg, cb) \<Rightarrow>
     38 * \<bar>uint pr - uint cr\<bar> + 76 * \<bar>uint pg - uint cg\<bar> + 14 * \<bar>uint pb - uint cb\<bar>)"

lemma byte_gap: "\<bar>uint (a :: u8) - uint (b :: u8)\<bar> \<le> 255"
  using uint_byte_le [of a] uint_byte_le [of b] uint_nonnegative [of a] uint_nonnegative [of b] by linarith

lemma weighted_bounds: "0 \<le> weighted p c \<and> weighted p c \<le> 32640"
proof -
  obtain pr pg pb where p: "p = (pr, pg, pb)" by (metis prod.exhaust)
  obtain cr cg cb where c: "c = (cr, cg, cb)" by (metis prod.exhaust)
  show ?thesis using byte_gap [of pr cr] byte_gap [of pg cg] byte_gap [of pb cb] by (simp add: p c weighted_def)
qed

lemma uint_small_u32: "0 \<le> v \<Longrightarrow> v < 4294967296 \<Longrightarrow> uint (word_of_int v :: u32) = v"
  by (simp add: unsigned_of_int take_bit_int_eq_self)

lemma weighted_square: "(weighted p c)\<^sup>2 \<le> 1065369600"
proof -
  have "(weighted p c)\<^sup>2 \<le> 32640\<^sup>2" using weighted_bounds [of p c] by (intro power_mono) auto
  then show ?thesis by simp
qed

text \<open>The squared error does not wrap: the largest possible one is exactly \<open>MaxError\<close>.\<close>

lemma square_err: "uint (colour_err p c * colour_err p c) = (weighted p c)\<^sup>2"
proof -
  have "colour_err p c = word_of_int (weighted p c)" by (simp add: colour_err_def weighted_def split: prod.splits)
  then have sq: "colour_err p c * colour_err p c = word_of_int ((weighted p c)\<^sup>2)" by (simp add: power2_eq_square)
  show ?thesis unfolding sq by (rule uint_small_u32) (use weighted_square [of p c] in simp_all)
qed

section \<open>One pixel\<close>

definition paint_inv :: "colour \<Rightarrow> colour list \<Rightarrow> u32 \<Rightarrow> nat \<Rightarrow> u32 \<times> u32 \<Rightarrow> bool" where
  "paint_inv p paints pix n st \<longleftrightarrow> (\<exists>k < 4. snd st = pix OR of_nat k \<and>
     (\<forall>c < n. uint (fst st) \<le> (weighted p (paints ! c))\<^sup>2) \<and>
     uint (fst st) \<le> 1065369600 \<and>
     (if n = 0 then k = 0 \<and> fst st = MaxError else (weighted p (paints ! k))\<^sup>2 = uint (fst st)))"

lemma replace_low_bits:
  assumes "pix AND 3 = (0 :: u32)" "k < 4"
  shows "((pix OR of_nat k) XOR ((pix OR of_nat k) AND 3)) OR of_nat c = pix OR of_nat c"
proof -
  have low: "\<not> bit pix 0" "\<not> bit pix 1" 
  proof -
    have "bit (pix AND 3) n = bit 0 n" for n using assms(1) by simp
    from this [of 0] this [of 1] show "\<not> bit pix 0" "\<not> bit pix 1" by (simp_all add: bit_and_iff bitwise)
  qed
  have hi: "\<not> bit k n" if "2 \<le> n" for n
  proof -
    have "k < 2 ^ n" using assms(2) that power_increasing [of 2 n "2 :: nat"] by simp
    then show ?thesis by (simp add: bit_nat_def)
  qed
  show ?thesis
    by (rule word32_eqI) (simp add: upt_32 bitwise low [simplified] hi)
qed

lemma best_paint_inv:
  assumes low: "pix AND 3 = 0"
  shows "paint_inv p paints pix 4 (best_paint p paints pix)"
proof -
  have "paint_inv p paints pix n (fold (\<lambda>c (bestPixErr, pixColors). let
       err = colour_err p (paints ! c);
       pixErr = err * err
     in if pixErr < bestPixErr
        then (pixErr, (pixColors XOR (pixColors AND 3)) OR of_nat c)
        else (bestPixErr, pixColors)) [0..<n] (MaxError, pix))" if "n \<le> 4" for n
    using that
  proof (induction n)
    case 0
    show ?case by (auto simp: paint_inv_def MaxError_def intro!: exI [of _ 0])
  next
    case (Suc n)
    let ?f = "\<lambda>c (bestPixErr, pixColors). let
       err = colour_err p (paints ! c);
       pixErr = err * err
     in if pixErr < bestPixErr
        then (pixErr, (pixColors XOR (pixColors AND 3)) OR of_nat c)
        else (bestPixErr, pixColors)"
    obtain e px where st: "fold ?f [0..<n] (MaxError, pix) = (e, px)" by force
    from Suc have inv: "paint_inv p paints pix n (e, px)" by (simp add: st)
    then obtain k where k: "k < 4" "px = pix OR of_nat k" "\<forall>c < n. uint e \<le> (weighted p (paints ! c))\<^sup>2"
        "uint e \<le> 1065369600" "if n = 0 then k = 0 \<and> e = MaxError else (weighted p (paints ! k))\<^sup>2 = uint e"
      unfolding paint_inv_def fst_conv snd_conv by blast
    have step: "fold ?f [0..<Suc n] (MaxError, pix) = ?f n (e, px)" by (simp add: st)
    let ?E = "colour_err p (paints ! n) * colour_err p (paints ! n)"
    show ?case
    proof (cases "?E < e")
      case True
      then have "uint ?E < uint e" by (simp add: word_less_def)
      then have "\<forall>c < Suc n. uint ?E \<le> (weighted p (paints ! c))\<^sup>2"
        using k(3) by (auto simp: less_Suc_eq square_err)
      then show ?thesis
        unfolding step paint_inv_def using True Suc.prems k weighted_square [of p "paints ! n"]
        by (auto simp: Let_def replace_low_bits [OF low k(1)] square_err intro!: exI [of _ n])
    next
      case False
      then have "uint e \<le> uint ?E" by (simp add: word_less_def)
      then have le: "uint e \<le> (weighted p (paints ! n))\<^sup>2" by (simp add: square_err)
      have "(weighted p (paints ! k))\<^sup>2 = uint e"
      proof (cases "n = 0")
        case True
        then show ?thesis using k(5) le weighted_square [of p "paints ! n"] by (simp add: MaxError_def)
      qed (use k(5) in simp)
      then show ?thesis
        unfolding step paint_inv_def using False k le
        by (auto simp: Let_def less_Suc_eq intro!: exI [of _ k])
    qed
  qed
  from this [of 4] show ?thesis by (simp add: best_paint_def)
qed


lemma best_paint_nearest:
  assumes "pix AND 3 = 0" "best_paint p paints pix = (e, px)"
  shows "\<exists>k < 4. px = pix OR of_nat k \<and> uint e = (weighted p (paints ! k))\<^sup>2 \<and>
    (\<forall>c < 4. weighted p (paints ! k) \<le> weighted p (paints ! c))"
proof -
  from best_paint_inv [OF assms(1), of p paints] assms(2)
  obtain k where k: "k < 4" "px = pix OR of_nat k" "\<forall>c < 4. uint e \<le> (weighted p (paints ! c))\<^sup>2"
      "(weighted p (paints ! k))\<^sup>2 = uint e"
    by (auto simp: paint_inv_def)
  have "weighted p (paints ! k) \<le> weighted p (paints ! c)" if "c < 4" for c
    using k(3,4) that weighted_bounds [of p "paints ! c"] by (metis power2_le_imp_le)
  with k show ?thesis by auto
qed

section \<open>One block\<close>

text \<open>Two fresh bits per pixel: \<open>field px j\<close> is the index stored \<open>j\<close> pixels ago.\<close>

definition field :: "u32 \<Rightarrow> nat \<Rightarrow> u32" where
  "field px j = drop_bit (2 * j) px AND 3"

lemma three_is_mask: "(3 :: u32) = mask 2"
  by (simp add: mask_eq_exp_minus_1)

lemma field_push:
  assumes "k < 4"
  shows "field (push_bit 2 px OR of_nat k) 0 = of_nat k"
    and "j < 15 \<Longrightarrow> field (push_bit 2 px OR of_nat k) (Suc j) = field px j"
proof -
  have hi: "\<not> bit k n" if "2 \<le> n" for n
  proof -
    have "k < 2 ^ n" using assms that power_increasing [of 2 n "2 :: nat"] by simp
    then show ?thesis by (simp add: bit_nat_def)
  qed
  have small: "n < 2" if "bit k n" for n using hi [of n] that by (cases "n < 2") auto
  show "field (push_bit 2 px OR of_nat k) 0 = of_nat k"
    by (rule bit_word_eqI) (auto simp: field_def three_is_mask bit_simps hi dest: small)
  assume j: "j < 15"
  show "field (push_bit 2 px OR of_nat k) (Suc j) = field px j"
    using j by (intro bit_word_eqI) (auto simp: field_def three_is_mask bit_simps hi not_less)
qed

definition paint_step :: "colour list \<Rightarrow> colour \<Rightarrow> u32 \<times> u32 \<Rightarrow> u32 \<times> u32" where
  "paint_step paints p st = (case st of (blockErr, pixColors) \<Rightarrow> let
       (bestPixErr, pixColors) = best_paint p paints (push_bit 2 pixColors)
     in (blockErr + bestPixErr, pixColors))"

lemma block_paint_fold:
  "block_paint src paints = fold (paint_step paints) [src_pixel src (x * 4 + y). y \<leftarrow> [0..<4], x \<leftarrow> [0..<4]] (0, 0)"
  by (simp add: block_paint_def paint_step_def upt_4)

lemma push_low: "push_bit 2 px AND 3 = (0 :: u32)"
  by (rule bit_word_eqI) (auto simp: three_is_mask bit_simps)

definition nearest :: "colour \<Rightarrow> colour list \<Rightarrow> nat \<Rightarrow> bool" where
  "nearest p paints k \<longleftrightarrow> k < 4 \<and> (\<forall>c < 4. weighted p (paints ! k) \<le> weighted p (paints ! c))"

lemma paint_fold_nearest:
  assumes "length ps \<le> 16"
  shows "\<forall>i < length ps. nearest (ps ! i) paints
      (unat (field (snd (fold (paint_step paints) ps (0, 0))) (length ps - 1 - i)))"
  using assms
proof (induction ps rule: rev_induct)
  case (snoc p ps)
  let ?st = "fold (paint_step paints) ps (0, 0)"
  obtain e px where b: "best_paint p paints (push_bit 2 (snd ?st)) = (e, px)" by force
  from best_paint_nearest [OF push_low b] obtain k where k: "k < 4" "px = push_bit 2 (snd ?st) OR of_nat k"
      "\<forall>c < 4. weighted p (paints ! k) \<le> weighted p (paints ! c)" by blast
  have px: "snd (fold (paint_step paints) (ps @ [p]) (0, 0)) = px"
    by (simp add: paint_step_def b split: prod.splits) (metis b prod.inject snd_conv)
  show ?case
  proof (intro allI impI)
    fix i assume i: "i < length (ps @ [p])"
    show "nearest ((ps @ [p]) ! i) paints
        (unat (field (snd (fold (paint_step paints) (ps @ [p]) (0, 0))) (length (ps @ [p]) - 1 - i)))"
    proof (cases "i = length ps")
      case True
      then show ?thesis using k(1,3)
        unfolding px by (simp add: k(2) field_push [OF k(1)] nearest_def unsigned_of_nat take_bit_nat_eq_self)
    next
      case False
      then have "i < length ps" using i by simp
      moreover from this have "length (ps @ [p]) - 1 - i = Suc (length ps - 1 - i)" by simp
      ultimately show ?thesis using snoc
        unfolding px by (simp add: k(2) field_push [OF k(1)] nth_append)
    qed
  qed
qed simp

lemma block_nearest:
  assumes "x < 4" "y < 4"
  shows "nearest (src_pixel src (x * 4 + y)) paints (pix_sel (snd (block_paint src paints)) (4 * y + x))"
proof -
  let ?ps = "[src_pixel src (x * 4 + y). y \<leftarrow> [0..<4], x \<leftarrow> [0..<4]]"
  have "list_all (\<lambda>y. list_all (\<lambda>x. ?ps ! (4 * y + x) = src_pixel src (x * 4 + y)) [0..<4]) [0..<4]"
    by (simp add: upt_4)
  from upt_allD [OF upt_allD [OF this assms(2)] assms(1)]
  have "?ps ! (4 * y + x) = src_pixel src (x * 4 + y)" .
  moreover have "length ?ps = 16" by (simp add: upt_4)
  moreover have "4 * y + x < 16" using assms by simp
  ultimately show ?thesis
    using paint_fold_nearest [of ?ps paints, rule_format, of "4 * y + x"]
    by (simp add: block_paint_fold pix_sel_def field_def)
qed

text \<open>After the search over one candidate table, the index of every pixel names a paint colour at
  the least weighted distance from the source pixel.\<close>

theorem block_paint_nearest:
  assumes "x < 4" "y < 4"
  shows "nearest (src_pixel src (x * 4 + y)) paints (pix_sel (snd (block_paint src paints)) (4 * y + x))"
  by (rule block_nearest [OF assms])

lemma block_paint_nearest_witness:
  "nearest (src_pixel (replicate 64 9) (1 * 4 + 2)) [(0, 0, 0), (8, 8, 8), (16, 16, 16), (255, 255, 255)]
     (pix_sel (snd (block_paint (replicate 64 9) [(0, 0, 0), (8, 8, 8), (16, 16, 16), (255, 255, 255)])) (4 * 2 + 1))"
  by (rule block_paint_nearest) simp_all


section \<open>The loop over the distances\<close>

lemma dist_loop_result:
  assumes "dist_loop eval ds (best, dist, pix) = (best', dist', pix')" "sorted ds" "distinct ds"
  shows "best' \<le> best"
    and "(best', dist', pix') = (best, dist, pix) \<or> dist' \<in> set ds \<and> eval dist' = (best', pix') \<and> best' < best"
    and "\<forall>d \<in> set ds. d \<le> dist' + 1 \<longrightarrow> best' \<le> fst (eval d)"
proof -
  have "best' \<le> best \<and>
      ((best', dist', pix') = (best, dist, pix) \<or> dist' \<in> set ds \<and> eval dist' = (best', pix') \<and> best' < best) \<and>
      (\<forall>d \<in> set ds. d \<le> dist' + 1 \<longrightarrow> best' \<le> fst (eval d))"
    using assms
  proof (induction ds arbitrary: best dist pix)
    case (Cons d ds)
    show ?case
    proof (cases "2 \<le> d \<and> dist = d - 2")
      case True
      then show ?thesis using Cons.prems by auto
    next
      case False
      obtain e px where e: "eval d = (e, px)" by force
      show ?thesis
      proof (cases "e < best")
        case True
        then have "dist_loop eval ds (e, d, px) = (best', dist', pix')" using Cons.prems(1) False e by auto
        from Cons.IH [OF this] Cons.prems(2,3) True e show ?thesis by auto
      next
        case le: False
        then have "dist_loop eval ds (best, dist, pix) = (best', dist', pix')" using Cons.prems(1) False e by auto
        from Cons.IH [OF this] Cons.prems(2,3) le e show ?thesis by auto
      qed
    qed
  qed auto
  then show "best' \<le> best"
    "(best', dist', pix') = (best, dist, pix) \<or> dist' \<in> set ds \<and> eval dist' = (best', pix') \<and> best' < best"
    "\<forall>d \<in> set ds. d \<le> dist' + 1 \<longrightarrow> best' \<le> fst (eval d)" by auto
qed

lemma calculateErrorTH_result:
  assumes "calculateErrorTH tMode src cs dist pix s = (err, d, p)"
  shows "(err, d, p) = (MaxError, dist, pix) \<or>
      s \<le> d \<and> d < 8 \<and> block_paint src (th_paints tMode d cs) = (err, p) \<and> err < MaxError"
    and "\<forall>d'. s \<le> d' \<longrightarrow> d' < 8 \<longrightarrow> d' \<le> d + 1 \<longrightarrow> err \<le> fst (block_paint src (th_paints tMode d' cs))"
proof -
  have "dist_loop (\<lambda>d. block_paint src (th_paints tMode d cs)) [s..<8] (MaxError, dist, pix) = (err, d, p)"
    using assms by (simp add: calculateErrorTH_def th_paints_def Let_def cong: if_cong del: upt_Suc)
  note dist_loop_result [OF this]
  then show "(err, d, p) = (MaxError, dist, pix) \<or>
      s \<le> d \<and> d < 8 \<and> block_paint src (th_paints tMode d cs) = (err, p) \<and> err < MaxError"
    "\<forall>d'. s \<le> d' \<longrightarrow> d' < 8 \<longrightarrow> d' \<le> d + 1 \<longrightarrow> err \<le> fst (block_paint src (th_paints tMode d' cs))"
    by auto
qed

text \<open>C25: The distance loop with its early exit: the result is at least as good as every distance it
  looked at, which are all of them up to one past the best.\<close>

theorem calculateErrorTH_best:
  "case calculateErrorTH tMode src cs 10 pix s of (err, d, p) \<Rightarrow>
     (err = MaxError \<and> d = 10 \<and> p = pix \<or> (err, p) = block_paint src (th_paints tMode d cs) \<and> d \<in> {s..<8}) \<and>
     list_all (\<lambda>d'. err \<le> fst (block_paint src (th_paints tMode d' cs))) [s..<min 8 (d + 2)]"
proof -
  obtain err d p where r: "calculateErrorTH tMode src cs 10 pix s = (err, d, p)" by (metis prod.exhaust)
  from calculateErrorTH_result [OF r] show ?thesis by (auto simp: r list_all_iff)
qed

section \<open>The whole compressor\<close>

lemma nibble_of_int: "0 \<le> v \<Longrightarrow> v \<le> 15 \<Longrightarrow> nibble (word_of_int v)"
  by (rule upto_allD [where P = "\<lambda>v. nibble (word_of_int v)" and a = 0 and b = 15]) (code_simp, simp_all)

lemma quant444_range: "0 \<le> quant444 c \<and> quant444 c \<le> 15"
proof -
  have "0 \<le> 15 * (u + 8) div 255 \<and> 15 * (u + 8) div 255 \<le> 15" if "0 \<le> u" "u \<le> 255" for u :: int
    using that zdiv_mono1 [of "15 * (u + 8)" 3945 255] by (simp add: pos_imp_zdiv_nonneg_iff)
  from this [of "uint c"] show ?thesis using uint_byte_le [of c] by (simp add: quant444_def)
qed

lemma nibbles_compressColor: "nibbles (fst (compressColor cs t))" "nibbles (snd (compressColor cs t))"
proof -
  have n1: "nibble (clampMax (quant444 c) 15)" for c
    using quant444_range [of c] by (auto simp: clampMax_def intro!: nibble_of_int)
  have n2: "nibble (clamp 1 (quant444 c) 14)" for c
    using quant444_range [of c] by (auto simp: clamp_def nibble_def [of 1] nibble_def [of 14] intro!: nibble_of_int)
  show "nibbles (fst (compressColor cs t))" "nibbles (snd (compressColor cs t))"
    by (auto simp: compressColor_def nibbles_def map_colour_def n1 n2 split: prod.splits)
qed


text \<open>What \<open>compressBlockTH\<close> searches, before it packs the result: the mode and the two base colours, the first distance
  that is tried, and the error, the distance and the indices that the search returns.\<close>

definition th_search :: "u8 list \<Rightarrow> u8 list \<Rightarrow> u32 \<Rightarrow> bool \<times> (colour \<times> colour) \<times> nat \<times> u32 \<times> nat \<times> u32" where
  "th_search src luma pix0 = (let
     (luma, pixIdx) = insertionSort luma (map of_nat [0..<16]);
     idx = minSumRangeIdx luma;
     mode = th_mode luma idx;
     cs = compressColor (base_colours src pixIdx idx mode) (fst mode);
     first = startDistCandidate src pixIdx idx mode
   in (fst mode, cs, first, calculateErrorTH (fst mode) src cs 10 pix0 first))"

text \<open>The search has found \<open>d\<close>: no distance that it tried gives a smaller error, and the block shows at every pixel
  the colour, in the table of the shown distance, of an entry that is nearest to the source pixel in the table of \<open>d\<close>.\<close>

definition th_best :: "u8 list \<Rightarrow> bool \<Rightarrow> colour \<times> colour \<Rightarrow> nat \<Rightarrow> u32 \<Rightarrow> nat \<Rightarrow> bool" where
  "th_best src tMode cs first err d \<longleftrightarrow> first \<le> d \<and> d < 8 \<and> err = fst (block_paint src (th_paints tMode d cs)) \<and>
     (\<forall>d' \<in> {first..<min 8 (d + 2)}. err \<le> fst (block_paint src (th_paints tMode d' cs)))"

definition th_decodes :: "u8 list \<Rightarrow> bool \<Rightarrow> u32 \<Rightarrow> u32 \<Rightarrow> colour list \<Rightarrow> colour list \<Rightarrow> bool" where
  "th_decodes src tMode c1 c2 paints shown \<longleftrightarrow> (\<forall>x < 4. \<forall>y < 4. \<exists>k < 4. nearest (src_pixel src (x * 4 + y)) paints k \<and>
     etc_opaque (th_block tMode c1 c2) x y = rgb_of (shown ! k) OR 0xFF000000)"

text \<open>C24: End to end: \<open>compressBlockTH\<close> reports the error and the mode of its search, and unless no distance was better
  than the largest error, the distance that is packed is the best of those tried, and at every pixel the decoder shows
  the entry of its table that is nearest to the source pixel.  One exception: for an H block with equal colours and
  an even distance the entry is taken from the table of the next distance.\<close>

theorem compressBlockTH_decodes:
  "case th_search src luma pix0 of (tMode, cs, first, err, d, p) \<Rightarrow>
     \<exists>c1 c2. compressBlockTH src luma pix0 = (err, c1, c2, tMode) \<and>
       (err = MaxError \<or> th_best src tMode cs first err d \<and>
         th_decodes src tMode c1 c2 (th_paints tMode d cs)
           (th_paints tMode (if \<not> tMode \<and> fst cs = snd cs \<and> even d then d + 1 else d) cs))"
proof -
  obtain luma' pixIdx where sorted: "insertionSort luma (map of_nat [0..<16]) = (luma', pixIdx)" by force
  define idx where "idx = minSumRangeIdx luma'"
  define mode where "mode = th_mode luma' idx"
  define cs where "cs = compressColor (base_colours src pixIdx idx mode) (fst mode)"
  define first where "first = startDistCandidate src pixIdx idx mode"
  obtain err d p where r: "calculateErrorTH (fst mode) src cs 10 pix0 first = (err, d, p)" by (metis prod.exhaust)
  let ?c1 = "fst (packTH (fst mode) cs d p)" and ?c2 = "snd (packTH (fst mode) cs d p)"
  have s: "th_search src luma pix0 = (fst mode, cs, first, err, d, p)"
    by (simp add: th_search_def sorted idx_def [symmetric] mode_def [symmetric] cs_def [symmetric] first_def [symmetric] r Let_def del: upt_Suc)
  have c: "compressBlockTH src luma pix0 = (err, ?c1, ?c2, fst mode)"
    by (simp add: compressBlockTH_def sorted idx_def [symmetric] mode_def [symmetric] cs_def [symmetric] first_def [symmetric] r Let_def
        case_prod_beta del: upt_Suc)
  have n: "nibbles (fst cs)" "nibbles (snd cs)" by (simp_all add: cs_def nibbles_compressColor)
  have "th_best src (fst mode) cs first err d \<and> th_decodes src (fst mode) ?c1 ?c2 (th_paints (fst mode) d cs)
      (th_paints (fst mode) (shown_distance (fst mode) cs d) cs)" if "err \<noteq> MaxError"
  proof
    have found: "first \<le> d" "d < 8" "block_paint src (th_paints (fst mode) d cs) = (err, p)"
      using calculateErrorTH_result(1) [OF r] that by auto
    show "th_best src (fst mode) cs first err d"
      using found calculateErrorTH_result(2) [OF r] unfolding th_best_def by auto
    show "th_decodes src (fst mode) ?c1 ?c2 (th_paints (fst mode) d cs) (th_paints (fst mode) (shown_distance (fst mode) cs d) cs)"
      unfolding th_decodes_def
    proof (intro allI impI)
      fix x y :: nat assume xy: "x < 4" "y < 4"
      have "nearest (src_pixel src (x * 4 + y)) (th_paints (fst mode) d cs) (pix_sel p (4 * y + x))"
        using block_nearest [OF xy, of src "th_paints (fst mode) d cs"] found(3) by simp
      moreover note packed_shown_pixel [OF n found(2) xy, of "fst mode" p]
      ultimately show "\<exists>k < 4. nearest (src_pixel src (x * 4 + y)) (th_paints (fst mode) d cs) k \<and>
          etc_opaque (th_block (fst mode) ?c1 ?c2) x y = rgb_of (th_paints (fst mode) (shown_distance (fst mode) cs d) cs ! k) OR 0xFF000000"
        using pix_sel_less by blast
    qed
  qed
  then show ?thesis unfolding s prod.case shown_distance_def [symmetric] using c by blast
qed

end
