(* ===== verification/Memory.thy ===== *)
theory Memory imports Prelude begin

text \<open>
  Memory as the sources see it on a little-endian machine: the four bytes of a 32-bit word, arrays
  of words read as bytes (the casts \<open>(uint8_t*)buf\<close>), and the vector registers and compiler
  intrinsics that the SSE4.1 and AVX2 branches of the block loops and of the dithering use.  A
  128-bit register is the list of its four 32-bit lanes; a 256-bit register that is only used byte
  by byte is the list of its bytes.
\<close>

section \<open>Bytes of words\<close>

definition word_bytes :: "u32 \<Rightarrow> u8 list" where
  "word_bytes w = map (\<lambda>c. ucast (drop_bit (8 * c) w)) [0..<4]"

definition bytes_of :: "u32 list \<Rightarrow> u8 list" where
  "bytes_of ws = concat (map word_bytes ws)"

definition word_of_bytes :: "u8 list \<Rightarrow> u32" where
  "word_of_bytes b = ucast (b ! 0) OR push_bit 8 (ucast (b ! 1)) OR push_bit 16 (ucast (b ! 2)) OR
     push_bit 24 (ucast (b ! 3))"

text \<open>The words of an array of bytes (\<open>memcpy\<close> into an array of \<open>uint32_t\<close>).\<close>

definition words_of :: "u8 list \<Rightarrow> u32 list" where
  "words_of b = map (\<lambda>k. word_of_bytes (take 4 (drop (4 * k) b))) [0..<length b div 4]"

lemma word_bytes_4 [simp]:
  "word_bytes w = [ucast w, ucast (drop_bit 8 w), ucast (drop_bit 16 w), ucast (drop_bit 24 w)]"
  by (simp add: word_bytes_def upt_4)

lemma word_of_bytes_bytes [simp]: "word_of_bytes (word_bytes w) = w"
  by (rule word32_eqI) (simp add: word_of_bytes_def upt_32 bitwise)

lemma word_bytes_of_word:
  "word_bytes (word_of_bytes [b0, b1, b2, b3]) = [b0, b1, b2, b3]"
proof -
  have "ucast (word_of_bytes [b0, b1, b2, b3]) = b0" "ucast (drop_bit 8 (word_of_bytes [b0, b1, b2, b3])) = b1"
    "ucast (drop_bit 16 (word_of_bytes [b0, b1, b2, b3])) = b2" "ucast (drop_bit 24 (word_of_bytes [b0, b1, b2, b3])) = b3"
    by (rule byte_eqI, simp add: word_of_bytes_def upt_8 bitwise)+
  then show ?thesis by simp
qed

lemma length_bytes_of [simp]: "length (bytes_of ws) = 4 * length ws"
  by (induction ws) (simp_all add: bytes_of_def)

lemma bytes_of_nth:
  assumes "i < length ws" "c < 4"
  shows "bytes_of ws ! (4 * i + c) = ucast (drop_bit (8 * c) (ws ! i))"
  using assms
proof (induction ws arbitrary: i)
  case (Cons w ws)
  show ?case
  proof (cases i)
    case 0
    then show ?thesis using less_4_cases [OF Cons.prems(2)] by (auto simp: bytes_of_def)
  next
    case (Suc k)
    then have "bytes_of (w # ws) ! (4 * i + c) = bytes_of ws ! (4 * k + c)"
      by (simp add: bytes_of_def nth_append)
    then show ?thesis using Cons Suc by simp
  qed
qed simp

lemma take_drop_bytes_of: "k < length ws \<Longrightarrow> take 4 (drop (4 * k) (bytes_of ws)) = word_bytes (ws ! k)"
proof (rule nth_equalityI)
  assume k: "k < length ws"
  then show "length (take 4 (drop (4 * k) (bytes_of ws))) = length (word_bytes (ws ! k))" by simp
  fix c assume "c < length (take 4 (drop (4 * k) (bytes_of ws)))"
  then have c: "c < 4" by simp
  then have "take 4 (drop (4 * k) (bytes_of ws)) ! c = bytes_of ws ! (4 * k + c)"
    using k by (simp add: nth_drop)
  also have "\<dots> = word_bytes (ws ! k) ! c"
    using bytes_of_nth [OF k c] less_4_cases [OF c] by auto
  finally show "take 4 (drop (4 * k) (bytes_of ws)) ! c = word_bytes (ws ! k) ! c" .
qed

lemma words_of_bytes_of: "words_of (bytes_of ws) = ws"
  by (rule nth_equalityI) (simp_all only: words_of_def length_map length_upt length_bytes_of nth_map take_drop_bytes_of
      word_of_bytes_bytes, simp_all add: take_drop_bytes_of del: word_bytes_4)

section \<open>Bytes of 64-bit words\<close>

definition word64_bytes :: "u64 \<Rightarrow> u8 list" where
  "word64_bytes w = map (\<lambda>j. ucast (drop_bit (8 * j) w)) [0..<8]"

definition word64_of_bytes :: "u8 list \<Rightarrow> u64" where
  "word64_of_bytes b = ucast (b ! 0) OR push_bit 8 (ucast (b ! 1)) OR push_bit 16 (ucast (b ! 2)) OR push_bit 24 (ucast (b ! 3)) OR
     push_bit 32 (ucast (b ! 4)) OR push_bit 40 (ucast (b ! 5)) OR push_bit 48 (ucast (b ! 6)) OR push_bit 56 (ucast (b ! 7))"

lemma length_word64_bytes [simp]: "length (word64_bytes w) = 8"
  by (simp add: word64_bytes_def)

lemma word64_of_word64_bytes: "word64_of_bytes (word64_bytes w) = w"
  by (rule word64_eqI) (simp add: word64_of_bytes_def word64_bytes_def upt_64 upt_8 bitwise)

section \<open>Vector registers\<close>

type_synonym m128 = "u32 list"

text \<open>\<open>_mm_loadu_si128\<close>, \<open>_MM_TRANSPOSE4_PS\<close> and \<open>_mm_shuffle_epi8\<close>.\<close>

definition loadu128 :: "u32 list \<Rightarrow> nat \<Rightarrow> m128" where
  "loadu128 src p = map (\<lambda>i. src ! (p + i)) [0..<4]"

definition transpose4 :: "m128 list \<Rightarrow> m128 list" where
  "transpose4 rows = map (\<lambda>i. map (\<lambda>r. r ! i) rows) [0..<4]"

definition shuffle_epi8 :: "m128 \<Rightarrow> m128 \<Rightarrow> m128" where
  "shuffle_epi8 a sel = (let bytes = bytes_of a in
     words_of (map (\<lambda>b. if bit b 7 then 0 else bytes ! unat (b AND 0xF)) (bytes_of sel)))"

definition or_si128 :: "m128 \<Rightarrow> m128 \<Rightarrow> m128" where
  "or_si128 a b = map2 (OR) a b"

text \<open>\<open>_mm256_adds_epu8\<close> and \<open>_mm256_subs_epu8\<close>: unsigned saturation.\<close>

definition adds_epu8 :: "u8 list \<Rightarrow> u8 list \<Rightarrow> u8 list" where
  "adds_epu8 a b = map2 (\<lambda>x y. of_nat (min 255 (unat x + unat y))) a b"

definition subs_epu8 :: "u8 list \<Rightarrow> u8 list \<Rightarrow> u8 list" where
  "subs_epu8 a b = map2 (\<lambda>x y. of_nat (unat x - unat y)) a b"

text \<open>\<open>_mm_packus_epi16\<close>: signed 16-bit lanes saturate to bytes.\<close>

definition packus_epi16 :: "u16 list \<Rightarrow> u8 list" where
  "packus_epi16 s = map (\<lambda>v. if sint v < 0 then 0 else if 255 < sint v then 255 else ucast v) s"

end
