(* ===== verification/BlockLoop.thy ===== *)
theory BlockLoop imports Memory begin

text \<open>
  The loop over the blocks of an image that the compressors of \<open>src/ProcessRGB.cpp\<close> and
  \<open>src/ProcessDxtc.cpp\<close> repeat: a reader fetches the block at \<open>src\<close> and moves to the next block of
  the row, and at the end of the row \<open>src\<close> skips the rows of pixels below the first.  The locale
  \<open>block_reader\<close> is the contract of such a reader; under it the loop visits the blocks in
  row-major order.  The image is the list of its pixels and \<open>src\<close> an index into it.
\<close>

section \<open>The loop\<close>

text \<open>After a block: at the end of a row of blocks \<open>src\<close> skips the three rows of pixels that were
  read below the first.\<close>

definition advance :: "nat \<Rightarrow> nat \<times> nat \<Rightarrow> nat \<times> nat" where
  "advance width pw = (case pw of (p, w) \<Rightarrow> let w = w + 1 in
     if w = width div 4 then (p + width * 3, 0) else (p, w))"

text \<open>\<open>do ... while (--blocks)\<close> on an unsigned 32-bit counter: no block at all means \<open>2 ^ 32\<close>.\<close>

definition loop_count :: "u32 \<Rightarrow> nat" where
  "loop_count blocks = unat (blocks - 1) + 1"

definition loop_step :: "(nat \<Rightarrow> 'b \<times> nat) \<Rightarrow> nat \<Rightarrow> ('b \<Rightarrow> 'o \<Rightarrow> 'o) \<Rightarrow> (nat \<times> nat) \<times> 'o \<Rightarrow> (nat \<times> nat) \<times> 'o" where
  "loop_step gather width emit st = (case st of ((p, w), out) \<Rightarrow>
     case gather p of (b, p) \<Rightarrow> (advance width (p, w), emit b out))"

definition block_loop :: "(nat \<Rightarrow> 'b \<times> nat) \<Rightarrow> nat \<Rightarrow> ('b \<Rightarrow> 'o \<Rightarrow> 'o) \<Rightarrow> u32 \<Rightarrow> 'o \<Rightarrow> 'o" where
  "block_loop gather width emit blocks out =
     snd ((loop_step gather width emit ^^ loop_count blocks) ((0, 0), out))"

section \<open>The blocks of an image\<close>

text \<open>The 16 pixels of the block at \<open>p\<close>, column by column.\<close>

definition block_at :: "(u32 \<Rightarrow> 'a) \<Rightarrow> u32 list \<Rightarrow> nat \<Rightarrow> nat \<Rightarrow> 'a list" where
  "block_at f src width p = map (\<lambda>n. f (src ! (p + width * (n mod 4) + n div 4))) [0..<16]"

lemma block_at_nth:
  assumes "i < 4" "j < 4"
  shows "block_at f src width p ! (4 * i + j) = f (src ! (p + width * j + i))"
proof -
  have "4 * i + j < 16" using assms by simp
  moreover have "(4 * i + j) mod 4 = j" "(4 * i + j) div 4 = i" using assms by simp_all
  ultimately show ?thesis by (simp add: block_at_def del: upt_Suc upt_rec_numeral)
qed

section \<open>The order of the blocks\<close>

text \<open>The contract of a reader: it reads the block at its position and leaves the position of the
  next block in the row.  Under it the loop visits the blocks in row-major order.\<close>

definition block_pos :: "nat \<Rightarrow> nat \<Rightarrow> nat" where
  "block_pos width k = (k div (width div 4)) * (4 * width) + (k mod (width div 4)) * 4"

locale block_reader =
  fixes gather :: "nat \<Rightarrow> 'b \<times> nat" and block :: "nat \<Rightarrow> 'b"
  assumes reads: "gather p = (block p, p + 4)"
begin

lemma advance_pos:
  assumes "width = 4 * n" "0 < n"
  shows "advance width (block_pos width k + 4, k mod n) = (block_pos width (Suc k), Suc k mod n)"
proof (cases "Suc k mod n = 0")
  case True
  then have "Suc (k mod n) = n" "Suc k div n = Suc (k div n)" by (auto simp: mod_Suc div_Suc split: if_splits)
  moreover from this have "k mod n * 4 + 4 = width" using assms(1) by simp
  ultimately show ?thesis using True assms by (simp add: advance_def block_pos_def)
next
  case False
  then have "Suc (k mod n) \<noteq> n" "Suc k mod n = Suc (k mod n)" "Suc k div n = k div n"
    by (auto simp: mod_Suc div_Suc split: if_splits)
  then show ?thesis using assms by (simp add: advance_def block_pos_def)
qed

lemma loop_state:
  assumes "width = 4 * n" "0 < n"
  shows "(loop_step gather width emit ^^ k) ((0, 0), out) =
    ((block_pos width k, k mod n), fold (\<lambda>k. emit (block (block_pos width k))) [0..<k] out)"
proof (induction k)
  case 0
  show ?case by (simp add: block_pos_def)
next
  case (Suc k)
  have step: "loop_step gather width emit ((p, w), out) = (advance width (p + 4, w), emit (block p) out)" for p w out
    by (simp add: loop_step_def reads)
  show ?case by (simp add: Suc step advance_pos [OF assms])
qed

lemma block_loop_fold:
  assumes "width = 4 * n" "0 < n"
  shows "block_loop gather width emit blocks out =
    fold (\<lambda>k. emit (block (block_pos width k))) [0..<loop_count blocks] out"
  by (simp only: block_loop_def loop_state [OF assms] snd_conv)

end

section \<open>Reading within the image\<close>

text \<open>The loop reads four pixels in each of four rows at every position of \<open>src\<close>: none of the reads may pass the
  end of the image.\<close>

definition reads_within :: "u32 list \<Rightarrow> nat \<Rightarrow> u32 \<Rightarrow> bool" where
  "reads_within src width blocks =
     block_loop (\<lambda>p. (p, p + 4)) width (\<lambda>p ok. ok \<and> p + 3 * width + 4 \<le> length src) blocks True"

interpretation pos: block_reader "\<lambda>p. (p, p + 4)" "\<lambda>p. p"
  by unfold_locales (rule refl)

lemma block_pos_mono:
  assumes "width = 4 * n" "0 < n" "k \<le> k'"
  shows "block_pos width k \<le> block_pos width k'"
proof -
  have "block_pos width k \<le> block_pos width (Suc k)" for k
    using pos.advance_pos [OF assms(1,2), of k] by (auto simp: advance_def Let_def split: if_splits)
  then show ?thesis using assms(3) by (rule lift_Suc_mono_le)
qed

lemma reads_within_last:
  assumes "width = 4 * n" "0 < n"
  shows "reads_within src width blocks \<longleftrightarrow> block_pos width (loop_count blocks - 1) + 3 * width + 4 \<le> length src"
proof -
  have "fold (\<lambda>k ok. ok \<and> P k) [0..<m] True \<longleftrightarrow> (\<forall>k < m. P k)" for P and m :: nat
    by (induction m) (auto simp: less_Suc_eq)
  then have "reads_within src width blocks \<longleftrightarrow> (\<forall>k < loop_count blocks. block_pos width k + 3 * width + 4 \<le> length src)"
    unfolding reads_within_def pos.block_loop_fold [OF assms] .
  moreover have "loop_count blocks - 1 < loop_count blocks" by (simp add: loop_count_def)
  moreover have "block_pos width k + 3 * width + 4 \<le> length src"
    if "k < loop_count blocks" "block_pos width (loop_count blocks - 1) + 3 * width + 4 \<le> length src" for k
    using block_pos_mono [OF assms, of k "loop_count blocks - 1"] that by linarith
  ultimately show ?thesis by blast
qed

text \<open>Whole rows of blocks.\<close>

lemma reads_within_rows:
  assumes "width = 4 * n" "0 < n" "0 < l" "loop_count blocks = n * l"
  shows "reads_within src width blocks \<longleftrightarrow> 4 * width * l \<le> length src"
proof -
  obtain i where l: "l = Suc i" using assms(3) by (cases l) auto
  have "n * l - 1 = i * n + (n - 1)" using assms(2) by (simp add: l algebra_simps)
  moreover have "(i * n + r) div n = i" "(i * n + r) mod n = r" if "r < n" for r using that by simp_all
  from this [of "n - 1"] have "(i * n + (n - 1)) div n = i" "(i * n + (n - 1)) mod n = n - 1" using assms(2) by simp_all
  moreover have "width div 4 = n" using assms(1) by simp
  ultimately have "block_pos width (loop_count blocks - 1) = i * (4 * width) + (n - 1) * 4"
    by (simp only: block_pos_def assms(4))
  moreover have "i * (4 * width) + (n - 1) * 4 + 3 * width + 4 = 4 * width * l" using assms(1,2) by (simp add: l algebra_simps)
  ultimately show ?thesis unfolding reads_within_last [OF assms(1,2)] by (simp only:)
qed

text \<open>Block \<open>k\<close> of the image, and the pixel of the image that pixel \<open>(i, j)\<close> of a block is.\<close>

definition image_block :: "(u32 \<Rightarrow> 'a) \<Rightarrow> u32 list \<Rightarrow> nat \<Rightarrow> nat \<Rightarrow> 'a list" where
  "image_block f src width k = block_at f src width (block_pos width k)"

lemma block_pos_pixel:
  assumes "width = 4 * n" "x < width"
  shows "block_pos width (y div 4 * (width div 4) + x div 4) + width * (y mod 4) + x mod 4 = y * width + x"
proof -
  have n: "width div 4 = n" "x div 4 < n" using assms by auto
  have "block_pos width (y div 4 * n + x div 4) = y div 4 * (4 * width) + x div 4 * 4"
    using n by (simp add: block_pos_def)
  moreover have "y div 4 * (4 * width) + x div 4 * 4 + width * (y mod 4) + x mod 4 = y * width + x"
  proof -
    have "y * width + x = (y div 4 * 4 + y mod 4) * width + (x div 4 * 4 + x mod 4)" by simp
    also have "\<dots> = y div 4 * (4 * width) + x div 4 * 4 + width * (y mod 4) + x mod 4"
      by (simp only: algebra_simps)
    finally show ?thesis ..
  qed
  ultimately show ?thesis by (simp add: n(1))
qed

lemma image_block_pixel:
  assumes "width = 4 * n" "x < width"
  shows "image_block f src width (y div 4 * (width div 4) + x div 4) ! (4 * (x mod 4) + y mod 4) = f (src ! (y * width + x))"
  unfolding image_block_def by (subst block_at_nth) (simp_all add: block_pos_pixel [OF assms])

lemma loop_count_exact: "0 < k \<Longrightarrow> k < 2 ^ 32 \<Longrightarrow> loop_count (of_nat k) = k"
proof -
  assume k: "0 < k" "k < 2 ^ 32"
  then obtain m where "k = Suc m" by (cases k) auto
  then have "(of_nat k :: u32) - 1 = of_nat m" by simp
  moreover have "unat (of_nat m :: u32) = m" using k \<open>k = Suc m\<close> by (simp add: unsigned_of_nat take_bit_nat_eq_self)
  ultimately show ?thesis using \<open>k = Suc m\<close> by (simp add: loop_count_def)
qed

lemma fold_append_map: "fold (\<lambda>k dst. dst @ [f k (length dst)]) [0..<m] [] = map (\<lambda>k. f k k) [0..<m]"
  by (induction m) simp_all

lemma fold_append2_map:
  "fold (\<lambda>k dst. let dst = dst @ [g k] in dst @ [f k (length dst)]) [0..<m] [] =
     concat (map (\<lambda>k. [g k, f k (2 * k + 1)]) [0..<m])"
proof (induction m)
  case (Suc m)
  have "length (concat (map (\<lambda>k. [g k, f k (2 * k + 1)]) [0..<m])) = 2 * m" for m
    by (induction m) simp_all
  then show ?case using Suc by (simp add: Let_def)
qed simp

lemma concat_pairs_nth:
  assumes "k < m"
  shows "concat (map (\<lambda>k. [g k, f k]) [0..<m]) ! (2 * k) = g k \<and> concat (map (\<lambda>k. [g k, f k]) [0..<m]) ! (2 * k + 1) = f k"
  using assms
proof (induction m)
  case (Suc m)
  have len: "length (concat (map (\<lambda>k. [g k, f k]) [0..<m])) = 2 * m" for m
    by (induction m) simp_all
  show ?case
  proof (cases "k = m")
    case True
    then show ?thesis by (simp add: nth_append len)
  next
    case False
    then have "k < m" using Suc.prems by simp
    then have "2 * k < 2 * m" "2 * k + 1 < 2 * m" by auto
    then show ?thesis using Suc.IH \<open>k < m\<close> by (simp add: nth_append len)
  qed
qed simp

text \<open>The block of a pixel is one of the blocks that the loop visits.\<close>

lemma pixel_block_visited:
  assumes "w = 4 * n" "h = 4 * m" "n * m < 2 ^ 32" "x < w" "y < h"
  shows "y div 4 * (w div 4) + x div 4 < loop_count (of_nat (n * m))"
proof -
  have wn: "w div 4 = n" "x div 4 < n" "y div 4 < m" using assms by auto
  then have "Suc (y div 4) * n \<le> m * n" by (intro mult_le_mono1) simp
  then have k: "y div 4 * n + x div 4 < n * m" using wn(2) by (simp add: mult.commute)
  then have "loop_count (of_nat (n * m)) = n * m" using assms(3) k by (intro loop_count_exact) linarith+
  then show ?thesis using k by (simp add: wn(1))
qed

end
