(* ===== verification/DxtDecode.thy ===== *)
theory DxtDecode imports EtcDecode begin

text \<open>
  The DXT1 and DXT5 block decoders of \<open>src/BlockData.cpp\<close> and their image loops, on a
  little-endian machine (the byte copies of the source read the low bytes first).
\<close>

section \<open>Colours of a block\<close>

text \<open>A 565 colour widened to eight bits per channel; the shifts are on \<open>int\<close> and the result is
  stored in a \<open>uint8_t\<close>.\<close>

definition dxt_r :: "u16 \<Rightarrow> u8" where
  "dxt_r c = (let c = ucast c :: u32 in ucast (drop_bit 8 (c AND 0xF800) OR drop_bit 13 (c AND 0xF800)))"

definition dxt_g :: "u16 \<Rightarrow> u8" where
  "dxt_g c = (let c = ucast c :: u32 in ucast (drop_bit 3 (c AND 0x07E0) OR drop_bit 9 (c AND 0x07E0)))"

definition dxt_b :: "u16 \<Rightarrow> u8" where
  "dxt_b c = (let c = ucast c :: u32 in ucast (push_bit 3 (c AND 0x001F) OR drop_bit 2 (c AND 0x001F)))"

definition dxt_c0 :: "u64 \<Rightarrow> u16" where
  "dxt_c0 d = ucast d"

definition dxt_c1 :: "u64 \<Rightarrow> u16" where
  "dxt_c1 d = ucast (drop_bit 16 d)"

definition dxt_idx :: "u64 \<Rightarrow> u32" where
  "dxt_idx d = ucast (drop_bit 32 d)"

text \<open>The interpolations \<open>(2*x+y)/3\<close> and \<open>(x+y)/2\<close> on \<open>int\<close>.\<close>

definition third :: "u8 \<Rightarrow> u8 \<Rightarrow> u32" where
  "third x y = word_of_int ((2 * uint x + uint y) div 3)"

definition half :: "u8 \<Rightarrow> u8 \<Rightarrow> u32" where
  "half x y = word_of_int ((uint x + uint y) div 2)"

text \<open>The dictionary of four colours, without the alpha byte.\<close>

definition dxt_colours :: "u64 \<Rightarrow> u32 list" where
  "dxt_colours d = (let
     c0 = dxt_c0 d; c1 = dxt_c1 d;
     r0 = dxt_r c0; g0 = dxt_g c0; b0 = dxt_b c0;
     r1 = dxt_r c1; g1 = dxt_g c1; b1 = dxt_b c1
   in [rgb (ucast r0) (ucast g0) (ucast b0), rgb (ucast r1) (ucast g1) (ucast b1)] @
     (if c0 > c1 then
        [rgb (third r0 r1) (third g0 g1) (third b0 b1),
         rgb (third r1 r0) (third g1 g0) (third b1 b0)]
      else
        [rgb (half r0 r1) (half g0 g1) (half b0 b1), 0]))"

definition dxt1_dict :: "u64 \<Rightarrow> u32 list" where
  "dxt1_dict d = List.map (\<lambda>c. 0xFF000000 OR c) (dxt_colours d)"

text \<open>The alpha dictionary of DXT5; entry \<open>n\<close> is already shifted to the alpha byte.\<close>

definition dxt5_alphas :: "u64 \<Rightarrow> u32 list" where
  "dxt5_alphas a = (let
     a0 = uint (ucast a :: u8); a1 = uint (ucast (drop_bit 8 a) :: u8)
   in List.map (\<lambda>v. push_bit 24 (word_of_int v))
     ([a0, a1] @
      (if a0 > a1 then
         [(6 * a0 + 1 * a1) div 7, (5 * a0 + 2 * a1) div 7, (4 * a0 + 3 * a1) div 7,
          (3 * a0 + 4 * a1) div 7, (2 * a0 + 5 * a1) div 7, (1 * a0 + 6 * a1) div 7]
       else
         [(4 * a0 + 1 * a1) div 5, (3 * a0 + 2 * a1) div 5, (2 * a0 + 3 * a1) div 5,
          (1 * a0 + 4 * a1) div 5, 0, 0xFF])))"

text \<open>The six bytes after the two end points.\<close>

definition dxt5_aidx :: "u64 \<Rightarrow> u64" where
  "dxt5_aidx a = drop_bit 16 a"

section \<open>The unrolled stores\<close>

text \<open>\<open>dst[i]\<close> of row \<open>j\<close> is written from the low bits of the running index words, which are
  shifted after every store.\<close>

definition DecodeDxt1Part :: "u64 \<Rightarrow> u32 list \<Rightarrow> nat \<Rightarrow> nat \<Rightarrow> u32 list" where
  "DecodeDxt1Part d dst base w = (let dict = dxt1_dict d in snd (
     fold (\<lambda>j st. fold (\<lambda>i (idx, dst).
         (drop_bit 2 idx, dst[base + j * w + i := dict ! unat (idx AND 0x3)])) [0..<4] st)
       [0..<4] (dxt_idx d, dst)))"

definition DecodeDxt5Part :: "u64 \<Rightarrow> u64 \<Rightarrow> u32 list \<Rightarrow> nat \<Rightarrow> nat \<Rightarrow> u32 list" where
  "DecodeDxt5Part a d dst base w = (let dict = dxt_colours d; adict = dxt5_alphas a in snd (snd (
     fold (\<lambda>j st. fold (\<lambda>i (aidx, idx, dst).
         (drop_bit 3 aidx, drop_bit 2 idx,
          dst[base + j * w + i := dict ! unat (idx AND 0x3) OR adict ! unat (aidx AND 0x7)])) [0..<4] st)
       [0..<4] (dxt5_aidx a, dxt_idx d, dst))))"

definition DecodeDxt1 :: "u64 list \<Rightarrow> nat \<Rightarrow> nat \<Rightarrow> u32 list \<Rightarrow> u32 list" where
  "DecodeDxt1 src = decode_blocks (\<lambda>k. DecodeDxt1Part (src ! k))"

definition DecodeDxt5 :: "u64 list \<Rightarrow> nat \<Rightarrow> nat \<Rightarrow> u32 list \<Rightarrow> u32 list" where
  "DecodeDxt5 src = decode_blocks (\<lambda>k. DecodeDxt5Part (src ! (2 * k)) (src ! (2 * k + 1)))"

section \<open>Where the pixels go\<close>

definition dxt1_image :: "u64 \<Rightarrow> nat \<Rightarrow> nat \<Rightarrow> u32" where
  "dxt1_image d i j = dxt1_dict d ! unat (drop_bit (2 * (4 * j + i)) (dxt_idx d) AND 0x3)"

definition dxt5_image :: "u64 \<Rightarrow> u64 \<Rightarrow> nat \<Rightarrow> nat \<Rightarrow> u32" where
  "dxt5_image a d i j = dxt_colours d ! unat (drop_bit (2 * (4 * j + i)) (dxt_idx d) AND 0x3) OR
     dxt5_alphas a ! unat (drop_bit (3 * (4 * j + i)) (dxt5_aidx a) AND 0x7)"

abbreviation row_cells :: "(nat \<times> nat) list" where
  "row_cells \<equiv> [(0,0),(1,0),(2,0),(3,0),(0,1),(1,1),(2,1),(3,1),
      (0,2),(1,2),(2,2),(3,2),(0,3),(1,3),(2,3),(3,3)]"

lemma row_cells: "set row_cells = {..<4::nat} \<times> {..<4::nat}"
  by code_simp

lemma DecodeDxt1Part_writes: "writes_block (dxt1_image d) (DecodeDxt1Part d)"
proof (rule store_cells_writes [OF row_cells])
  show "DecodeDxt1Part d dst base w = store_cells (dxt1_image d) row_cells dst base w" for dst base w
    by (simp add: DecodeDxt1Part_def store_cells_def dxt1_image_def upt_4 drop_bit_drop_bit Let_def Suc_Suc_0_is_2)
qed

lemma DecodeDxt5Part_writes: "writes_block (dxt5_image a d) (DecodeDxt5Part a d)"
proof (rule store_cells_writes [OF row_cells])
  show "DecodeDxt5Part a d dst base w = store_cells (dxt5_image a d) row_cells dst base w" for dst base w
    by (simp add: DecodeDxt5Part_def store_cells_def dxt5_image_def upt_4 drop_bit_drop_bit Let_def Suc_Suc_0_is_2)
qed

interpretation dxt1: block_decoder "\<lambda>k. DecodeDxt1Part (src ! k)" "\<lambda>k. dxt1_image (src ! k)" for src
  by unfold_locales (rule DecodeDxt1Part_writes)

interpretation dxt5: block_decoder
    "\<lambda>k. DecodeDxt5Part (src ! (2 * k)) (src ! (2 * k + 1))"
    "\<lambda>k. dxt5_image (src ! (2 * k)) (src ! (2 * k + 1))" for src
  by unfold_locales (rule DecodeDxt5Part_writes)

section \<open>The dictionaries\<close>

lemma length_dxt_colours: "length (dxt_colours d) = 4"
  by (simp add: dxt_colours_def Let_def)

lemma length_dxt5_alphas: "length (dxt5_alphas a) = 8"
  by (simp add: dxt5_alphas_def Let_def)

text \<open>Widening keeps the significant bits: the top bits of the result are the field.\<close>

lemma dxt_r_top: "drop_bit 3 (dxt_r c) = ucast (drop_bit 11 c)"
  unfolding dxt_r_def Let_def
  by (rule byte_eqI) (simp add: bitwise)

lemma dxt_g_top: "drop_bit 2 (dxt_g c) = ucast (drop_bit 5 c AND 0x3F)"
  unfolding dxt_g_def Let_def
  by (rule byte_eqI) (simp add: bitwise)

lemma dxt_b_top: "drop_bit 3 (dxt_b c) = ucast (c AND 0x1F)"
  unfolding dxt_b_def Let_def
  by (rule byte_eqI) (simp add: bitwise)

text \<open>Decoding a DXT image: pixel \<open>(x, y)\<close> of the bitmap is pixel \<open>(x mod 4, y mod 4)\<close> of
  block \<open>(y / 4) * (w / 4) + x / 4\<close>: its colour index, and in DXT5 also its alpha index, picks
  the dictionary entry.\<close>

theorem dxt_image_decoded:
  assumes "w = 4 * n" "h = 4 * m" "length dst = w * h" "x < w" "y < h"
  shows "DecodeDxt1 src w h dst ! (y * w + x) =
      dxt1_image (src ! (y div 4 * (w div 4) + x div 4)) (x mod 4) (y mod 4)
    \<and> DecodeDxt5 src w h dst ! (y * w + x) =
      dxt5_image (src ! (2 * (y div 4 * (w div 4) + x div 4))) (src ! (2 * (y div 4 * (w div 4) + x div 4) + 1))
        (x mod 4) (y mod 4)"
  unfolding DecodeDxt1_def DecodeDxt5_def
  using dxt1.decode_blocks_places(2) [OF assms(1-5)] dxt5.decode_blocks_places(2) [OF assms(1-5)] by blast

theorem dxt_image_decoded_witness:
  "DecodeDxt1 [1, 2, 3, 4, 5, 6, 7, 8] 8 8 (replicate 64 0) ! (5 * 8 + 6) =
      dxt1_image ([1, 2, 3, 4, 5, 6, 7, 8] ! (5 div 4 * (8 div 4) + 6 div 4)) (6 mod 4) (5 mod 4)
    \<and> DecodeDxt5 [1, 2, 3, 4, 5, 6, 7, 8] 8 8 (replicate 64 0) ! (5 * 8 + 6) =
      dxt5_image ([1, 2, 3, 4, 5, 6, 7, 8] ! (2 * (5 div 4 * (8 div 4) + 6 div 4))) ([1, 2, 3, 4, 5, 6, 7, 8] ! (2 * (5 div 4 * (8 div 4) + 6 div 4) + 1))
        (6 mod 4) (5 mod 4)"
  by (rule dxt_image_decoded [where n = 2 and m = 2]) simp_all

end
