(* ===== verification/Dither.thy ===== *)
theory Dither imports Memory EtcMath begin

text \<open>
  Ordered dithering of a block before it is compressed (\<open>src/Dither.cpp\<close>): the scalar loop of
  \<open>Dither\<close>, its AVX2 branch, and \<open>DitherAvx2\<close>, which takes the block in four registers.
  A block is the list of its 64 bytes.
\<close>

text \<open>The Bayer matrices, computed by the compiler with the truncating division of C.\<close>

definition bayer :: "int list" where
  "bayer = [0, 8, 2, 10, 12, 4, 14, 6, 3, 11, 1, 9, 15, 7, 13, 5]"

definition Bayer31 :: "int list" where
  "Bayer31 = map (\<lambda>b. tdiv ((b - 8) * 2) 3) bayer"

definition Bayer63 :: "int list" where
  "Bayer63 = map (\<lambda>b. tdiv ((b - 8) * 2) 6) bayer"

definition dither_channel :: "u8 \<Rightarrow> int \<Rightarrow> u8" where
  "dither_channel v d = clampu8 (word_of_int (uint v + d))"

text \<open>One pixel: the four bytes are read as a word, the fourth is dropped.\<close>

definition dither_pixel :: "u8 list \<Rightarrow> nat \<Rightarrow> u8 list" where
  "dither_pixel data i = (let
     col = word_of_bytes (take 4 (drop (4 * i) data));
     r = ucast (col AND 0xFF) :: u8;
     g = ucast (drop_bit 8 col AND 0xFF) :: u8;
     b = ucast (drop_bit 16 col AND 0xFF) :: u8;
     r = dither_channel r (Bayer31 ! i);
     g = dither_channel g (Bayer63 ! i);
     b = dither_channel b (Bayer31 ! i);
     col = ucast r OR push_bit 8 (ucast g) OR push_bit 16 (ucast b)
   in word_bytes col)"

definition Dither :: "u8 list \<Rightarrow> u8 list" where
  "Dither data = concat (map (dither_pixel data) [0..<16])"

text \<open>The AVX2 branch adds the positive and subtracts the negative entries with saturation.\<close>

definition a31 :: "u8 list" where "a31 = [0, 0, 0, 1, 2, 0, 4, 0, 0, 2, 0, 0, 4, 0, 3, 0]"
definition a63 :: "u8 list" where "a63 = [0, 0, 0, 0, 1, 0, 2, 0, 0, 1, 0, 0, 2, 0, 1, 0]"
definition s31 :: "u8 list" where "s31 = [5, 0, 4, 0, 0, 2, 0, 1, 3, 0, 4, 0, 0, 0, 0, 2]"
definition s63 :: "u8 list" where "s63 = [2, 0, 2, 0, 0, 1, 0, 0, 1, 0, 2, 0, 0, 0, 0, 1]"

definition bayer_lanes :: "u8 list \<Rightarrow> u8 list \<Rightarrow> nat list \<Rightarrow> u8 list" where
  "bayer_lanes t31 t63 is = concat (map (\<lambda>i. [t31 ! i, t63 ! i, t31 ! i, 0]) is)"

definition BayerAdd0 :: "u8 list" where "BayerAdd0 = bayer_lanes a31 a63 [0..<8]"
definition BayerAdd1 :: "u8 list" where "BayerAdd1 = bayer_lanes a31 a63 [8..<16]"
definition BayerSub0 :: "u8 list" where "BayerSub0 = bayer_lanes s31 s63 [0..<8]"
definition BayerSub1 :: "u8 list" where "BayerSub1 = bayer_lanes s31 s63 [8..<16]"

definition Dither_AVX2 :: "u8 list \<Rightarrow> u8 list" where
  "Dither_AVX2 data = (let
     px0 = take 32 data; px1 = take 32 (drop 32 data);
     a0 = adds_epu8 px0 BayerAdd0; a1 = adds_epu8 px1 BayerAdd1;
     s0 = subs_epu8 a0 BayerSub0; s1 = subs_epu8 a1 BayerSub1
   in s0 @ s1)"

definition DitherAvx2 :: "m128 \<Rightarrow> m128 \<Rightarrow> m128 \<Rightarrow> m128 \<Rightarrow> u8 list" where
  "DitherAvx2 px0 px1 px2 px3 = (let
     l0 = bytes_of px0 @ bytes_of px1; l1 = bytes_of px2 @ bytes_of px3;
     a0 = adds_epu8 l0 BayerAdd0; a1 = adds_epu8 l1 BayerAdd1;
     s0 = subs_epu8 a0 BayerSub0; s1 = subs_epu8 a1 BayerSub1
   in s0 @ s1)"

section \<open>The tables\<close>

lemma bayer_tables:
  "Bayer31 = [-5, 0, -4, 1, 2, -2, 4, -1, -3, 2, -4, 0, 4, 0, 3, -2]"
  "Bayer63 = [-2, 0, -2, 0, 1, -1, 2, 0, -1, 1, -2, 0, 2, 0, 1, -1]"
  by (simp_all add: Bayer31_def Bayer63_def bayer_def tdiv_def)

lemma bayer_split:
  "list_all (\<lambda>i. Bayer31 ! i = int (unat (a31 ! i)) - int (unat (s31 ! i)) \<and>
     Bayer63 ! i = int (unat (a63 ! i)) - int (unat (s63 ! i)) \<and>
     (unat (a31 ! i) = 0 \<or> unat (s31 ! i) = 0) \<and> (unat (a63 ! i) = 0 \<or> unat (s63 ! i) = 0)) [0..<16]"
  unfolding upt_16 by (simp add: bayer_tables a31_def s31_def a63_def s63_def)

text \<open>The change of channel \<open>c\<close> of pixel \<open>i\<close> (no change of the fourth byte).\<close>

definition bayer_delta :: "nat \<Rightarrow> nat \<Rightarrow> int" where
  "bayer_delta i c = (if c = 1 then Bayer63 ! i else Bayer31 ! i)"

lemma bayer_delta_bounds: "i < 16 \<Longrightarrow> \<bar>bayer_delta i c\<bar> \<le> 5"
proof -
  have "list_all (\<lambda>i. \<bar>bayer_delta i c\<bar> \<le> 5) [0..<16]"
    unfolding upt_16 by (simp add: bayer_delta_def bayer_tables)
  then show "i < 16 \<Longrightarrow> ?thesis" by (rule upt_allD)
qed

section \<open>The scalar loop\<close>

lemma length_concat_four: "(\<And>i. i < n \<Longrightarrow> length (f i) = 4) \<Longrightarrow> length (concat (map f [0..<n])) = 4 * n"
  by (induction n) auto

lemma nth_concat_four:
  assumes "\<And>i. i < n \<Longrightarrow> length (f i) = 4" "i < n" "c < 4"
  shows "concat (map f [0..<n]) ! (4 * i + c) = f i ! c"
  using assms
proof (induction n)
  case (Suc n)
  have len: "length (concat (map f [0..<n])) = 4 * n"
    using Suc.prems(1) by (intro length_concat_four) simp
  show ?case
  proof (cases "i = n")
    case True
    then show ?thesis by (simp add: nth_append len)
  next
    case False
    then have "4 * i + c < 4 * n" using Suc.prems by simp
    then show ?thesis using Suc False by (simp add: nth_append len)
  qed
qed simp

lemma dither_channel_value:
  assumes "\<bar>d\<bar> \<le> 5"
  shows "uint (dither_channel v d) = max 0 (min 255 (uint v + d))"
proof -
  have b: "\<bar>uint v + d\<bar> \<le> 260" using assms uint_byte_le [of v] uint_nonnegative [of v] by linarith
  have "sint (word_of_int x :: u32) = x" if "\<bar>x\<bar> \<le> 260" for x
    using that by (simp add: signed_of_int signed_take_bit_int_eq_self)
  from this [OF b] have "sint (word_of_int (uint v + d) :: u32) = uint v + d" .
  then show ?thesis by (simp only: dither_channel_def clampu8_value)
qed

lemma dither_pixel_bytes:
  assumes "i < 16" "length data = 64"
  shows "dither_pixel data i = [dither_channel (data ! (4 * i)) (Bayer31 ! i),
     dither_channel (data ! (4 * i + 1)) (Bayer63 ! i), dither_channel (data ! (4 * i + 2)) (Bayer31 ! i), 0]"
proof -
  have t: "take 4 (drop (4 * i) data) = [data ! (4 * i), data ! (4 * i + 1), data ! (4 * i + 2), data ! (4 * i + 3)]"
    using assms by (intro nth_equalityI) (auto simp: nth_drop less_Suc_eq numeral_nat)
  have w: "word_of_bytes [b0, b1, b2, b3] AND 0xFF = ucast b0"
     "drop_bit 8 (word_of_bytes [b0, b1, b2, b3]) AND 0xFF = ucast b1"
     "drop_bit 16 (word_of_bytes [b0, b1, b2, b3]) AND 0xFF = ucast b2" for b0 b1 b2 b3
    by (rule word32_eqI, simp add: word_of_bytes_def upt_32 bitwise)+
  have b: "word_bytes (ucast x OR push_bit 8 (ucast y) OR push_bit 16 (ucast z)) = [x, y, z, 0]" for x y z :: u8
    using word_bytes_of_word [of x y z 0] by (simp only: word_of_bytes_def nth_Cons_0 nth_Cons_numeral, simp)
  have u: "ucast (ucast x :: u32) = x" for x :: u8
    by (rule byte_eqI) (simp add: upt_8 bitwise)
  show ?thesis
    unfolding dither_pixel_def Let_def t w u by (rule b)
qed

lemma length_Dither: "length (Dither data) = 64"
  by (simp add: Dither_def dither_pixel_def Let_def length_concat upt_16)


lemma Dither_nth:
  assumes "length data = 64" "i < 16" "c < 3"
  shows "Dither data ! (4 * i + c) = dither_channel (data ! (4 * i + c)) (bayer_delta i c)"
proof -
  have "Dither data ! (4 * i + c) = dither_pixel data i ! c"
    unfolding Dither_def using assms by (intro nth_concat_four) (simp_all add: dither_pixel_bytes)
  then show ?thesis
    using less_3_cases [OF assms(3)] by (auto simp: dither_pixel_bytes [OF assms(2,1)] bayer_delta_def)
qed

lemma Dither_alpha:
  assumes "length data = 64" "i < 16"
  shows "Dither data ! (4 * i + 3) = 0"
  unfolding Dither_def using assms by (subst nth_concat_four) (simp_all add: dither_pixel_bytes)

section \<open>The AVX2 branch\<close>

lemma saturate_nat:
  "a = 0 \<or> s = 0 \<Longrightarrow> v \<le> 255 \<Longrightarrow> int (min 255 (v + a) - s) = max 0 (min 255 (int v + (int a - int s)))"
  for a s v :: nat
  by linarith

lemma saturate_both:
  fixes v a s :: u8
  assumes "unat a = 0 \<or> unat s = 0"
  shows "uint (of_nat (unat (of_nat (min 255 (unat v + unat a)) :: u8) - unat s) :: u8) =
     max 0 (min 255 (uint v + (int (unat a) - int (unat s))))"
proof -
  have m: "unat (of_nat (min 255 k) :: u8) = min 255 k" for k
    by (simp add: unsigned_of_nat take_bit_nat_eq_self)
  have u: "uint (of_nat (min 255 k - j) :: u8) = int (min 255 k - j)" for k j
    by (simp add: unsigned_of_nat take_bit_nat_eq_self)
  show ?thesis unfolding m u uint_nat [of v] by (rule saturate_nat [OF assms unat_byte_le])
qed

lemma upt_add_shift: "[m..<m + n] = map (\<lambda>i. m + i) [0..<n]"
  by (rule nth_equalityI) simp_all

lemma bayer_lanes_nth:
  assumes "i < n" "c < 4"
  shows "bayer_lanes t31 t63 [m..<m + n] ! (4 * i + c) =
     (if c = 1 then t63 ! (m + i) else if c = 3 then 0 else t31 ! (m + i))"
proof -
  have "bayer_lanes t31 t63 [m..<m + n] = concat (map (\<lambda>i. [t31 ! (m + i), t63 ! (m + i), t31 ! (m + i), 0]) [0..<n])"
    unfolding bayer_lanes_def by (subst upt_add_shift) (simp add: comp_def)
  then show ?thesis using less_4_cases [OF assms(2)] assms by (auto simp: nth_concat_four)
qed

lemma sat_step_nth:
  assumes "k < length px" "k < length add" "k < length sub"
  shows "subs_epu8 (adds_epu8 px add) sub ! k =
     of_nat (unat (of_nat (min 255 (unat (px ! k) + unat (add ! k))) :: u8) - unat (sub ! k))"
  using assms by (simp add: subs_epu8_def adds_epu8_def)

lemma length_bayer_lanes: "length (bayer_lanes t31 t63 is) = 4 * length is"
  by (induction "is") (simp_all add: bayer_lanes_def)

text \<open>One half of the block: pixels \<open>m\<close> to \<open>m + 7\<close>.\<close>

lemma dither_half:
  assumes "length px = 32" "m + 8 \<le> 16" "i < 8" "c < 4"
  shows "subs_epu8 (adds_epu8 px (bayer_lanes a31 a63 [m..<m + 8])) (bayer_lanes s31 s63 [m..<m + 8]) ! (4 * i + c) =
     (if c = 3 then px ! (4 * i + 3) else dither_channel (px ! (4 * i + c)) (bayer_delta (m + i) c))"
proof -
  let ?v = "px ! (4 * i + c)" and ?k = "m + i"
  let ?a = "if c = 1 then a63 ! ?k else if c = 3 then 0 else a31 ! ?k"
  let ?s = "if c = 1 then s63 ! ?k else if c = 3 then 0 else s31 ! ?k"
  have k: "4 * i + c < 32" "?k < 16" using assms by simp_all
  have sp: "Bayer31 ! ?k = int (unat (a31 ! ?k)) - int (unat (s31 ! ?k))" "Bayer63 ! ?k = int (unat (a63 ! ?k)) - int (unat (s63 ! ?k))"
    "unat (a31 ! ?k) = 0 \<or> unat (s31 ! ?k) = 0" "unat (a63 ! ?k) = 0 \<or> unat (s63 ! ?k) = 0"
    using upt_allD [OF bayer_split k(2)] by (simp_all only:)
  have z: "unat ?a = 0 \<or> unat ?s = 0"
    by (cases "c = 1"; cases "c = 3") (use sp(3,4) in blast | simp)+
  have "subs_epu8 (adds_epu8 px (bayer_lanes a31 a63 [m..<m + 8])) (bayer_lanes s31 s63 [m..<m + 8]) ! (4 * i + c) =
      of_nat (unat (of_nat (min 255 (unat ?v + unat ?a)) :: u8) - unat ?s)"
  proof (subst sat_step_nth)
    show "4 * i + c < length px" "4 * i + c < length (bayer_lanes a31 a63 [m..<m + 8])"
      "4 * i + c < length (bayer_lanes s31 s63 [m..<m + 8])"
      using k(1) assms(1) by (simp_all add: length_bayer_lanes del: upt_Suc upt_rec_numeral)
  qed (simp only: bayer_lanes_nth [OF assms(3,4)])
  also have "\<dots> = (if c = 3 then ?v else dither_channel ?v (bayer_delta ?k c))"
  proof (rule word_uint_eqI)
    have u: "uint (of_nat (unat (of_nat (min 255 (unat ?v + unat ?a)) :: u8) - unat ?s) :: u8) =
       max 0 (min 255 (uint ?v + (int (unat ?a) - int (unat ?s))))" by (rule saturate_both [OF z])
    show "uint (of_nat (unat (of_nat (min 255 (unat ?v + unat ?a)) :: u8) - unat ?s) :: u8) =
       uint (if c = 3 then ?v else dither_channel ?v (bayer_delta ?k c))"
    proof (cases "c = 3")
      case True
      then show ?thesis unfolding u using uint_byte_le [of ?v] by simp
    next
      case False
      then have "int (unat ?a) - int (unat ?s) = bayer_delta ?k c" by (simp only: bayer_delta_def sp if_False split: if_splits) simp
      then show ?thesis unfolding u using False dither_channel_value [OF bayer_delta_bounds [OF k(2)]] by simp
    qed
  qed
  finally show ?thesis by (cases "c = 3") simp_all
qed

lemma Dither_AVX2_nth:
  assumes "length data = 64" "i < 16" "c < 4"
  shows "Dither_AVX2 data ! (4 * i + c) =
     (if c = 3 then data ! (4 * i + 3) else dither_channel (data ! (4 * i + c)) (bayer_delta i c))"
proof -
  define h where "h px m = subs_epu8 (adds_epu8 px (bayer_lanes a31 a63 [m..<m + 8])) (bayer_lanes s31 s63 [m..<m + 8])"
    for px m
  have half: "h px m ! (4 * i + c) =
      (if c = 3 then px ! (4 * i + 3) else dither_channel (px ! (4 * i + c)) (bayer_delta (m + i) c))"
    if "length px = 32" "m + 8 \<le> 16" "i < 8" for px m i
    unfolding h_def by (rule dither_half [OF that assms(3)])
  have split: "Dither_AVX2 data = h (take 32 data) 0 @ h (take 32 (drop 32 data)) 8"
    by (simp add: h_def Dither_AVX2_def Let_def BayerAdd0_def BayerAdd1_def BayerSub0_def BayerSub1_def del: upt_rec_numeral)
  have len: "length (h (take 32 data) 0) = 32"
    using assms(1) by (simp add: h_def subs_epu8_def adds_epu8_def length_bayer_lanes del: upt_rec_numeral)
  show ?thesis
  proof (cases "i < 8")
    case True
    then have "Dither_AVX2 data ! (4 * i + c) = h (take 32 data) 0 ! (4 * i + c)"
      using assms by (simp add: split nth_append len)
    then show ?thesis using half [of "take 32 data" 0 i] True assms by simp
  next
    case False
    define k where "k = i - 8"
    then have k: "i = 8 + k" "k < 8" using False assms by auto
    have "Dither_AVX2 data ! (4 * i + c) = h (take 32 (drop 32 data)) 8 ! (4 * k + c)"
      using k(1) by (simp add: split nth_append len)
    moreover have "take 32 (drop 32 data) ! (4 * k + e) = data ! (4 * i + e)" if "e < 4" for e
      using assms(1) k that by (simp add: add.assoc)
    ultimately show ?thesis using half [of "take 32 (drop 32 data)" 8 k] k assms by simp
  qed
qed

section \<open>Properties of the dithering\<close>

text \<open>The form for registers is the one for the bytes they hold.\<close>

lemma DitherAvx2_registers:
  assumes "length px0 = 4" "length px1 = 4" "length px2 = 4" "length px3 = 4"
  shows "DitherAvx2 px0 px1 px2 px3 = Dither_AVX2 (bytes_of (px0 @ px1 @ px2 @ px3))"
proof -
  have app: "bytes_of (xs @ ys) = bytes_of xs @ bytes_of ys" for xs ys by (simp add: bytes_of_def)
  have "take 32 (bytes_of (px0 @ px1 @ px2 @ px3)) = bytes_of px0 @ bytes_of px1"
    "take 32 (drop 32 (bytes_of (px0 @ px1 @ px2 @ px3))) = bytes_of px2 @ bytes_of px3"
    by (simp_all add: app assms)
  then show ?thesis by (simp add: DitherAvx2_def Dither_AVX2_def)
qed

lemma dither_channel_word: "\<bar>d\<bar> \<le> 5 \<Longrightarrow> dither_channel v d = word_of_int (max 0 (min 255 (uint v + d)))"
  using dither_channel_value [of d v] by (metis word_of_int_uint)

text \<open>C30: The three forms of dithering: the scalar loop of \<open>Dither\<close>, its AVX2 branch and \<open>DitherAvx2\<close>, which takes the
  block in four registers, all change a colour byte by the entry of the Bayer matrix for its pixel, with
  saturation; on the fourth byte they differ, the scalar loop clears it and the two others keep it.\<close>

theorem dither_branches_agree:
  assumes "length px0 = 4" "length px1 = 4" "length px2 = 4" "length px3 = 4" "i < 16" "c < 4"
  shows "let data = bytes_of (px0 @ px1 @ px2 @ px3); old = data ! (4 * i + c);
      new = word_of_int (max 0 (min 255 (uint old + (if c = 1 then Bayer63 ! i else Bayer31 ! i))))
    in Dither data ! (4 * i + c) = (if c = 3 then 0 else new) \<and>
      Dither_AVX2 data ! (4 * i + c) = (if c = 3 then old else new) \<and>
      DitherAvx2 px0 px1 px2 px3 ! (4 * i + c) = (if c = 3 then old else new)"
proof -
  let ?data = "bytes_of (px0 @ px1 @ px2 @ px3)"
  have len: "length ?data = 64" using assms(1-4) by simp
  have d: "dither_channel v (bayer_delta i c) = word_of_int (max 0 (min 255 (uint v + (if c = 1 then Bayer63 ! i else Bayer31 ! i))))" for v
    using dither_channel_word [OF bayer_delta_bounds [OF assms(5)]] by (simp only: bayer_delta_def)
  show ?thesis
  proof (cases "c = 3")
    case True
    then show ?thesis
      using Dither_alpha [OF len assms(5)] Dither_AVX2_nth [OF len assms(5,6)] by (simp add: DitherAvx2_registers assms(1-4) Let_def)
  next
    case False
    then have "c < 3" using assms(6) by simp
    from Dither_nth [OF len assms(5) this] Dither_AVX2_nth [OF len assms(5,6)] False show ?thesis
      unfolding Let_def d DitherAvx2_registers [OF assms(1-4)] by simp
  qed
qed

lemma dither_branches_agree_witness:
  "let data = bytes_of ([1, 2, 3, 4] @ [5, 6, 7, 8] @ [9, 0, 1, 2] @ [3, 4, 5, 6]); old = data ! (4 * 3 + 1);
      new = word_of_int (max 0 (min 255 (uint old + (if (1 :: nat) = 1 then Bayer63 ! 3 else Bayer31 ! 3))))
    in Dither data ! (4 * 3 + 1) = (if (1 :: nat) = 3 then 0 else new) \<and>
      Dither_AVX2 data ! (4 * 3 + 1) = (if (1 :: nat) = 3 then old else new) \<and>
      DitherAvx2 [1, 2, 3, 4] [5, 6, 7, 8] [9, 0, 1, 2] [3, 4, 5, 6] ! (4 * 3 + 1) = (if (1 :: nat) = 3 then old else new)"
  by (rule dither_branches_agree) simp_all

text \<open>Dithering moves a colour byte by the entry of the Bayer matrix for its pixel, at most 5 either
  way, and saturates: it never wraps around.\<close>

theorem dither_saturates:
  assumes "length data = 64" "i < 16" "c < 3"
  shows "uint (Dither data ! (4 * i + c)) = max 0 (min 255 (uint (data ! (4 * i + c)) + bayer_delta i c))
    \<and> \<bar>uint (Dither data ! (4 * i + c)) - uint (data ! (4 * i + c))\<bar> \<le> 5"
proof -
  note b = bayer_delta_bounds [OF assms(2), of c]
  have v: "uint (Dither data ! (4 * i + c)) = max 0 (min 255 (uint (data ! (4 * i + c)) + bayer_delta i c))"
    unfolding Dither_nth [OF assms] by (rule dither_channel_value [OF b])
  have "\<bar>max 0 (min 255 (x + d)) - x\<bar> \<le> 5" if "0 \<le> x" "x \<le> 255" "\<bar>d\<bar> \<le> 5" for x d :: int
    using that by linarith
  from this [OF uint_nonnegative uint_byte_le b, of "data ! (4 * i + c)"] v show ?thesis by simp
qed

lemma dither_saturates_witness:
  "uint (Dither (replicate 64 253) ! (4 * 6 + 0)) = max 0 (min 255 (uint (replicate 64 (253 :: u8) ! (4 * 6 + 0)) + bayer_delta 6 0))
    \<and> \<bar>uint (Dither (replicate 64 253) ! (4 * 6 + 0)) - uint (replicate 64 (253 :: u8) ! (4 * 6 + 0))\<bar> \<le> 5"
  by (rule dither_saturates) simp_all

end
