(* ===== verification/DxtEncode.thy ===== *)
theory DxtEncode imports BlockLoop DxtTables DxtDecode Dither begin

text \<open>
  The DXT1 and DXT5 compressors of \<open>src/ProcessDxtc.cpp\<close> in their scalar form: \<open>to565\<close>,
  \<open>ProcessRGB\<close> (here \<open>ProcessRGB_dxt\<close>), \<open>ProcessAlpha\<close>, and the block loops \<open>CompressDxt1\<close>,
  \<open>CompressDxt1Dither\<close> and \<open>CompressDxt5\<close>.  A block is the list of its 64 bytes, row by row.
\<close>

section \<open>Colours\<close>

definition to565 :: "u8 \<Rightarrow> u8 \<Rightarrow> u8 \<Rightarrow> u16" where
  "to565 r g b = push_bit 8 (ucast (r AND 0xF8)) OR push_bit 3 (ucast (g AND 0xFC)) OR ucast (drop_bit 3 b)"

definition to565_word :: "u32 \<Rightarrow> u16" where
  "to565_word c = ucast (drop_bit 19 (c AND 0xF80000) OR drop_bit 5 (c AND 0x00FC00) OR push_bit 8 (c AND 0x0000F8))"

text \<open>The smallest and the largest value of every channel.\<close>

definition dxt_minmax :: "u8 list \<Rightarrow> u8 list \<times> u8 list" where
  "dxt_minmax src = fold (\<lambda>i mm. fold (\<lambda>j (mn, mx). let v = src ! (4 * i + j) in
       if v < mn ! j then (mn[j := v], mx) else if v > mx ! j then (mn, mx[j := v]) else (mn, mx)) [0..<3] mm)
     [1..<16] ([src ! 0, src ! 1, src ! 2], [src ! 0, src ! 1, src ! 2])"

text \<open>The end points are moved inwards by a sixteenth of the range.\<close>

definition dxt_inset :: "u8 list \<times> u8 list \<Rightarrow> u8 list \<times> u8 list" where
  "dxt_inset mm = fold (\<lambda>i (mn, mx). let inset = word_of_int (drop_bit 4 (uint (mx ! i) - uint (mn ! i))) in
     (mn[i := mn ! i + inset], mx[i := mx ! i - inset])) [0..<3] mm"

definition dxt_range :: "u8 list \<times> u8 list \<Rightarrow> u32" where
  "dxt_range mm = (case mm of (mn, mx) \<Rightarrow> word_of_int (DivTable ! nat (
     uint (mx ! 0) - uint (mn ! 0) + uint (mx ! 1) - uint (mn ! 1) + uint (mx ! 2) - uint (mn ! 2))))"

definition dxt_rmin :: "u8 list \<Rightarrow> u32" where
  "dxt_rmin mn = word_of_int (uint (mn ! 0) + uint (mn ! 1) + uint (mn ! 2))"

definition dxt_pixel_index :: "u8 list \<Rightarrow> u32 \<Rightarrow> u32 \<Rightarrow> nat \<Rightarrow> u8" where
  "dxt_pixel_index src rng rmin i = (let
     c = word_of_int (uint (src ! (4 * i)) + uint (src ! (4 * i + 1)) + uint (src ! (4 * i + 2))) - rmin
   in ucast (drop_bit 16 (c * rng)))"

definition dxt_data :: "u8 list \<Rightarrow> u32 \<Rightarrow> u32 \<Rightarrow> u32" where
  "dxt_data src rng rmin = fold (\<lambda>i data. data OR push_bit (i * 2) (ucast (dxt_pixel_index src rng rmin i))) [0..<16] 0"

definition dxt_solid :: "u8 list \<Rightarrow> bool" where
  "dxt_solid src \<longleftrightarrow> list_all (\<lambda>i. word_of_bytes (take 4 (drop (4 * i) src)) AND 0xF8FCF8 =
     word_of_bytes (take 4 src) AND 0xF8FCF8) [1..<16]"

definition ProcessRGB_dxt :: "u8 list \<Rightarrow> u64" where
  "ProcessRGB_dxt src = (
     if dxt_solid src then push_bit 16 (ucast (to565_word (word_of_bytes (take 4 src))))
     else let
       mm = dxt_minmax src;
       rng = dxt_range mm;
       rmin = dxt_rmin (fst mm);
       (mn, mx) = dxt_inset mm;
       data = dxt_data src rng rmin
     in push_bit 16 (ucast (to565 (mn ! 0) (mn ! 1) (mn ! 2))) OR ucast (to565 (mx ! 0) (mx ! 1) (mx ! 2)) OR
        push_bit 32 (ucast data))"

section \<open>Alpha\<close>

definition alpha_minmax :: "u8 list \<Rightarrow> u8 \<times> u8" where
  "alpha_minmax src = fold (\<lambda>i (mn, mx). let v = src ! i in
     if v > mx then (mn, v) else if v < mn then (v, mx) else (mn, mx)) [1..<16] (src ! 0, src ! 0)"

definition alpha_range :: "u8 \<Rightarrow> u8 \<Rightarrow> u32" where
  "alpha_range mn mx = word_of_int (push_bit 13 8 div (1 + uint mx - uint mn))"

definition alpha_index :: "u8 list \<Rightarrow> u8 \<Rightarrow> u32 \<Rightarrow> nat \<Rightarrow> u64" where
  "alpha_index src mn rng i = (let a = src ! i - mn in
     word_of_int (AlphaIndexTable ! unat (drop_bit 13 (ucast a * rng))))"

definition alpha_data :: "u8 list \<Rightarrow> u8 \<Rightarrow> u32 \<Rightarrow> u64" where
  "alpha_data src mn rng = fold (\<lambda>i data. data OR push_bit (i * 3) (alpha_index src mn rng i)) [0..<16] 0"

definition ProcessAlpha :: "u8 list \<Rightarrow> u64" where
  "ProcessAlpha src = (
     if list_all (\<lambda>i. src ! i = src ! 0) [0..<16] then ucast (src ! 0)
     else let
       (mn, mx) = alpha_minmax src;
       rng = alpha_range mn mx
     in ucast mx OR push_bit 8 (ucast mn) OR push_bit 16 (alpha_data src mn rng))"

section \<open>The block loops\<close>

text \<open>Four rows of four pixels are copied one after the other.\<close>

definition copy_rows :: "u32 list \<Rightarrow> nat \<Rightarrow> nat \<Rightarrow> u32 list \<times> nat" where
  "copy_rows src width p = (concat (map (\<lambda>r. map (\<lambda>i. src ! (p + width * r + i)) [0..<4]) [0..<4]), p + 4)"

text \<open>The last four bytes of a block go through the index table.\<close>

definition fix_indices :: "u64 \<Rightarrow> u64" where
  "fix_indices c = (let
     fix = map (\<lambda>j. ucast (drop_bit (8 * j) c) :: u8) [0..<8];
     fix = fold (\<lambda>j fix. fix[j := DxtcIndexTable ! unat (fix ! j)]) [4..<8] fix
   in fold (\<lambda>j v. v OR push_bit (8 * j) (ucast (fix ! j))) [0..<8] 0)"

definition CompressDxt1 :: "u32 list \<Rightarrow> u32 \<Rightarrow> nat \<Rightarrow> u64 list" where
  "CompressDxt1 src blocks width =
     block_loop (copy_rows src width) width (\<lambda>buf dst. dst @ [fix_indices (ProcessRGB_dxt (bytes_of buf))]) blocks []"

definition CompressDxt1Dither :: "u32 list \<Rightarrow> u32 \<Rightarrow> nat \<Rightarrow> u64 list" where
  "CompressDxt1Dither src blocks width =
     block_loop (copy_rows src width) width
       (\<lambda>buf dst. dst @ [fix_indices (ProcessRGB_dxt (Dither (bytes_of buf)))]) blocks []"

definition split_alpha :: "u32 list \<Rightarrow> u8 list \<times> u32 list" where
  "split_alpha rgba = (map (\<lambda>v. ucast (drop_bit 24 v)) rgba, map (\<lambda>v. v AND 0xFFFFFF) rgba)"

definition CompressDxt5 :: "u32 list \<Rightarrow> u32 \<Rightarrow> nat \<Rightarrow> u64 list" where
  "CompressDxt5 src blocks width =
     block_loop (copy_rows src width) width
       (\<lambda>buf dst. case split_alpha buf of (alpha, rgba) \<Rightarrow>
          let dst = dst @ [ProcessAlpha alpha] in dst @ [fix_indices (ProcessRGB_dxt (bytes_of rgba))]) blocks []"

section \<open>Extremes of the channels\<close>

text \<open>After a fold over the pixels the stored values of each channel bound all of them and are
  attained.\<close>

definition extremes :: "u8 list \<Rightarrow> nat \<Rightarrow> u8 list \<times> u8 list \<Rightarrow> bool" where
  "extremes src n mm \<longleftrightarrow> length (fst mm) = 3 \<and> length (snd mm) = 3 \<and> (\<forall>c < 3.
     (\<forall>i < n. fst mm ! c \<le> src ! (4 * i + c) \<and> src ! (4 * i + c) \<le> snd mm ! c) \<and>
     (\<exists>i < n. fst mm ! c = src ! (4 * i + c)) \<and> (\<exists>i < n. snd mm ! c = src ! (4 * i + c)))"

lemma length_3_cases: "length xs = 3 \<Longrightarrow> \<exists>a b c. xs = [a, b, c]"
  by (auto simp: numeral_eq_Suc length_Suc_conv)

lemma dxt_minmax_step:
  assumes "extremes src n (mn, mx)" "0 < n"
  shows "fold (\<lambda>j (mn, mx). let v = src ! (4 * n + j) in
       if v < mn ! j then (mn[j := v], mx) else if v > mx ! j then (mn, mx[j := v]) else (mn, mx)) [0..<3] (mn, mx) =
     (map (\<lambda>c. min (src ! (4 * n + c)) (mn ! c)) [0..<3], map (\<lambda>c. max (src ! (4 * n + c)) (mx ! c)) [0..<3])"
proof -
  obtain a b c d e f where mm: "mn = [a, b, c]" "mx = [d, e, f]"
    using assms(1) length_3_cases [of mn] length_3_cases [of mx] by (auto simp: extremes_def)
  have le: "mn ! k \<le> mx ! k" if "k < 3" for k
    using assms that unfolding extremes_def fst_conv snd_conv by (meson order.trans)
  have le: "a \<le> d" "b \<le> e" "c \<le> f" using le [of 0] le [of 1] le [of 2] by (simp_all add: mm)
  let ?f = "\<lambda>j (mn, mx). let v = src ! (4 * n + j) in
       if v < mn ! j then (mn[j := v], mx) else if v > mx ! j then (mn, mx[j := v]) else (mn, mx)"
  have "?f 0 (mn, mx) = ([min (src ! (4 * n + 0)) a, b, c], [max (src ! (4 * n + 0)) d, e, f])"
    using le(1) by (auto simp: mm Let_def min_def max_def)
  moreover have "?f 1 ([a', b, c], [d', e, f]) = ([a', min (src ! (4 * n + 1)) b, c], [d', max (src ! (4 * n + 1)) e, f])" for a' d'
    using le(2) by (auto simp: Let_def min_def max_def)
  moreover have "?f 2 ([a', b', c], [d', e', f]) = ([a', b', min (src ! (4 * n + 2)) c], [d', e', max (src ! (4 * n + 2)) f])" for a' b' d' e'
    using le(3) by (auto simp: Let_def min_def max_def)
  ultimately show ?thesis
    unfolding upt_3 by (simp only: fold_simps comp_def id_apply list.map mm) (simp add: Suc_Suc_0_is_2)
qed

lemma extremes_step:
  assumes "extremes src n (mn, mx)" "0 < n"
  shows "extremes src (Suc n) (map (\<lambda>c. min (src ! (4 * n + c)) (mn ! c)) [0..<3], map (\<lambda>c. max (src ! (4 * n + c)) (mx ! c)) [0..<3])"
proof -
  have "(\<forall>i < Suc n. min v m \<le> f i \<and> f i \<le> max v x) \<and> (\<exists>i < Suc n. min v m = f i) \<and> (\<exists>i < Suc n. max v x = f i)"
    if "\<forall>i < n. m \<le> f i \<and> f i \<le> x" "\<exists>i < n. m = f i" "\<exists>i < n. x = f i" "v = f n" for f :: "nat \<Rightarrow> u8" and v m x
    using that by (auto simp: less_Suc_eq min_def max_def)
  note one = this
  have "(\<forall>i < Suc n. min (src ! (4 * n + c)) (mn ! c) \<le> src ! (4 * i + c) \<and> src ! (4 * i + c) \<le> max (src ! (4 * n + c)) (mx ! c)) \<and>
      (\<exists>i < Suc n. min (src ! (4 * n + c)) (mn ! c) = src ! (4 * i + c)) \<and>
      (\<exists>i < Suc n. max (src ! (4 * n + c)) (mx ! c) = src ! (4 * i + c))" if "c < 3" for c
    using assms(1) that unfolding extremes_def fst_conv snd_conv by (intro one) simp_all
  then show ?thesis by (simp add: extremes_def del: upt_Suc)
qed

lemma dxt_minmax_extremes: "extremes src 16 (dxt_minmax src)"
proof -
  let ?f = "\<lambda>i mm. fold (\<lambda>j (mn, mx). let v = src ! (4 * i + j) in
       if v < mn ! j then (mn[j := v], mx) else if v > mx ! j then (mn, mx[j := v]) else (mn, mx)) [0..<3] mm"
  let ?s = "([src ! 0, src ! 1, src ! 2], [src ! 0, src ! 1, src ! 2])"
  have "extremes src (Suc n) (fold ?f [1..<Suc n] ?s)" for n
  proof (induction n)
    case 0
    have "[src ! 0, src ! 1, src ! 2] ! c = src ! c" if "c < 3" for c
      using less_3_cases [OF that] by auto
    then show ?case by (simp add: extremes_def)
  next
    case (Suc n)
    obtain mn mx where mm: "fold ?f [1..<Suc n] ?s = (mn, mx)" by force
    have "fold ?f [1..<Suc (Suc n)] ?s = ?f (Suc n) (mn, mx)" using mm by simp
    then show ?case
      using extremes_step [OF Suc [unfolded mm]] dxt_minmax_step [OF Suc [unfolded mm]] by simp
  qed
  from this [of 15] show ?thesis by (simp add: dxt_minmax_def)
qed

section \<open>The end points\<close>

lemma extremes_le:
  assumes "extremes src n (mn, mx)" "0 < n" "c < 3"
  shows "uint (mn ! c) \<le> uint (mx ! c)"
  using assms unfolding extremes_def fst_conv snd_conv by (meson order.trans word_le_def)

lemma inset_step:
  fixes lo hi :: u8
  assumes "uint lo \<le> uint hi"
  shows "uint (lo + word_of_int (drop_bit 4 (uint hi - uint lo))) = uint lo + (uint hi - uint lo) div 16"
    "uint (hi - word_of_int (drop_bit 4 (uint hi - uint lo))) = uint hi - (uint hi - uint lo) div 16"
proof -
  define k where "k = (uint hi - uint lo) div 16"
  have k: "drop_bit 4 (uint hi - uint lo) = k" by (simp add: drop_bit_eq_div k_def)
  have b: "0 \<le> k" "k \<le> uint hi - uint lo" using assms by (simp_all add: k_def)
  note r = uint_nonnegative [of lo] uint_byte_le [of hi]
  have k8: "k < 256" "k \<le> uint hi" using b r by linarith+
  have w: "uint (word_of_int k :: u8) = k" using b k8 by (simp add: unsigned_of_int take_bit_int_eq_self)
  show "uint (lo + word_of_int (drop_bit 4 (uint hi - uint lo))) = uint lo + (uint hi - uint lo) div 16"
    unfolding k k_def [symmetric] uint_plus_if' w using b r by simp
  show "uint (hi - word_of_int (drop_bit 4 (uint hi - uint lo))) = uint hi - (uint hi - uint lo) div 16"
    unfolding k k_def [symmetric] uint_sub_if' w using k8 by simp
qed

lemma dxt_inset_value:
  assumes "length mn = 3" "length mx = 3" "\<And>c. c < 3 \<Longrightarrow> uint (mn ! c) \<le> uint (mx ! c)" "c < 3"
  shows "uint (fst (dxt_inset (mn, mx)) ! c) = uint (mn ! c) + (uint (mx ! c) - uint (mn ! c)) div 16"
    "uint (snd (dxt_inset (mn, mx)) ! c) = uint (mx ! c) - (uint (mx ! c) - uint (mn ! c)) div 16"
proof -
  let ?k = "\<lambda>c. word_of_int (drop_bit 4 (uint (mx ! c) - uint (mn ! c))) :: u8"
  obtain a0 a1 a2 b0 b1 b2 where mm: "mn = [a0, a1, a2]" "mx = [b0, b1, b2]"
    using assms(1,2) length_3_cases by metis
  have "fst (dxt_inset (mn, mx)) ! c = mn ! c + ?k c" "snd (dxt_inset (mn, mx)) ! c = mx ! c - ?k c"
    using less_3_cases [OF assms(4)] by (auto simp: dxt_inset_def upt_3 mm Let_def)
  then show "uint (fst (dxt_inset (mn, mx)) ! c) = uint (mn ! c) + (uint (mx ! c) - uint (mn ! c)) div 16"
    "uint (snd (dxt_inset (mn, mx)) ! c) = uint (mx ! c) - (uint (mx ! c) - uint (mn ! c)) div 16"
    using inset_step [OF assms(3) [OF assms(4)]] by simp_all
qed

text \<open>A packed colour as a number.\<close>

lemma to565_value: "uint (to565 r g b) = uint r div 8 * 2048 + uint g div 4 * 32 + uint b div 8"
proof -
  let ?R = "push_bit 11 (ucast (drop_bit 3 r)) :: u16" and ?G = "push_bit 5 (ucast (drop_bit 2 g)) :: u16"
    and ?B = "ucast (drop_bit 3 b) :: u16"
  have "to565 r g b = ?R OR ?G OR ?B"
    by (rule word16_eqI) (simp add: to565_def upt_16 bitwise)
  also have "\<dots> = ?R + (?G + ?B)"
    by (subst disjunctive_add, simp add: bitwise, subst disjunctive_add) (auto simp: bitwise)
  finally have "to565 r g b = ?R + (?G + ?B)" .
  moreover define x y z where "x = uint (drop_bit 3 r)" and "y = uint (drop_bit 2 g)" and "z = uint (drop_bit 3 b)"
  moreover have d: "uint (drop_bit 3 r) = uint r div 8" "uint (drop_bit 2 g) = uint g div 4" "uint (drop_bit 3 b) = uint b div 8"
    by (simp_all only: unsigned_drop_bit_eq) (simp_all add: drop_bit_eq_div take_bit_int_eq_self uint_byte_le [THEN le_less_trans])
  have lo: "0 \<le> x" "0 \<le> y" "0 \<le> z" by (simp_all add: x_def y_def z_def)
  have hi: "x \<le> 31" "y \<le> 63" "z \<le> 31"
    unfolding x_def y_def z_def d using uint_byte_le [of r] uint_byte_le [of g] uint_byte_le [of b] by simp_all
  have "uint (?R + (?G + ?B)) = x * 2048 + (y * 32 + z)"
    using lo hi by (simp add: uint_word_ariths push_bit_eq_mult unsigned_ucast_eq take_bit_int_eq_self flip: x_def y_def z_def)
  ultimately show ?thesis by (simp only: d add.assoc)
qed

text \<open>In a block that is not solid some channel differs in its significant bits, and the inset keeps
  the end points of that channel apart.\<close>

definition shrink :: "nat \<Rightarrow> int" where
  "shrink c = (if c = 1 then 4 else 8)"

lemma not_solid_channel:
  assumes "\<not> dxt_solid src" "length src = 64"
  obtains i c where "i < 16" "c < 3" "uint (src ! (4 * i + c)) div shrink c \<noteq> uint (src ! (4 * 0 + c)) div shrink c"
proof -
  obtain i where i: "i < 16" "word_of_bytes (take 4 (drop (4 * i) src)) AND 0xF8FCF8 \<noteq> word_of_bytes (take 4 src) AND 0xF8FCF8"
    using assms(1) by (auto simp: dxt_solid_def list_all_iff)
  have t: "take 4 (drop (4 * i) src) = [src ! (4 * i), src ! (4 * i + 1), src ! (4 * i + 2), src ! (4 * i + 3)]" if "i < 16" for i
    using assms(2) that by (intro nth_equalityI) (auto simp: nth_drop less_Suc_eq numeral_nat)
  have masked: "word_of_bytes [a, b, c, d] AND 0xF8FCF8 =
      push_bit 3 (ucast (drop_bit 3 a)) OR push_bit 10 (ucast (drop_bit 2 b)) OR push_bit 19 (ucast (drop_bit 3 c))" for a b c d
    by (rule word32_eqI) (simp add: word_of_bytes_def upt_32 bitwise)
  have "\<exists>c < 3. uint (src ! (4 * i + c)) div shrink c \<noteq> uint (src ! (4 * 0 + c)) div shrink c"
  proof (rule ccontr)
    assume "\<not> ?thesis"
    then have eq: "uint (src ! (4 * i + c)) div shrink c = uint (src ! (4 * 0 + c)) div shrink c" if "c < 3" for c using that by blast
    have d3: "drop_bit 3 v = drop_bit 3 w" if "uint v div 8 = uint w div 8" for v w :: u8
      using that by (intro word_uint_eqI) (simp only: unsigned_drop_bit_eq, simp add: drop_bit_eq_div take_bit_int_eq_self uint_byte_le [THEN le_less_trans])
    have d2: "drop_bit 2 v = drop_bit 2 w" if "uint v div 4 = uint w div 4" for v w :: u8
      using that by (intro word_uint_eqI) (simp only: unsigned_drop_bit_eq, simp add: drop_bit_eq_div take_bit_int_eq_self uint_byte_le [THEN le_less_trans])
    have t0: "take 4 src = [src ! 0, src ! 1, src ! 2, src ! 3]" using t [of 0] by (simp add: Suc_Suc_0_is_2)
    then show False
      using i(2) d3 [OF eq [of 0, unfolded shrink_def, simplified]] d2 [OF eq [of 1, unfolded shrink_def, simplified]]
        d3 [OF eq [of 2, unfolded shrink_def, simplified]]
      unfolding t [OF i(1)] t0 masked by (simp add: Suc_Suc_0_is_2)
  qed
  with i(1) that show ?thesis by blast
qed

lemma inset_apart:
  fixes lo hi x y m :: int
  assumes "lo \<le> x" "x \<le> hi" "lo \<le> y" "y \<le> hi" "x div m \<noteq> y div m" "m = 4 \<or> m = 8"
  shows "(lo + (hi - lo) div 16) div m < (hi - (hi - lo) div 16) div m"
proof (cases "hi - lo < 16")
  case True
  then have "(hi - lo) div 16 = 0" using assms by (intro div_pos_pos_trivial) linarith+
  moreover have "lo div m \<le> x div m" "x div m \<le> hi div m" "lo div m \<le> y div m" "y div m \<le> hi div m"
    using assms by (auto intro: zdiv_mono1)
  ultimately show ?thesis using assms(5) by simp
next
  case False
  define k where "k = (hi - lo) div 16"
  have "16 * k \<le> hi - lo" unfolding k_def using mult_div_mod_eq [of 16 "hi - lo"] pos_mod_sign [of 16 "hi - lo"] by linarith
  moreover have "1 \<le> k" unfolding k_def using False by (simp add: pos_imp_zdiv_pos_iff int_one_le_iff_zero_less)
  ultimately have "lo + k + m \<le> hi - k" using assms(6) by linarith
  then have "(lo + k + m) div m \<le> (hi - k) div m" using assms(6) by (intro zdiv_mono1) auto
  moreover have "(lo + k + m) div m = (lo + k) div m + 1" using assms(6) by auto
  ultimately show ?thesis by (simp add: k_def)
qed

definition low_565 :: "u8 list \<Rightarrow> u16" where
  "low_565 src = (case dxt_inset (dxt_minmax src) of (mn, mx) \<Rightarrow> to565 (mn ! 0) (mn ! 1) (mn ! 2))"

definition high_565 :: "u8 list \<Rightarrow> u16" where
  "high_565 src = (case dxt_inset (dxt_minmax src) of (mn, mx) \<Rightarrow> to565 (mx ! 0) (mx ! 1) (mx ! 2))"

lemma low_less_high:
  assumes "\<not> dxt_solid src" "length src = 64"
  shows "low_565 src < high_565 src"
proof -
  obtain mn mx where mm: "dxt_minmax src = (mn, mx)" by force
  have ex: "extremes src 16 (mn, mx)" using dxt_minmax_extremes [of src] by (simp add: mm)
  have len: "length mn = 3" "length mx = 3" using ex by (simp_all add: extremes_def)
  note le = extremes_le [OF ex]
  let ?lo = "\<lambda>c. uint (mn ! c) + (uint (mx ! c) - uint (mn ! c)) div 16"
    and ?hi = "\<lambda>c. uint (mx ! c) - (uint (mx ! c) - uint (mn ! c)) div 16"
  obtain i c where i: "i < 16" "c < 3" "uint (src ! (4 * i + c)) div shrink c \<noteq> uint (src ! (4 * 0 + c)) div shrink c"
    using not_solid_channel [OF assms] by blast
  have b: "uint (mn ! c) \<le> uint (src ! (4 * k + c))" "uint (src ! (4 * k + c)) \<le> uint (mx ! c)" if "k < 16" for k
    using ex i(2) that unfolding extremes_def fst_conv snd_conv by (simp_all add: word_le_def)
  define A B where "A e = ?lo e div shrink e" and "B e = ?hi e div shrink e" for e
  have ge: "A e \<le> B e" if "e < 3" for e
    unfolding A_def B_def
  proof (rule zdiv_mono1)
    define D where "D = uint (mx ! e) - uint (mn ! e)"
    have "0 \<le> D" using le [OF _ that] by (simp add: D_def)
    then have "2 * (D div 16) \<le> D" by linarith
    then show "?lo e \<le> ?hi e" unfolding D_def by linarith
  qed (simp add: shrink_def)
  have gt: "A c < B c"
    unfolding A_def B_def using b [OF i(1)] b [of 0] i(3) by (intro inset_apart) (auto simp: shrink_def)
  obtain mn' mx' where ins: "dxt_inset (mn, mx) = (mn', mx')" by force
  have f: "uint (mn' ! e) div shrink e = A e" "uint (mx' ! e) div shrink e = B e" if "e < 3" for e
    using dxt_inset_value [OF len le that] by (simp_all add: ins A_def B_def)
  have w: "uint (to565 (q ! 0) (q ! 1) (q ! 2)) = uint (q ! 0) div shrink 0 * 2048 + uint (q ! 1) div shrink 1 * 32 + uint (q ! 2) div shrink 2" for q
    by (simp add: to565_value shrink_def)
  have "uint (low_565 src) = A 0 * 2048 + A 1 * 32 + A 2" "uint (high_565 src) = B 0 * 2048 + B 1 * 32 + B 2"
    unfolding low_565_def high_565_def mm ins prod.case w using f by simp_all
  moreover have "A 0 < B 0 \<or> A 1 < B 1 \<or> A 2 < B 2" using gt less_3_cases [OF i(2)] by auto
  ultimately show ?thesis
    using ge [of 0] ge [of 1] ge [of 2] unfolding word_less_def by linarith
qed

section \<open>The indices\<close>

definition byte_of :: "u64 \<Rightarrow> nat \<Rightarrow> u8" where
  "byte_of c j = ucast (drop_bit (8 * j) c)"

lemma fix_indices_eq:
  "fix_indices c = ucast (byte_of c 0) OR push_bit 8 (ucast (byte_of c 1)) OR push_bit 16 (ucast (byte_of c 2)) OR
     push_bit 24 (ucast (byte_of c 3)) OR push_bit 32 (ucast (DxtcIndexTable ! unat (byte_of c 4))) OR
     push_bit 40 (ucast (DxtcIndexTable ! unat (byte_of c 5))) OR push_bit 48 (ucast (DxtcIndexTable ! unat (byte_of c 6))) OR
     push_bit 56 (ucast (DxtcIndexTable ! unat (byte_of c 7)))"
proof -
  have "[4..<8] = [4, 5, 6, 7 :: nat]" by (simp add: upt_conv_Cons)
  then show ?thesis by (simp add: fix_indices_def byte_of_def upt_8 Let_def or.assoc)
qed

lemma fix_indices_low: "n < 32 \<Longrightarrow> bit (fix_indices c) n \<longleftrightarrow> bit c n"
proof -
  have "\<forall>n < 32. bit (fix_indices c) n \<longleftrightarrow> bit c n"
    unfolding each_bit fix_indices_eq byte_of_def by (simp add: bitwise)
  then show "n < 32 \<Longrightarrow> ?thesis" by blast
qed

lemma fix_indices_high:
  assumes "q < 4" "m < 8"
  shows "bit (fix_indices c) (32 + 8 * q + m) \<longleftrightarrow> bit (DxtcIndexTable ! unat (byte_of c (4 + q))) m"
proof -
  have "\<forall>m < 8. bit (fix_indices c) (32 + 8 * q + m) \<longleftrightarrow> bit (DxtcIndexTable ! unat (byte_of c (4 + q))) m"
    unfolding each_bit using less_4_cases [OF assms(1)]
    by (elim disjE) (simp_all add: fix_indices_eq bitwise)
  then show ?thesis using assms(2) by blast
qed

text \<open>Index \<open>n\<close> of a block.\<close>

definition dxt_field :: "u64 \<Rightarrow> nat \<Rightarrow> nat" where
  "dxt_field d n = unat (drop_bit (2 * n) (dxt_idx d) AND 0x3)"

lemma two_bits_of_byte:
  fixes x :: u8
  assumes "k < 4"
  shows "uint (drop_bit (2 * k) x AND 0x3) = uint x div 4 ^ k mod 4"
proof -
  have t: "drop_bit (2 * k) x AND 0x3 = take_bit 2 (drop_bit (2 * k) x)" by (simp only: take_bit_eq_mask mask_eq_exp_minus_1) simp
  have "uint (drop_bit (2 * k) x) = uint x div 4 ^ k"
    by (simp only: unsigned_drop_bit_eq, simp add: drop_bit_eq_div take_bit_int_eq_self uint_byte_le [THEN le_less_trans] power_mult)
  then show ?thesis unfolding t unsigned_take_bit_eq by (simp add: take_bit_eq_mod)
qed

lemma dxt_field_byte:
  assumes "q < 4" "k < 4"
  shows "dxt_field d (4 * q + k) = unat (drop_bit (2 * k) (byte_of d (4 + q)) AND 0x3)"
proof -
  have "drop_bit (2 * (4 * q + k)) (dxt_idx d) AND 0x3 = ucast (drop_bit (2 * k) (byte_of d (4 + q)) AND 0x3)"
  proof (rule word_eq_bits)
    fix n :: nat assume "n < LENGTH(32)"
    have m: "(0x3 :: u32) = mask 2" "(0x3 :: u8) = mask 2" by (simp_all add: mask_eq_exp_minus_1)
    show "bit (drop_bit (2 * (4 * q + k)) (dxt_idx d) AND 0x3) n =
       bit (ucast (drop_bit (2 * k) (byte_of d (4 + q)) AND 0x3) :: u32) n"
    proof (cases "n < 2")
      case True
      then have "2 * (4 * q + k) + n < 32" "2 * k + n < 8" using assms by simp_all
      moreover have "32 + (2 * (4 * q + k) + n) = 8 * (4 + q) + (2 * k + n)" by simp
      ultimately show ?thesis
        using True unfolding m dxt_idx_def byte_of_def by (simp add: bit_simps add.assoc)
    qed (simp add: m bit_simps)
  qed
  then show ?thesis by (simp add: dxt_field_def)
qed

lemma fix_indices_byte: "q < 4 \<Longrightarrow> byte_of (fix_indices c) (4 + q) = DxtcIndexTable ! unat (byte_of c (4 + q))"
  by (rule word_eq_bits) (simp add: byte_of_def bit_simps fix_indices_high [unfolded byte_of_def] add.assoc [symmetric])

lemma fix_indices_field:
  assumes "n < 16"
  shows "int (dxt_field (fix_indices c) n) = dxt_perm (int (dxt_field c n))"
proof -
  define q k where "q = n div 4" and "k = n mod 4"
  then have qk: "n = 4 * q + k" "q < 4" "k < 4" using assms by auto
  have m: "(4 :: int) ^ k \<in> {1, 4, 16, 64}" using less_4_cases [OF qk(3)] by auto
  show ?thesis
    unfolding qk(1) dxt_field_byte [OF qk(2,3)] fix_indices_byte [OF qk(2)] uint_nat [symmetric] two_bits_of_byte [OF qk(3)]
    by (rule DxtcIndexTable_nth [OF m])
qed

section \<open>What the block holds\<close>

definition dxt_index :: "u8 list \<Rightarrow> nat \<Rightarrow> u8" where
  "dxt_index src n = dxt_pixel_index src (dxt_range (dxt_minmax src)) (dxt_rmin (fst (dxt_minmax src))) n"

text \<open>The index is the height of the pixel above the smallest colour, in quarters of the range.\<close>

definition height :: "u8 list \<Rightarrow> nat \<Rightarrow> int" where
  "height src n = (case dxt_minmax src of (mn, mx) \<Rightarrow> \<Sum>c < (3 :: nat). uint (src ! (4 * n + c)) - uint (mn ! c))"

definition full_height :: "u8 list \<Rightarrow> int" where
  "full_height src = (case dxt_minmax src of (mn, mx) \<Rightarrow> \<Sum>c < (3 :: nat). uint (mx ! c) - uint (mn ! c))"

lemma sum_less_3: "(\<Sum>c < (3 :: nat). f c) = f 0 + f 1 + (f 2 :: int)"
  by (simp add: numeral_3_eq_3 numeral_2_eq_2)

lemma height_bounds:
  assumes "n < 16"
  shows "0 \<le> height src n" "height src n \<le> full_height src" "full_height src \<le> 765"
proof -
  obtain mn mx where mm: "dxt_minmax src = (mn, mx)" by force
  have ex: "extremes src 16 (mn, mx)" using dxt_minmax_extremes [of src] by (simp add: mm)
  have b: "uint (mn ! c) \<le> uint (src ! (4 * n + c))" "uint (src ! (4 * n + c)) \<le> uint (mx ! c)" if "c < 3" for c
    using ex that assms unfolding extremes_def fst_conv snd_conv by (simp_all add: word_le_def)
  show "0 \<le> height src n" unfolding height_def mm prod.case using b(1) by (intro sum_nonneg) simp
  show "height src n \<le> full_height src"
    unfolding height_def full_height_def mm prod.case using b(2) by (intro sum_mono) simp
  have "uint (mx ! c) - uint (mn ! c) \<le> 255" for c
    using uint_byte_le [of "mx ! c"] uint_nonnegative [of "mn ! c"] by linarith
  then have "full_height src \<le> (\<Sum>c < (3 :: nat). 255)"
    unfolding full_height_def mm prod.case by (intro sum_mono) simp
  then show "full_height src \<le> 765" by simp
qed

lemma dxt_index_value:
  assumes "n < 16"
  shows "uint (dxt_index src n) = height src n * DivTable ! nat (full_height src) div 0x10000" "uint (dxt_index src n) < 4"
proof -
  obtain mn mx where mm: "dxt_minmax src = (mn, mx)" by force
  define c s R where "c = height src n" and "s = full_height src" and "R = DivTable ! nat s"
  have b: "0 \<le> c" "c \<le> s" "s \<le> 765" using height_bounds [OF assms] by (simp_all add: c_def s_def)
  have R: "R = min 0xffff (4 * 0x10000 div (s + 1))"
    using DivTable_nth [of "nat s"] b by (simp add: R_def)
  then have cR: "c * R < 4 * 0x10000" using scaled_index_less [of c s 4] b by simp
  have R0: "0 \<le> R" "R \<le> 0xffff" using b by (simp_all add: R pos_imp_zdiv_nonneg_iff)
  have w: "word_of_int (uint (src ! (4 * n)) + uint (src ! (4 * n + 1)) + uint (src ! (4 * n + 2))) - dxt_rmin mn = (word_of_int c :: u32)"
    unfolding c_def height_def mm prod.case sum_less_3 dxt_rmin_def of_int_diff [symmetric] by (rule arg_cong [of _ _ word_of_int]) simp
  have r: "dxt_range (mn, mx) = word_of_int R"
    unfolding R_def s_def full_height_def dxt_range_def mm prod.case sum_less_3 by (simp add: algebra_simps)
  have pos: "0 \<le> c * R" using b R0 by simp
  have "uint (word_of_int x :: u32) = x" if "0 \<le> x" "x < 4 * 0x10000" for x
    using that by (simp add: unsigned_of_int take_bit_int_eq_self)
  from this [OF pos cR] have p: "uint (word_of_int (c * R) :: u32) = c * R" .
  define q where "q = c * R div 0x10000"
  have "q \<le> (4 * 0x10000 - 1) div 0x10000" unfolding q_def using cR by (intro zdiv_mono1) simp_all
  moreover have "0 \<le> q" unfolding q_def using pos by (simp add: pos_imp_zdiv_nonneg_iff)
  ultimately have q: "0 \<le> q" "q < 4" by simp_all
  have d: "uint (drop_bit 16 (word_of_int (c * R) :: u32)) = q"
    by (simp only: unsigned_drop_bit_eq p) (use pos cR in \<open>simp add: drop_bit_eq_div take_bit_int_eq_self q_def\<close>)
  have "uint (dxt_index src n) = q"
    unfolding dxt_index_def mm fst_conv dxt_pixel_index_def Let_def w r of_int_mult [symmetric] unsigned_ucast_eq d
    using q by (simp add: take_bit_int_eq_self)
  with q show "uint (dxt_index src n) = height src n * DivTable ! nat (full_height src) div 0x10000" "uint (dxt_index src n) < 4"
    by (simp_all add: q_def c_def R_def s_def)
qed

lemma bit_packed:
  fixes w :: "nat \<Rightarrow> 'a::len word"
  assumes "\<And>i m. i < N \<Longrightarrow> k \<le> m \<Longrightarrow> \<not> bit (w i) m" "0 < k"
  shows "bit (fold (\<lambda>i d. d OR push_bit (i * k) (w i)) [0..<N] 0) n \<longleftrightarrow>
    n div k < N \<and> n < LENGTH('a) \<and> bit (w (n div k)) (n mod k)"
proof -
  have "bit (push_bit (i * k) (w i)) n \<longleftrightarrow> i = n div k \<and> n < LENGTH('a) \<and> bit (w i) (n mod k)" if "i < N" for i
  proof (cases "i * k \<le> n \<and> n - i * k < k")
    case True
    then obtain j where "n = i * k + j" "j < k" by (metis le_add_diff_inverse)
    then show ?thesis by (auto simp: bit_push_bit_iff)
  next
    case False
    have "i \<noteq> n div k"
    proof
      assume "i = n div k"
      with False show False using assms(2) by (simp add: minus_div_mult_eq_mod)
    qed
    then show ?thesis using False assms(1) [OF that, of "n - i * k"] by (auto simp: bit_push_bit_iff)
  qed
  then show ?thesis unfolding bit_fold_or by auto
qed

lemma small_bits:
  fixes x :: u8
  assumes "uint x < 2 ^ k" "k \<le> m" "k \<le> 8"
  shows "\<not> bit (ucast x :: 'a::len word) m"
proof -
  have "take_bit k x = x"
    by (rule word_uint_eqI) (use assms in \<open>simp add: unsigned_take_bit_eq take_bit_int_eq_self\<close>)
  then have "\<not> bit x m" using assms(2) by (metis bit_take_bit_iff not_le)
  then show ?thesis by (simp add: bit_ucast_iff)
qed

lemma ProcessRGB_dxt_fields:
  assumes "\<not> dxt_solid src"
  shows "dxt_c0 (ProcessRGB_dxt src) = high_565 src" "dxt_c1 (ProcessRGB_dxt src) = low_565 src"
    "n < 16 \<Longrightarrow> dxt_field (ProcessRGB_dxt src) n = unat (dxt_index src n)"
proof -
  let ?data = "dxt_data src (dxt_range (dxt_minmax src)) (dxt_rmin (fst (dxt_minmax src)))"
  have b: "ProcessRGB_dxt src = push_bit 16 (ucast (low_565 src)) OR ucast (high_565 src) OR push_bit 32 (ucast ?data)"
    using assms by (simp add: ProcessRGB_dxt_def low_565_def high_565_def Let_def split: prod.splits)
  show "dxt_c0 (ProcessRGB_dxt src) = high_565 src" "dxt_c1 (ProcessRGB_dxt src) = low_565 src"
    unfolding b dxt_c0_def dxt_c1_def by (rule word16_eqI, simp add: upt_16 bitwise)+
  have i: "dxt_idx (ProcessRGB_dxt src) = ?data"
    unfolding b dxt_idx_def by (rule word32_eqI) (simp add: upt_32 bitwise)
  assume n: "n < 16"
  have small: "\<not> bit (ucast (dxt_index src i) :: u32) m" if "i < 16" "2 \<le> m" for i m
    using dxt_index_value(2) [OF that(1)] by (intro small_bits [OF _ that(2)]) simp_all
  have "drop_bit (2 * n) ?data AND 0x3 = ucast (dxt_index src n)"
  proof (rule word_eq_bits)
    fix j :: nat
    have m: "(0x3 :: u32) = mask 2" by (simp add: mask_eq_exp_minus_1)
    have d: "bit ?data k \<longleftrightarrow> k div 2 < 16 \<and> k < 32 \<and> bit (ucast (dxt_index src (k div 2)) :: u32) (k mod 2)" for k
      using bit_packed [of 16 2 "\<lambda>i. ucast (dxt_index src i)" k, OF small]
      by (simp add: dxt_data_def dxt_index_def del: upt_Suc upt_rec_numeral)
    show "bit (drop_bit (2 * n) ?data AND 0x3) j = bit (ucast (dxt_index src n) :: u32) j"
    proof (cases "j < 2")
      case True
      then have "(2 * n + j) div 2 = n" "(2 * n + j) mod 2 = j" "2 * n + j < 32" using n by auto
      then show ?thesis using True n unfolding m by (simp add: bit_and_iff bit_mask_iff bit_drop_bit_eq d)
    next
      case False
      then show ?thesis using small [OF n, of j] unfolding m by (simp add: bit_and_iff bit_mask_iff)
    qed
  qed
  then show "dxt_field (ProcessRGB_dxt src) n = unat (dxt_index src n)" by (simp add: dxt_field_def i)
qed

lemma fix_indices_ends: "dxt_c0 (fix_indices d) = dxt_c0 d" "dxt_c1 (fix_indices d) = dxt_c1 d"
proof -
  have "list_all (\<lambda>n. bit (fix_indices d) n = bit d n) [0..<32]" using fix_indices_low by (simp add: list_all_iff)
  note low = this [unfolded upt_32, simplified]
  show "dxt_c0 (fix_indices d) = dxt_c0 d" "dxt_c1 (fix_indices d) = dxt_c1 d"
    unfolding dxt_c0_def dxt_c1_def by (rule word16_eqI, simp add: upt_16 bitwise low)+
qed

end
