(* ===== verification/DxtRoundTrip.thy ===== *)
theory DxtRoundTrip imports DxtEncode begin

text \<open>
  What the DXT compressors of \<open>DxtEncode\<close> promise: the mode of the blocks, the colours and alpha
  values that the decoders of \<open>DxtDecode\<close> show for them, and the place of the pixels of an image.
\<close>

section \<open>Colours\<close>

definition colour565 :: "u16 \<Rightarrow> u32" where
  "colour565 c = rgb (ucast (dxt_r c)) (ucast (dxt_g c)) (ucast (dxt_b c))"

definition mix565 :: "u16 \<Rightarrow> u16 \<Rightarrow> u32" where
  "mix565 a b = rgb (third (dxt_r a) (dxt_r b)) (third (dxt_g a) (dxt_g b)) (third (dxt_b a) (dxt_b b))"

text \<open>The four colours between the end points, from the low one to the high one.\<close>

definition dxt_ramp :: "u16 \<Rightarrow> u16 \<Rightarrow> u32 list" where
  "dxt_ramp lo hi = [colour565 lo, mix565 lo hi, mix565 hi lo, colour565 hi]"

lemma dxt_perm_ramp:
  assumes "lo < hi" "dxt_c0 d = hi" "dxt_c1 d = lo" "k < 4" "int m = dxt_perm (int k)"
  shows "dxt_colours d ! m = dxt_ramp lo hi ! k"
proof -
  have "m = (if k = 0 then 1 else if k = 1 then 3 else if k = 2 then 2 else 0)"
    using assms(5) by (simp add: dxt_perm_def split: if_splits)
  then show ?thesis
    using less_4_cases [OF assms(4)] assms(1-3)
    by (elim disjE) (simp_all add: dxt_colours_def dxt_ramp_def colour565_def mix565_def Let_def)
qed

lemma dxt_block_colour:
  assumes "\<not> dxt_solid src" "length src = 64" "n < 16"
  shows "dxt_colours (fix_indices (ProcessRGB_dxt src)) ! dxt_field (fix_indices (ProcessRGB_dxt src)) n =
    dxt_ramp (low_565 src) (high_565 src) ! unat (dxt_index src n)"
proof (rule dxt_perm_ramp)
  show "low_565 src < high_565 src" by (rule low_less_high [OF assms(1,2)])
  show "unat (dxt_index src n) < 4" using dxt_index_value(2) [OF assms(3), of src] unfolding uint_nat by linarith
  show "int (dxt_field (fix_indices (ProcessRGB_dxt src)) n) = dxt_perm (int (unat (dxt_index src n)))"
    using fix_indices_field [OF assms(3)] ProcessRGB_dxt_fields(3) [OF assms(1,3)] by simp
qed (simp_all add: fix_indices_ends ProcessRGB_dxt_fields [OF assms(1)])

lemma solid_565:
  "dxt_solid src \<Longrightarrow> ProcessRGB_dxt src = push_bit 16 (ucast (to565_word (word_of_bytes (take 4 src))))"
  by (simp add: ProcessRGB_dxt_def)

lemma solid_block_colour:
  assumes "dxt_solid src" "n < 16"
  shows "dxt_colours (fix_indices (ProcessRGB_dxt src)) ! dxt_field (fix_indices (ProcessRGB_dxt src)) n =
      colour565 (to565_word (word_of_bytes (take 4 src)))"
    "dxt_c0 (fix_indices (ProcessRGB_dxt src)) = 0"
proof -
  let ?w = "to565_word (word_of_bytes (take 4 src))"
  have c: "dxt_c0 (push_bit 16 (ucast ?w)) = 0" "dxt_c1 (push_bit 16 (ucast ?w)) = ?w"
    unfolding dxt_c0_def dxt_c1_def by (rule word16_eqI, simp add: upt_16 bitwise)+
  have "dxt_idx (push_bit 16 (ucast ?w)) = 0"
    unfolding dxt_idx_def by (rule word32_eqI) (simp add: upt_32 bitwise)
  then have "dxt_field (push_bit 16 (ucast ?w)) n = 0" by (simp add: dxt_field_def)
  then have "int (dxt_field (fix_indices (push_bit 16 (ucast ?w))) n) = 1"
    by (simp add: fix_indices_field [OF assms(2)] dxt_perm_def)
  then have "dxt_field (fix_indices (push_bit 16 (ucast ?w))) n = 1" by simp
  then show "dxt_colours (fix_indices (ProcessRGB_dxt src)) ! dxt_field (fix_indices (ProcessRGB_dxt src)) n = colour565 ?w"
    by (simp add: solid_565 [OF assms(1)] dxt_colours_def fix_indices_ends c colour565_def Let_def)
  show "dxt_c0 (fix_indices (ProcessRGB_dxt src)) = 0"
    by (simp add: solid_565 [OF assms(1)] fix_indices_ends c)
qed

lemma to565_word_fields:
  "drop_bit 3 (dxt_r (to565_word (word_of_bytes [a, b, c, d]))) = drop_bit 3 a"
  "drop_bit 2 (dxt_g (to565_word (word_of_bytes [a, b, c, d]))) = drop_bit 2 b"
  "drop_bit 3 (dxt_b (to565_word (word_of_bytes [a, b, c, d]))) = drop_bit 3 c"
  unfolding dxt_r_top dxt_g_top dxt_b_top to565_word_def word_of_bytes_def
  by (rule byte_eqI, simp add: upt_8 bitwise)+

lemma dxt1_image_field: "dxt1_image d i j = 0xFF000000 OR dxt_colours d ! dxt_field d (4 * j + i)"
proof -
  have "dxt_field d (4 * j + i) < 4"
  proof -
    have "drop_bit (2 * (4 * j + i)) (dxt_idx d) AND 0x3 = take_bit 2 (drop_bit (2 * (4 * j + i)) (dxt_idx d))"
      by (simp only: take_bit_eq_mask mask_eq_exp_minus_1) simp
    then show ?thesis unfolding dxt_field_def by (simp only: unsigned_take_bit_eq take_bit_nat_less_exp [of 2, simplified])
  qed
  then show ?thesis by (simp add: dxt1_image_def dxt1_dict_def dxt_field_def length_dxt_colours)
qed

text \<open>A block whose sixteen pixels differ in every channel, and one of a single colour.\<close>

definition slope_block :: "u8 list" where
  "slope_block = map (\<lambda>n. of_nat (3 * n)) [0..<64]"

definition flat_block :: "u8 list" where
  "flat_block = concat (map (\<lambda>n. [0x12, 0x34, 0x56, 0xFF]) [0..<16])"

lemma length_sample_blocks: "length slope_block = 64" "length flat_block = 64"
  by (simp_all add: slope_block_def flat_block_def upt_16)

lemma flat_block_solid: "dxt_solid flat_block"
  by code_simp

text \<open>C33: The mode of a DXT1 block: a block that is not solid is always written with the first end point
  above the second, so that the decoder uses four opaque colours; a solid block never is.\<close>

theorem dxt_four_colour_mode:
  assumes "length src = 64"
  shows "dxt_c0 (fix_indices (ProcessRGB_dxt src)) > dxt_c1 (fix_indices (ProcessRGB_dxt src)) \<longleftrightarrow> \<not> dxt_solid src"
proof (cases "dxt_solid src")
  case True
  then show ?thesis using solid_block_colour(2) [OF True, of 0] by simp
next
  case False
  then show ?thesis
    using low_less_high [OF False assms] by (simp add: fix_indices_ends ProcessRGB_dxt_fields [OF False])
qed

lemma dxt_four_colour_mode_witness:
  "length slope_block = 64 \<and> (dxt_c0 (fix_indices (ProcessRGB_dxt slope_block)) > dxt_c1 (fix_indices (ProcessRGB_dxt slope_block)) \<longleftrightarrow>
    \<not> dxt_solid slope_block)"
  using length_sample_blocks(1) dxt_four_colour_mode [OF length_sample_blocks(1)] by blast

text \<open>C15: Round trip of a DXT1 block: a solid block decodes to the colour of its first pixel cut to
  5, 6 and 5 bits; in any other block pixel \<open>(i, j)\<close> decodes to the colour of the ramp between the
  inset extremes of the block that its index names.\<close>

theorem dxt1_roundtrip:
  assumes "length src = 64" "i < 4" "j < 4"
  shows "dxt1_image (fix_indices (ProcessRGB_dxt src)) i j = 0xFF000000 OR
    (if dxt_solid src then colour565 (to565_word (word_of_bytes (take 4 src)))
     else dxt_ramp (low_565 src) (high_565 src) ! unat (dxt_index src (4 * j + i)))"
proof -
  have "4 * j + i < 16" using assms by simp
  then show ?thesis
    unfolding dxt1_image_field using dxt_block_colour [OF _ assms(1)] solid_block_colour(1) by simp
qed

lemma dxt1_roundtrip_witness:
  "dxt1_image (fix_indices (ProcessRGB_dxt flat_block)) 3 2 = 0xFF000000 OR colour565 (to565_word (word_of_bytes (take 4 flat_block)))"
  using dxt1_roundtrip [OF length_sample_blocks(2), of 3 2] flat_block_solid by simp

lemma solid_channels:
  assumes "dxt_solid src" "length src = 64" "n < 16"
  shows "drop_bit 3 (src ! (4 * n)) = drop_bit 3 (src ! 0)" "drop_bit 2 (src ! (4 * n + 1)) = drop_bit 2 (src ! 1)"
    "drop_bit 3 (src ! (4 * n + 2)) = drop_bit 3 (src ! 2)"
proof -
  have t: "take 4 (drop (4 * i) src) = [src ! (4 * i), src ! (4 * i + 1), src ! (4 * i + 2), src ! (4 * i + 3)]" if "i < 16" for i
    using assms(2) that by (intro nth_equalityI) (auto simp: nth_drop less_Suc_eq numeral_nat)
  have t0: "take 4 src = [src ! 0, src ! 1, src ! 2, src ! 3]" using t [of 0] by (simp add: Suc_Suc_0_is_2)
  have "word_of_bytes (take 4 (drop (4 * n) src)) AND 0xF8FCF8 = word_of_bytes (take 4 src) AND 0xF8FCF8"
    using assms(1,3) by (cases "n = 0") (simp_all add: dxt_solid_def list_all_iff)
  then have e: "word_of_bytes [src ! (4 * n), src ! (4 * n + 1), src ! (4 * n + 2), src ! (4 * n + 3)] AND 0xF8FCF8 =
      word_of_bytes [src ! 0, src ! 1, src ! 2, src ! 3] AND 0xF8FCF8" unfolding t [OF assms(3)] t0 .
  have r: "drop_bit 3 a = ucast (drop_bit 3 (word_of_bytes [a, b, c, d] AND 0xF8FCF8) AND 0x1F)"
    "drop_bit 2 b = ucast (drop_bit 10 (word_of_bytes [a, b, c, d] AND 0xF8FCF8) AND 0x3F)"
    "drop_bit 3 c = ucast (drop_bit 19 (word_of_bytes [a, b, c, d] AND 0xF8FCF8) AND 0x1F)" for a b c d
    by (rule byte_eqI, simp add: word_of_bytes_def upt_8 bitwise)+
  show "drop_bit 3 (src ! (4 * n)) = drop_bit 3 (src ! 0)" "drop_bit 2 (src ! (4 * n + 1)) = drop_bit 2 (src ! 1)"
    "drop_bit 3 (src ! (4 * n + 2)) = drop_bit 3 (src ! 2)"
    using e r(1) [of "src ! (4 * n)"] r(1) [of "src ! 0"] r(2) [of "src ! (4 * n + 1)"] r(2) [of "src ! 1"]
      r(3) [of "src ! (4 * n + 2)"] r(3) [of "src ! 2"] by metis+
qed

text \<open>A solid block keeps the significant bits of every one of its pixels.\<close>

theorem dxt1_solid_keeps_bits:
  assumes "dxt_solid src" "length src = 64" "n < 16"
  shows "let c = to565_word (word_of_bytes (take 4 src)) in
    drop_bit 3 (dxt_r c) = drop_bit 3 (src ! (4 * n)) \<and> drop_bit 2 (dxt_g c) = drop_bit 2 (src ! (4 * n + 1)) \<and>
    drop_bit 3 (dxt_b c) = drop_bit 3 (src ! (4 * n + 2))"
proof -
  have "take 4 src = [src ! 0, src ! 1, src ! 2, src ! 3]"
    using assms(2) by (intro nth_equalityI) (auto simp: less_Suc_eq numeral_nat)
  then show ?thesis unfolding Let_def by (simp only: to565_word_fields solid_channels [OF assms])
qed

lemma dxt1_solid_keeps_bits_witness:
  "dxt_solid flat_block \<and> length flat_block = 64 \<and> (let c = to565_word (word_of_bytes (take 4 flat_block)) in
    drop_bit 3 (dxt_r c) = drop_bit 3 (flat_block ! (4 * 7)) \<and> drop_bit 2 (dxt_g c) = drop_bit 2 (flat_block ! (4 * 7 + 1)) \<and>
    drop_bit 3 (dxt_b c) = drop_bit 3 (flat_block ! (4 * 7 + 2)))"
  using flat_block_solid length_sample_blocks(2) dxt1_solid_keeps_bits [OF flat_block_solid length_sample_blocks(2), of 7] by simp

text \<open>The colour index never leaves its two bits, and it places the pixel in the quarter of the range
  between the extremes in which its height lies, up to the rounding of the reciprocal table.\<close>

theorem dxt_index_bounds:
  assumes "n < 16"
  shows "uint (dxt_index src n) < 4 \<and>
    uint (dxt_index src n) * (full_height src + 1) \<le> 4 * height src n \<and>
    4 * height src n < (uint (dxt_index src n) + 1) * (full_height src + 1) + 9"
proof -
  define h s R q where "h = height src n" and "s = full_height src" and "R = DivTable ! nat s" and "q = uint (dxt_index src n)"
  have b: "0 \<le> h" "h \<le> s" "s \<le> 765" using height_bounds [OF assms] by (simp_all add: h_def s_def)
  define E where "E = 0x40000 div (s + 1)"
  have R: "R = min 0xffff E" using DivTable_nth [of "nat s"] b by (simp add: R_def E_def)
  have q: "q = h * R div 0x10000" "q < 4" using dxt_index_value [OF assms] by (simp_all add: q_def h_def s_def R_def)
  have qlo: "q * 0x10000 \<le> h * R" and qhi: "h * R < (q + 1) * 0x10000"
    unfolding q(1) using int_div_bounds [of "0x10000" "h * R"] by simp_all
  have Elo: "E * (s + 1) \<le> 0x40000" and Ehi: "0x40000 < (E + 1) * (s + 1)"
    unfolding E_def using int_div_bounds [of "s + 1" "0x40000"] b by simp_all
  have "q * (s + 1) * 0x10000 \<le> h * R * (s + 1)" using qlo b by (simp add: mult.commute mult.left_commute mult_right_mono)
  also have "\<dots> \<le> h * (E * (s + 1))" using b R by (simp add: mult.assoc mult_left_mono mult_right_mono)
  also have "\<dots> \<le> h * 0x40000" using Elo b by (intro mult_left_mono) simp_all
  finally have lower: "q * (s + 1) \<le> 4 * h" by simp
  have upper: "4 * h < (q + 1) * (s + 1) + 9"
  proof (cases "s \<le> 3")
    case True
    then have "4 * h \<le> 12 \<and> (h \<le> 0 \<or> h \<le> s)" using b by simp
    moreover have "0 \<le> q" by (simp add: q_def)
    then have "s + 1 \<le> (q + 1) * (s + 1)" using b by (simp add: algebra_simps)
    ultimately show ?thesis using True b by linarith
  next
    case False
    have "E \<le> 0xffff"
    proof -
      have "E \<le> 0x40000 div 5" unfolding E_def using False by (intro zdiv_mono2) simp_all
      then show ?thesis by simp
    qed
    then have RE: "R = E" by (simp add: R)
    have "h * 0x40000 \<le> h * ((E + 1) * (s + 1))" using Ehi b by (intro mult_left_mono) simp_all
    also have "\<dots> = h * E * (s + 1) + h * (s + 1)" by (simp add: algebra_simps)
    also have "\<dots> \<le> ((q + 1) * 0x10000) * (s + 1) + h * (s + 1)" using qhi b unfolding RE by (intro add_mono mult_right_mono) simp_all
    finally have "h * 0x40000 \<le> ((q + 1) * (s + 1)) * 0x10000 + h * (s + 1)" by (simp only: mult.commute mult.left_commute)
    moreover have "h * (s + 1) \<le> 765 * 766" using b by (intro mult_mono) simp_all
    ultimately show ?thesis by linarith
  qed
  show ?thesis using q(2) lower upper by (simp add: q_def h_def s_def)
qed

lemma dxt_index_bounds_witness:
  "uint (dxt_index slope_block 9) < 4 \<and>
    uint (dxt_index slope_block 9) * (full_height slope_block + 1) \<le> 4 * height slope_block 9 \<and>
    4 * height slope_block 9 < (uint (dxt_index slope_block 9) + 1) * (full_height slope_block + 1) + 9"
  by (rule dxt_index_bounds) simp

section \<open>Alpha\<close>

lemma alpha_minmax_bounds:
  assumes "alpha_minmax src = (mn, mx)"
  shows "i < 16 \<Longrightarrow> mn \<le> src ! i \<and> src ! i \<le> mx"
proof -
  let ?f = "\<lambda>i (mn, mx). let v = src ! i in if v > mx then (mn, v) else if v < mn then (v, mx) else (mn, mx)"
  have "case fold ?f [1..<Suc n] (src ! 0, src ! 0) of (mn, mx) \<Rightarrow> mn \<le> mx \<and> (\<forall>i < Suc n. mn \<le> src ! i \<and> src ! i \<le> mx)" for n
  proof (induction n)
    case (Suc n)
    obtain mn mx where mm: "fold ?f [1..<Suc n] (src ! 0, src ! 0) = (mn, mx)" by force
    with Suc have le: "mn \<le> mx" and all: "\<And>i. i < Suc n \<Longrightarrow> mn \<le> src ! i \<and> src ! i \<le> mx" by auto
    let ?v = "src ! Suc n"
    have "fold ?f [1..<Suc (Suc n)] (src ! 0, src ! 0) = ?f (Suc n) (mn, mx)" using mm by simp
    also have "\<dots> = (min ?v mn, max ?v mx)" using le by (auto simp: Let_def min_def max_def)
    finally have "fold ?f [1..<Suc (Suc n)] (src ! 0, src ! 0) = (min ?v mn, max ?v mx)" .
    moreover have "min ?v mn \<le> src ! i \<and> src ! i \<le> max ?v mx" if "i < Suc (Suc n)" for i
      using all [of i] that by (cases "i = Suc n") (auto intro: min.coboundedI2 max.coboundedI2)
    ultimately show ?case using le by (auto intro: min.coboundedI2 max.coboundedI2)
  qed simp
  from this [of 15] assms show "i < 16 \<Longrightarrow> mn \<le> src ! i \<and> src ! i \<le> mx" by (simp add: alpha_minmax_def)
qed

text \<open>The step of a value above the smallest, in eighths of the range.\<close>

definition alpha_step :: "u8 list \<Rightarrow> nat \<Rightarrow> int" where
  "alpha_step src n = (case alpha_minmax src of (mn, mx) \<Rightarrow>
     (uint (src ! n) - uint mn) * (0x10000 div (1 + uint mx - uint mn)) div 0x2000)"

lemma alpha_step_bounds:
  assumes "alpha_minmax src = (mn, mx)" "n < 16"
  defines "v \<equiv> uint (src ! n) - uint mn" and "r \<equiv> uint mx - uint mn"
  shows "0 \<le> v" "v \<le> r" "r \<le> 255" "0 \<le> alpha_step src n" "alpha_step src n < 8"
    "alpha_step src n * (r + 1) \<le> 8 * v" "8 * v \<le> (alpha_step src n + 1) * (r + 1) + 7"
proof -
  note mm = alpha_minmax_bounds [OF assms(1) assms(2)]
  show v: "0 \<le> v" "v \<le> r" using mm by (simp_all add: v_def r_def word_le_def)
  show r: "r \<le> 255" unfolding r_def using uint_byte_le [of mx] uint_nonnegative [of mn] by linarith
  define R q where "R = 0x10000 div (r + 1)" and "q = v * R div 0x2000"
  have a: "alpha_step src n = q"
    unfolding alpha_step_def assms(1) prod.case q_def R_def v_def r_def by (simp add: algebra_simps)
  have R0: "0 \<le> R" using v by (simp add: R_def pos_imp_zdiv_nonneg_iff)
  have qlo: "q * 0x2000 \<le> v * R" and qhi: "v * R < (q + 1) * 0x2000"
    unfolding q_def using int_div_bounds [of "0x2000" "v * R"] by simp_all
  have Rlo: "R * (r + 1) \<le> 0x10000" and Rhi: "0x10000 < (R + 1) * (r + 1)"
    unfolding R_def using int_div_bounds [of "r + 1" "0x10000"] v by simp_all
  have "0 \<le> v * R" using v R0 by simp
  then have q0: "0 \<le> q" by (simp add: q_def pos_imp_zdiv_nonneg_iff)
  have "q * (r + 1) * 0x2000 = q * 0x2000 * (r + 1)" by simp
  also have "\<dots> \<le> v * R * (r + 1)" using qlo v by (intro mult_right_mono) simp_all
  also have "\<dots> = v * (R * (r + 1))" by simp
  also have "\<dots> \<le> v * 0x10000" using Rlo v by (intro mult_left_mono) simp_all
  finally have lower: "q * (r + 1) \<le> 8 * v" by simp
  have "q * (r + 1) \<le> 8 * r" using lower v by simp
  then have "q < 8"
  proof -
    have "\<not> 8 \<le> q"
    proof
      assume "8 \<le> q"
      then have "8 * (r + 1) \<le> q * (r + 1)" using v by (intro mult_right_mono) simp_all
      with lower v show False by simp
    qed
    then show ?thesis by simp
  qed
  have "v * 0x10000 \<le> v * ((R + 1) * (r + 1))" using Rhi v by (intro mult_left_mono) simp_all
  also have "\<dots> = (v * R + v) * (r + 1)" by (simp add: algebra_simps)
  also have "\<dots> \<le> ((q + 1) * 0x2000 + v) * (r + 1)" using qhi v by (intro mult_right_mono) simp_all
  finally have "v * 0x10000 \<le> ((q + 1) * (r + 1)) * 0x2000 + v * (r + 1)" by (simp add: algebra_simps)
  moreover have "v * (r + 1) \<le> 255 * 256" using v r by (intro mult_mono) simp_all
  ultimately have upper: "8 * v \<le> (q + 1) * (r + 1) + 7" by linarith
  show "0 \<le> alpha_step src n" "alpha_step src n < 8" "alpha_step src n * (r + 1) \<le> 8 * v"
    "8 * v \<le> (alpha_step src n + 1) * (r + 1) + 7"
    unfolding a by (fact q0 \<open>q < 8\<close> lower upper)+
qed

lemma alpha_index_value:
  assumes "alpha_minmax src = (mn, mx)" "n < 16"
  shows "alpha_index src mn (alpha_range mn mx) n = word_of_int (AlphaIndexTable ! nat (alpha_step src n))"
proof -
  define v r R where "v = uint (src ! n) - uint mn" and "r = uint mx - uint mn" and "R = 0x10000 div (r + 1)"
  note b = alpha_step_bounds [OF assms, folded v_def r_def]
  have R: "0 \<le> R" "R \<le> 0x10000" unfolding R_def using b(1-3) zdiv_mono2 [of "0x10000" 1 "r + 1"]
    by (simp_all add: pos_imp_zdiv_nonneg_iff)
  have step: "alpha_step src n = v * R div 0x2000"
    unfolding alpha_step_def assms(1) prod.case v_def R_def r_def by (simp add: algebra_simps)
  have "mn \<le> src ! n" using alpha_minmax_bounds [OF assms(1,2)] by simp
  then have "uint (src ! n - mn) = v" by (simp add: uint_sub_if' word_le_def v_def)
  then have a: "(ucast (src ! n - mn) :: u32) = word_of_int v"
    by (simp only: ucast_eq)
  have "uint (word_of_int x :: u32) = x" if "0 \<le> x" "x \<le> 255 * 0x10000" for x
    using that by (simp add: unsigned_of_int take_bit_int_eq_self)
  moreover have vR: "0 \<le> v * R" "v * R \<le> 255 * 0x10000" using b(1-3) R mult_mono [of v 255 R "0x10000"] by simp_all
  ultimately have p: "uint (word_of_int (v * R) :: u32) = v * R" by blast
  have rng: "alpha_range mn mx = word_of_int R"
    by (simp add: alpha_range_def R_def r_def push_bit_eq_mult algebra_simps)
  have "uint (drop_bit 13 (word_of_int (v * R) :: u32)) = v * R div 0x2000"
    by (simp only: unsigned_drop_bit_eq p) (use vR in \<open>simp add: drop_bit_eq_div take_bit_int_eq_self\<close>)
  then have "unat (drop_bit 13 (word_of_int (v * R) :: u32)) = nat (alpha_step src n)"
    unfolding step unat_eq_nat_uint by simp
  then show ?thesis
    unfolding alpha_index_def Let_def a rng of_int_mult [symmetric] by simp
qed

definition not_uniform :: "u8 list \<Rightarrow> bool" where
  "not_uniform src \<longleftrightarrow> \<not> list_all (\<lambda>i. src ! i = src ! 0) [0..<16]"

lemma AlphaIndexTable_value: "0 \<le> q \<Longrightarrow> q < 8 \<Longrightarrow> AlphaIndexTable ! nat q = (if q = 0 then 1 else if q = 7 then 0 else 8 - q)"
proof -
  assume "0 \<le> q" "q < 8"
  then have "q \<in> {0, 1, 2, 3, 4, 5, 6, 7}" by auto
  then show ?thesis by (auto simp: AlphaIndexTable_def)
qed

lemma ProcessAlpha_fields:
  assumes "not_uniform src" "alpha_minmax src = (mn, mx)"
  shows "(ucast (ProcessAlpha src) :: u8) = mx" "(ucast (drop_bit 8 (ProcessAlpha src)) :: u8) = mn"
    "n < 16 \<Longrightarrow> unat (drop_bit (3 * n) (dxt5_aidx (ProcessAlpha src)) AND 0x7) = nat (AlphaIndexTable ! nat (alpha_step src n))"
proof -
  let ?data = "alpha_data src mn (alpha_range mn mx)"
  have b: "ProcessAlpha src = ucast mx OR push_bit 8 (ucast mn) OR push_bit 16 ?data"
    using assms by (simp add: ProcessAlpha_def not_uniform_def Let_def)
  show "(ucast (ProcessAlpha src) :: u8) = mx" "(ucast (drop_bit 8 (ProcessAlpha src)) :: u8) = mn"
    unfolding b by (rule byte_eqI, simp add: upt_8 bitwise)+
  assume n: "n < 16"
  define w where "w i = (word_of_int (AlphaIndexTable ! nat (alpha_step src i)) :: u64)" for i
  have t: "0 \<le> AlphaIndexTable ! nat (alpha_step src i) \<and> AlphaIndexTable ! nat (alpha_step src i) < 8" if "i < 16" for i
    using AlphaIndexTable_value [OF alpha_step_bounds(4,5) [OF assms(2) that]] alpha_step_bounds(4,5) [OF assms(2) that] by auto
  have u: "unat (w i) = nat (AlphaIndexTable ! nat (alpha_step src i))" if "i < 16" for i
    using t [OF that] unfolding w_def unat_eq_nat_uint by (simp add: unsigned_of_int take_bit_int_eq_self)
  have small: "\<not> bit (w i) m" if "i < 16" "3 \<le> m" for i m
  proof -
    define k where "k = nat (AlphaIndexTable ! nat (alpha_step src i))"
    have "w i = of_nat (unat (w i))" by simp
    then have wk: "w i = of_nat k" unfolding u [OF that(1)] k_def .
    have "k < 8" using t [OF that(1)] unfolding k_def by linarith
    then show ?thesis unfolding wk by (rule small_of_nat_bits [OF _ that(2)])
  qed
  have data: "?data = fold (\<lambda>i d. d OR push_bit (i * 3) (w i)) [0..<16] 0"
    unfolding alpha_data_def by (rule fold_cong) (simp_all only: w_def alpha_index_value [OF assms(2)] set_upt atLeastLessThan_iff)
  have d: "bit ?data k \<longleftrightarrow> k div 3 < 16 \<and> k < 64 \<and> bit (w (k div 3)) (k mod 3)" for k
    unfolding data using bit_packed [of 16 3 w k, OF small] by simp
  have "drop_bit (3 * n) (dxt5_aidx (ProcessAlpha src)) AND 0x7 = w n"
  proof (rule word_eq_bits)
    fix j :: nat assume j: "j < LENGTH(64)"
    have m: "(0x7 :: u64) = mask 3" by (simp add: mask_eq_exp_minus_1)
    show "bit (drop_bit (3 * n) (dxt5_aidx (ProcessAlpha src)) AND 0x7) j = bit (w n) j"
    proof (cases "j < 3")
      case True
      then have e: "(3 * n + j) div 3 = n" "(3 * n + j) mod 3 = j" "16 + (3 * n + j) < 64" using n by auto
      have "bit (dxt5_aidx (ProcessAlpha src)) (3 * n + j) = bit ?data (3 * n + j)"
        unfolding b dxt5_aidx_def using e(3) by (simp add: bit_simps bit_beyond)
      then show ?thesis using True n e unfolding m by (simp add: bit_and_iff bit_mask_iff bit_drop_bit_eq d)
    next
      case False
      then show ?thesis using small [OF n, of j] unfolding m by (simp add: bit_and_iff bit_mask_iff)
    qed
  qed
  then show "unat (drop_bit (3 * n) (dxt5_aidx (ProcessAlpha src)) AND 0x7) = nat (AlphaIndexTable ! nat (alpha_step src n))"
    using u [OF n] by simp
qed

lemma rgb_top: "drop_bit 24 (rgb (ucast (r :: u8)) (ucast (g :: u8)) (ucast (b :: u8))) = 0"
  by (rule word32_eqI) (simp add: rgb_def upt_32 bitwise)

lemma interpolated_byte:
  "third x y = ucast (word_of_int ((2 * uint x + uint y) div 3) :: u8)" "half x y = ucast (word_of_int ((uint x + uint y) div 2) :: u8)"
proof -
  have w: "(word_of_int v :: u32) = ucast (word_of_int v :: u8)" if "0 \<le> v" "v \<le> 255" for v
    using that by (intro word_uint_eqI) (simp add: unsigned_ucast_eq unsigned_of_int take_bit_int_eq_self)
  have "2 * uint x + uint y \<le> 255 * 3" "uint x + uint y \<le> 255 * 2" using uint_byte_le [of x] uint_byte_le [of y] by linarith+
  then have "(2 * uint x + uint y) div 3 \<le> 255 * 3 div 3" "(uint x + uint y) div 2 \<le> 255 * 2 div 2" by (intro zdiv_mono1; simp)+
  then show "third x y = ucast (word_of_int ((2 * uint x + uint y) div 3) :: u8)" "half x y = ucast (word_of_int ((uint x + uint y) div 2) :: u8)"
    unfolding third_def half_def by (intro w; simp add: pos_imp_zdiv_nonneg_iff)+
qed

lemma dxt_colours_top: "k < 4 \<Longrightarrow> drop_bit 24 (dxt_colours d ! k) = 0"
  using less_4_cases [of k] by (auto simp: dxt_colours_def Let_def interpolated_byte rgb_top)

lemma dxt5_image_alpha: "drop_bit 24 (dxt5_image a d i j) = drop_bit 24 (dxt5_alphas a ! unat (drop_bit (3 * (4 * j + i)) (dxt5_aidx a) AND 0x7))"
proof -
  have "unat (drop_bit (2 * (4 * j + i)) (dxt_idx d) AND 0x3) < 4"
  proof -
    have "drop_bit (2 * (4 * j + i)) (dxt_idx d) AND 0x3 = take_bit 2 (drop_bit (2 * (4 * j + i)) (dxt_idx d))"
      by (simp only: take_bit_eq_mask mask_eq_exp_minus_1) simp
    then show ?thesis by (simp only: unsigned_take_bit_eq take_bit_nat_less_exp [of 2, simplified])
  qed
  then show ?thesis by (simp add: dxt5_image_def drop_bit_or dxt_colours_top del: drop_bit_and)
qed

lemma sevenths:
  fixes lo hi q :: int
  assumes "0 \<le> q" "q \<le> 7" "0 \<le> lo" "lo \<le> hi"
  shows "(q * hi + (7 - q) * lo) div 7 = lo + q * (hi - lo) div 7" "lo \<le> lo + q * (hi - lo) div 7" "lo + q * (hi - lo) div 7 \<le> hi"
proof -
  have "q * hi + (7 - q) * lo = q * (hi - lo) + lo * 7" by (simp add: algebra_simps)
  then show "(q * hi + (7 - q) * lo) div 7 = lo + q * (hi - lo) div 7" by simp
  have "q * (hi - lo) \<le> 7 * (hi - lo)" using assms by (intro mult_right_mono) simp_all
  then have "q * (hi - lo) div 7 \<le> 7 * (hi - lo) div 7" by (intro zdiv_mono1) simp_all
  also have "\<dots> = hi - lo" by (rule nonzero_mult_div_cancel_left) simp
  finally show "lo + q * (hi - lo) div 7 \<le> hi" by simp
  have "0 \<le> q * (hi - lo)" using assms by simp
  then show "lo \<le> lo + q * (hi - lo) div 7" by (simp add: pos_imp_zdiv_nonneg_iff)
qed

lemma dxt5_alphas_entry:
  assumes "uint (ucast a :: u8) = hi" "uint (ucast (drop_bit 8 a) :: u8) = lo" "lo < hi" "0 \<le> q" "q < 8"
  shows "dxt5_alphas a ! nat (AlphaIndexTable ! nat q) = push_bit 24 (word_of_int ((q * hi + (7 - q) * lo) div 7))"
proof -
  have "q \<in> {0, 1, 2, 3, 4, 5, 6, 7}" using assms(4,5) by auto
  then show ?thesis
    unfolding AlphaIndexTable_value [OF assms(4,5)] dxt5_alphas_def assms(1,2) Let_def using assms(3)
    by (elim insertE emptyE) simp_all
qed

lemma shifted_byte: "0 \<le> v \<Longrightarrow> v \<le> 255 \<Longrightarrow> uint (drop_bit 24 (push_bit 24 (word_of_int v)) :: u32) = v"
proof -
  assume v: "0 \<le> v" "v \<le> 255"
  have "drop_bit 24 (push_bit 24 x) = take_bit 8 x" for x :: u32 by (rule word32_eqI) (simp add: upt_32 bitwise)
  then show ?thesis using v by (simp add: unsigned_take_bit_eq unsigned_of_int take_bit_int_eq_self)
qed

text \<open>The alpha value the decoder shows: between the extremes in sevenths.\<close>

lemma dxt5_shown:
  assumes "not_uniform src" "alpha_minmax src = (mn, mx)" "4 * j + i < 16"
  shows "uint (drop_bit 24 (dxt5_image (ProcessAlpha src) d i j)) =
    uint mn + alpha_step src (4 * j + i) * (uint mx - uint mn) div 7"
proof -
  define q where "q = alpha_step src (4 * j + i)"
  have q: "0 \<le> q" "q < 8" "q \<le> 7" using alpha_step_bounds(4,5) [OF assms(2,3)] by (simp_all add: q_def)
  have lt: "uint mn < uint mx"
  proof (rule ccontr)
    assume "\<not> uint mn < uint mx"
    then have "uint (src ! k) = uint (src ! 0)" if "k < 16" for k
      using alpha_minmax_bounds [OF assms(2) that] alpha_minmax_bounds [OF assms(2), of 0]
      unfolding word_le_def by linarith
    then have "src ! k = src ! 0" if "k < 16" for k using that by (blast intro: word_uint_eqI)
    then have "\<forall>k \<in> {0..<16}. src ! k = src ! 0" by (meson atLeastLessThan_iff)
    then show False using assms(1) unfolding not_uniform_def list_all_iff set_upt by contradiction
  qed
  note f = ProcessAlpha_fields [OF assms(1,2)]
  note s7 = sevenths [OF q(1,3) uint_nonnegative less_imp_le [OF lt]]
  have e: "dxt5_alphas (ProcessAlpha src) ! nat (AlphaIndexTable ! nat q) =
      push_bit 24 (word_of_int ((q * uint mx + (7 - q) * uint mn) div 7))"
    by (rule dxt5_alphas_entry [OF _ _ lt q(1,2)]) (simp_all only: f(1,2))
  have "drop_bit 24 (dxt5_image (ProcessAlpha src) d i j) =
      (drop_bit 24 (push_bit 24 (word_of_int ((q * uint mx + (7 - q) * uint mn) div 7))) :: u32)"
    unfolding dxt5_image_alpha f(3) [OF assms(3)] q_def [symmetric] e ..
  moreover have "0 \<le> uint mn + q * (uint mx - uint mn) div 7"
    by (rule order_trans [OF uint_nonnegative s7(2)])
  moreover have "uint mn + q * (uint mx - uint mn) div 7 \<le> 255"
    by (rule order_trans [OF s7(3) uint_byte_le])
  ultimately show ?thesis unfolding s7(1) q_def [symmetric] by (simp only: shifted_byte)
qed

lemma sevenths_close:
  fixes q r v :: int
  assumes "0 \<le> v" "v \<le> r" "0 \<le> q" "q < 8" "q * (r + 1) \<le> 8 * v" "8 * v \<le> (q + 1) * (r + 1) + 7"
  shows "\<bar>q * r div 7 - v\<bar> \<le> r div 8 + 2"
proof -
  define d e where "d = q * r div 7" and "e = r div 8"
  have d: "7 * d \<le> q * r" "q * r < 7 * d + 7" unfolding d_def by linarith+
  have e: "8 * e \<le> r" "r < 8 * e + 8" unfolding e_def by linarith+
  have "d - v \<le> e + 2 \<and> v - d \<le> e + 2" if "q = k" "k \<in> {0, 1, 2, 3, 4, 5, 6, 7}" for k
    using that(2) d e assms(1,2,5,6) unfolding that(1) by (elim insertE emptyE; simp)
  moreover have "q \<in> {0, 1, 2, 3, 4, 5, 6, 7}" using assms(3,4) by auto
  ultimately have "d - v \<le> e + 2 \<and> v - d \<le> e + 2" by blast
  then show ?thesis unfolding d_def [symmetric] e_def [symmetric] by (simp add: abs_le_iff)
qed

text \<open>C34: The alpha of a DXT5 block: a block of one value shows it exactly; in any other block the value shown at
  a pixel is within an eighth of the range of the block, and two, of the pixel's own.\<close>

theorem dxt5_alpha_close:
  assumes "4 * j + i < 16"
  shows "\<bar>uint (drop_bit 24 (dxt5_image (ProcessAlpha src) d i j)) - uint (src ! (4 * j + i))\<bar> \<le>
    (if not_uniform src then case alpha_minmax src of (mn, mx) \<Rightarrow> (uint mx - uint mn) div 8 + 2 else 0)"
proof (cases "not_uniform src")
  case True
  obtain mn mx where mm: "alpha_minmax src = (mn, mx)" by force
  note b = alpha_step_bounds [OF mm assms]
  have "\<bar>alpha_step src (4 * j + i) * (uint mx - uint mn) div 7 - (uint (src ! (4 * j + i)) - uint mn)\<bar> \<le> (uint mx - uint mn) div 8 + 2"
    by (rule sevenths_close [OF b(1,2,4,5,6,7)])
  then show ?thesis using True by (simp add: dxt5_shown [OF True mm assms] mm)
next
  case False
  then have e: "ProcessAlpha src = ucast (src ! 0)" unfolding ProcessAlpha_def not_uniform_def by (simp del: upt_rec_numeral)
  have "\<forall>k \<in> {0..<16}. src ! k = src ! 0" using False unfolding not_uniform_def list_all_iff set_upt by blast
  then have same: "src ! (4 * j + i) = src ! 0" using assms by (meson atLeastLessThan_iff le0)
  have "dxt5_aidx (ucast (src ! 0)) = 0"
    unfolding dxt5_aidx_def by (rule word64_eqI) (simp add: upt_64 bitwise)
  then have "drop_bit 24 (dxt5_image (ProcessAlpha src) d i j) = drop_bit 24 (dxt5_alphas (ucast (src ! 0)) ! 0)"
    by (simp only: dxt5_image_alpha e drop_bit_of_0 and_zero_eq zero_and_eq simp_thms unsigned_0)
  moreover have "dxt5_alphas (ucast x) ! 0 = push_bit 24 (word_of_int (uint x))" for x :: u8
  proof -
    have "(ucast (ucast x :: u64) :: u8) = x" by (rule byte_eqI) (simp add: upt_8 bitwise)
    then show ?thesis by (simp only: dxt5_alphas_def Let_def append_Cons list.map nth_Cons_0)
  qed
  ultimately have "uint (drop_bit 24 (dxt5_image (ProcessAlpha src) d i j)) = uint (src ! 0)"
    by (simp only: shifted_byte uint_nonnegative uint_byte_le)
  then show ?thesis using False unfolding same by simp
qed

lemma dxt5_alpha_close_witness:
  "\<bar>uint (drop_bit 24 (dxt5_image (ProcessAlpha slope_block) 0 1 2)) - uint (slope_block ! (4 * 2 + 1))\<bar> \<le>
    (if not_uniform slope_block then case alpha_minmax slope_block of (mn, mx) \<Rightarrow> (uint mx - uint mn) div 8 + 2 else 0)"
  by (rule dxt5_alpha_close) simp

section \<open>The image\<close>

text \<open>The block that is copied row by row.\<close>

definition rows_at :: "u32 list \<Rightarrow> nat \<Rightarrow> nat \<Rightarrow> u32 list" where
  "rows_at src width p = map (\<lambda>n. src ! (p + width * (n div 4) + n mod 4)) [0..<16]"

interpretation dxt_rows: block_reader "copy_rows src width" "rows_at src width" for src width
  by unfold_locales (simp add: copy_rows_def rows_at_def upt_4 upt_16)

definition dxt_block :: "u32 list \<Rightarrow> nat \<Rightarrow> nat \<Rightarrow> u32 list" where
  "dxt_block src width k = rows_at src width (block_pos width k)"

lemma dxt_block_pixel:
  assumes "width = 4 * n" "x < width"
  shows "dxt_block src width (y div 4 * (width div 4) + x div 4) ! (4 * (y mod 4) + x mod 4) = src ! (y * width + x)"
proof -
  have "4 * (y mod 4) + x mod 4 < 16" "(4 * (y mod 4) + x mod 4) div 4 = y mod 4" "(4 * (y mod 4) + x mod 4) mod 4 = x mod 4"
    by simp_all
  then show ?thesis
    using block_pos_pixel [OF assms, of y] by (simp add: dxt_block_def rows_at_def del: upt_Suc upt_rec_numeral)
qed

lemma CompressDxt1_blocks:
  assumes "width = 4 * n" "0 < n"
  shows "CompressDxt1 src blocks width =
    map (\<lambda>k. fix_indices (ProcessRGB_dxt (bytes_of (dxt_block src width k)))) [0..<loop_count blocks]"
  unfolding CompressDxt1_def dxt_rows.block_loop_fold [OF assms] dxt_block_def by (rule fold_append_map)

lemma CompressDxt1Dither_blocks:
  assumes "width = 4 * n" "0 < n"
  shows "CompressDxt1Dither src blocks width =
    map (\<lambda>k. fix_indices (ProcessRGB_dxt (Dither (bytes_of (dxt_block src width k))))) [0..<loop_count blocks]"
  unfolding CompressDxt1Dither_def dxt_rows.block_loop_fold [OF assms] dxt_block_def by (rule fold_append_map)

lemma CompressDxt5_blocks:
  assumes "width = 4 * n" "0 < n"
  shows "CompressDxt5 src blocks width = concat (map (\<lambda>k. [ProcessAlpha (fst (split_alpha (dxt_block src width k))),
      fix_indices (ProcessRGB_dxt (bytes_of (snd (split_alpha (dxt_block src width k)))))]) [0..<loop_count blocks])"
  unfolding CompressDxt5_def dxt_rows.block_loop_fold [OF assms] dxt_block_def case_prod_beta by (rule fold_append2_map)

text \<open>C14: Compressing an image to DXT and decoding it: pixel \<open>(x, y)\<close> of the result is pixel \<open>(x mod 4, y mod 4)\<close>
  of the compressed block in which the original pixel \<open>(x, y)\<close> was put, at that place, for DXT1, DXT1 with
  dithering and DXT5, whose alpha comes from the top byte of the pixels.\<close>

theorem dxt_compressed_image:
  assumes "w = 4 * n" "h = 4 * m" "0 < n" "n * m < 2 ^ 32" "x < w" "y < h" "length dst = w * h"
  shows "let k = y div 4 * (w div 4) + x div 4; i = x mod 4; j = y mod 4; b = dxt_block src w k; blocks = of_nat (n * m)
    in b ! (4 * j + i) = src ! (y * w + x) \<and>
      DecodeDxt1 (CompressDxt1 src blocks w) w h dst ! (y * w + x) = dxt1_image (fix_indices (ProcessRGB_dxt (bytes_of b))) i j \<and>
      DecodeDxt1 (CompressDxt1Dither src blocks w) w h dst ! (y * w + x) =
        dxt1_image (fix_indices (ProcessRGB_dxt (Dither (bytes_of b)))) i j \<and>
      DecodeDxt5 (CompressDxt5 src blocks w) w h dst ! (y * w + x) =
        dxt5_image (ProcessAlpha (map (\<lambda>v. ucast (drop_bit 24 v)) b))
          (fix_indices (ProcessRGB_dxt (bytes_of (map (\<lambda>v. v AND 0xFFFFFF) b)))) i j"
proof -
  define k where "k = y div 4 * (w div 4) + x div 4"
  have k: "k < loop_count (of_nat (n * m))"
    unfolding k_def by (rule pixel_block_visited [OF assms(1,2,4,5,6)])
  note dec = dxt1.decode_blocks_places(2) [OF assms(1,2,7,5,6), folded DecodeDxt1_def k_def]
    dxt5.decode_blocks_places(2) [OF assms(1,2,7,5,6), folded DecodeDxt5_def k_def]
  show ?thesis
    unfolding k_def [symmetric] Let_def dec CompressDxt1_blocks [OF assms(1,3)] CompressDxt1Dither_blocks [OF assms(1,3)]
      CompressDxt5_blocks [OF assms(1,3)] dxt_block_pixel [OF assms(1,5), of src y, folded k_def]
    unfolding concat_pairs_nth [OF k, THEN conjunct1] concat_pairs_nth [OF k, THEN conjunct2]
    using k by (simp only: nth_map length_map length_upt minus_nat.diff_0 nth_upt add_0 simp_thms split_alpha_def fst_conv snd_conv)
qed

lemma dxt_compressed_image_witness:
  "let k = 5 div 4 * (8 div 4) + 6 div 4; i = 6 mod 4; j = 5 mod 4; src = replicate 64 0xFF336699; b = dxt_block src 8 k;
      blocks = of_nat (2 * 2)
    in b ! (4 * j + i) = src ! (5 * 8 + 6) \<and>
      DecodeDxt1 (CompressDxt1 src blocks 8) 8 8 (replicate 64 0) ! (5 * 8 + 6) = dxt1_image (fix_indices (ProcessRGB_dxt (bytes_of b))) i j \<and>
      DecodeDxt1 (CompressDxt1Dither src blocks 8) 8 8 (replicate 64 0) ! (5 * 8 + 6) =
        dxt1_image (fix_indices (ProcessRGB_dxt (Dither (bytes_of b)))) i j \<and>
      DecodeDxt5 (CompressDxt5 src blocks 8) 8 8 (replicate 64 0) ! (5 * 8 + 6) =
        dxt5_image (ProcessAlpha (map (\<lambda>v. ucast (drop_bit 24 v)) b))
          (fix_indices (ProcessRGB_dxt (bytes_of (map (\<lambda>v. v AND 0xFFFFFF) b)))) i j"
  unfolding Let_def
  by (rule dxt_compressed_image [unfolded Let_def, where n = 2 and m = 2]) (simp_all only: length_replicate, simp_all)

end
