(* ===== verification/DxtVector.thy ===== *)
theory DxtVector imports DxtRoundTrip "HOL-Library.Monad_Syntax" begin

text \<open>
  The SSE4.1 and AVX2 branches of the DXT compressors of \<open>src/ProcessDxtc.cpp\<close>.  A register is the list of its
  16 bytes, or of its eight 16-bit lanes, and a 256-bit register is its two halves.  A read past the end of
  \<open>DivTable\<close> is \<open>None\<close>.
\<close>

section \<open>Registers\<close>

text \<open>\<open>_mm_loadu_si128( ((__m128i*)src) + j )\<close>\<close>

definition load_bytes :: "u8 list \<Rightarrow> nat \<Rightarrow> u8 list" where
  "load_bytes src j = map (\<lambda>k. src ! (16 * j + k)) [0..<16]"

definition set1_epi32 :: "u32 \<Rightarrow> u8 list" where
  "set1_epi32 c = bytes_of (replicate 4 c)"

definition and_bytes :: "u8 list \<Rightarrow> u8 list \<Rightarrow> u8 list" where
  "and_bytes = map2 (AND)"

definition cmpeq_epi8 :: "u8 list \<Rightarrow> u8 list \<Rightarrow> u8 list" where
  "cmpeq_epi8 = map2 (\<lambda>x y. if x = y then 0xFF else 0)"

definition shuffle_lanes :: "u8 list \<Rightarrow> nat list \<Rightarrow> u8 list" where
  "shuffle_lanes a sel = concat (map (\<lambda>l. take 4 (drop (4 * l) a)) sel)"

text \<open>The lower of the two sums of absolute differences.\<close>

definition sad_epu8 :: "u8 list \<Rightarrow> u8 list \<Rightarrow> nat" where
  "sad_epu8 a b = sum_list (map2 (\<lambda>x y. nat \<bar>uint x - uint y\<bar>) (take 8 a) (take 8 b))"

definition maddubs_epi16 :: "u8 list \<Rightarrow> u8 list \<Rightarrow> u16 list" where
  "maddubs_epi16 a b = map (\<lambda>k. word_of_int (max (- 32768) (min 32767
     (uint (a ! (2 * k)) * sint (b ! (2 * k)) + uint (a ! (2 * k + 1)) * sint (b ! (2 * k + 1)))))) [0..<8]"

definition hadd_epi16 :: "u16 list \<Rightarrow> u16 list \<Rightarrow> u16 list" where
  "hadd_epi16 a b = map (\<lambda>k. a ! (2 * k) + a ! (2 * k + 1)) [0..<4] @ map (\<lambda>k. b ! (2 * k) + b ! (2 * k + 1)) [0..<4]"

definition mulhi_epu16 :: "u16 list \<Rightarrow> u16 \<Rightarrow> u16 list" where
  "mulhi_epu16 a r = map (\<lambda>x. ucast (drop_bit 16 (ucast x * ucast r :: u32))) a"

definition srai_epi32 :: "m128 \<Rightarrow> nat \<Rightarrow> m128" where
  "srai_epi32 a n = map (signed_drop_bit n) a"

section \<open>A block of colours\<close>

definition solid_sse :: "u8 list list \<Rightarrow> bool" where
  "solid_sse px = (let
     smask = set1_epi32 0xF8FCF8;
     sd = map (\<lambda>p. and_bytes p smask) px;
     sc = shuffle_lanes (sd ! 0) [0, 0, 0, 0];
     sc0 = cmpeq_epi8 (sd ! 0) sc; sc1 = cmpeq_epi8 (sd ! 1) sc;
     sc2 = cmpeq_epi8 (sd ! 2) sc; sc3 = cmpeq_epi8 (sd ! 3) sc;
     sm = and_bytes (and_bytes sc0 sc1) (and_bytes sc2 sc3)
   in list_all (\<lambda>b. b = 0xFF) sm)"

text \<open>The least or the greatest byte of each channel, in all lanes.\<close>

definition reduce_epu8 :: "(u8 \<Rightarrow> u8 \<Rightarrow> u8) \<Rightarrow> u8 list list \<Rightarrow> u8 list" where
  "reduce_epu8 f px = (let
     m0 = map2 f (px ! 0) (px ! 1);
     m1 = map2 f (px ! 2) (px ! 3);
     m2 = map2 f m0 m1;
     m3 = shuffle_lanes m2 [1, 0, 3, 2];
     m4 = map2 f m2 m3;
     m5 = shuffle_lanes m4 [2, 2, 0, 0]
   in map2 f m4 m5)"

text \<open>\<open>_mm_srli_epi16\<close> on the 16-bit lanes of a register of bytes.\<close>

definition srli_lanes :: "u8 list \<Rightarrow> nat \<Rightarrow> u8 list" where
  "srli_lanes a n = concat (map (\<lambda>k. let v = drop_bit n (ucast (a ! (2 * k)) OR push_bit 8 (ucast (a ! (2 * k + 1))) :: u16)
     in [ucast v, ucast (drop_bit 8 v)]) [0..<8])"

definition inset_sse :: "u8 list \<Rightarrow> u8 list \<Rightarrow> u8 list \<times> u8 list" where
  "inset_sse rmin rmax = (let
     range1 = subs_epu8 rmax rmin;
     inset1 = srli_lanes range1 4;
     inset = and_bytes inset1 (replicate 16 0xF)
   in (adds_epu8 rmin inset, subs_epu8 rmax inset))"

definition range_sse :: "u8 list \<Rightarrow> u8 list \<Rightarrow> u16 option" where
  "range_sse rmin rmax = (let vrange = sad_epu8 rmax rmin div 2 in
     if vrange < length DivTable then Some (word_of_int (DivTable ! vrange)) else None)"

definition indices_sse :: "u8 list list \<Rightarrow> u8 list \<Rightarrow> u16 \<Rightarrow> u32" where
  "indices_sse px rmin rng = (let
     c = map (\<lambda>p. subs_epu8 p rmin) px;
     is = map (\<lambda>c. maddubs_epi16 c (replicate 16 1)) c;
     s0 = hadd_epi16 (is ! 0) (is ! 1);
     s1 = hadd_epi16 (is ! 2) (is ! 3);
     m0 = mulhi_epu16 s0 rng;
     m1 = mulhi_epu16 s1 rng;
     p0 = words_of (packus_epi16 (m0 @ m1));
     p1 = or_si128 (srai_epi32 p0 6) (srai_epi32 p0 12);
     p2 = or_si128 (srai_epi32 p0 18) p0;
     p3 = or_si128 p1 p2;
     p = shuffle_epi8 p3 (replicate 4 0x0C080400)
   in p ! 0)"

definition colours_sse :: "u8 list list \<Rightarrow> u64 option" where
  "colours_sse px = (let
     rmin = reduce_epu8 min px;
     rmax = reduce_epu8 max px
   in do {
     rng \<leftarrow> range_sse rmin rmax;
     let (mn, mx) = inset_sse rmin rmax;
     let vmin = words_of mn ! 0;
     let vmax = words_of mx ! 0;
     let vp = indices_sse px rmin rng;
     Some (push_bit 16 (ucast (to565_word vmin)) OR ucast (to565_word vmax) OR push_bit 32 (ucast vp))
   })"

definition ProcessRGB_dxt_sse :: "u8 list \<Rightarrow> u64 option" where
  "ProcessRGB_dxt_sse src = (let px = map (load_bytes src) [0..<4] in
     if solid_sse px then Some (push_bit 16 (ucast (to565_word (word_of_bytes (take 4 src)))))
     else colours_sse px)"

text \<open>The form for DXT5 blanks the alpha bytes of a block that is not solid.\<close>

definition ProcessRGB_SSE :: "u8 list list \<Rightarrow> u64 option" where
  "ProcessRGB_SSE px = (
     if solid_sse px then Some (push_bit 16 (ucast (to565_word (words_of (px ! 0) ! 0))))
     else colours_sse (map (\<lambda>p. and_bytes p (set1_epi32 0xFFFFFF)) px))"

section \<open>Lanes\<close>

definition channel_set :: "u8 list \<Rightarrow> nat \<Rightarrow> u8 set" where
  "channel_set src c = (\<lambda>i. src ! (4 * i + c)) ` {0..<16}"

lemma lanes_16: "k < 16 \<Longrightarrow> \<exists>l < 4. \<exists>c < 4. k = 4 * l + (c :: nat)"
  by (intro exI [of _ "k div 4"] conjI exI [of _ "k mod 4"]) simp_all

lemma shuffle_lanes_nth:
  assumes "length a = 16" "length sel = 4" "\<And>l. l < 4 \<Longrightarrow> sel ! l < 4"
  shows "l < 4 \<Longrightarrow> c < 4 \<Longrightarrow> shuffle_lanes a sel ! (4 * l + c) = a ! (4 * (sel ! l) + c)" and "length (shuffle_lanes a sel) = 16"
proof -
  let ?f = "\<lambda>l. take 4 (drop (4 * sel ! l) a)"
  have len: "length (?f l) = 4" if "l < 4" for l using assms(1) assms(3) [OF that] by simp
  have sel: "shuffle_lanes a sel = concat (map ?f [0..<4])"
    using map_nth [of sel] assms(2) unfolding shuffle_lanes_def by (metis (no_types, lifting) map_map o_def map_eq_conv)
  show "length (shuffle_lanes a sel) = 16" unfolding sel upt_4 using len by (simp add: length_concat)
  assume "l < 4" "c < 4"
  then have "shuffle_lanes a sel ! (4 * l + c) = ?f l ! c" unfolding sel by (intro concat_map_nth len)
  also have "\<dots> = a ! (4 * (sel ! l) + c)" using assms(1) assms(3) [OF \<open>l < 4\<close>] \<open>c < 4\<close> by simp
  finally show "shuffle_lanes a sel ! (4 * l + c) = a ! (4 * (sel ! l) + c)" .
qed

definition lane_value :: "(u8 \<Rightarrow> u8 \<Rightarrow> u8) \<Rightarrow> u8 list \<Rightarrow> nat \<Rightarrow> nat \<Rightarrow> u8" where
  "lane_value f src c l = f (f (src ! (4 * l + c)) (src ! (16 + (4 * l + c)))) (f (src ! (32 + (4 * l + c))) (src ! (48 + (4 * l + c))))"

lemma reduce_epu8_nth:
  fixes src :: "u8 list"
  assumes comm: "\<And>x y. f x y = f y x" and "l < 4" "c < 4"
  defines "px \<equiv> map (load_bytes src) [0..<4]"
  shows "reduce_epu8 f px ! (4 * l + c) = f (f (lane_value f src c 0) (lane_value f src c 1)) (f (lane_value f src c 2) (lane_value f src c 3))"
    and "length (reduce_epu8 f px) = 16"
proof -
  define u v where "u = [1, 0, 3, 2 :: nat]" and "v = [2, 2, 0, 0 :: nat]"
  have sel: "length u = 4" "length v = 4" "l < 4 \<Longrightarrow> u ! l < 4" "l < 4 \<Longrightarrow> v ! l < 4" for l
    using less_4_cases [of l] by (auto simp: u_def v_def)
  define m2 where "m2 = map2 f (map2 f (px ! 0) (px ! 1)) (map2 f (px ! 2) (px ! 3))"
  define m4 where "m4 = map2 f m2 (shuffle_lanes m2 u)"
  have r: "reduce_epu8 f px = map2 f m4 (shuffle_lanes m4 v)" by (simp add: reduce_epu8_def Let_def m2_def m4_def u_def v_def)
  have len2: "length m2 = 16" by (simp add: m2_def px_def upt_4 load_bytes_def)
  have two: "m2 ! (4 * l + c) = lane_value f src c l" if "l < 4" for l
    using that assms(3) by (simp add: m2_def px_def upt_4 load_bytes_def lane_value_def)
  note s1 = shuffle_lanes_nth [OF len2 sel(1,3)]
  have len4: "length m4 = 16" using s1 len2 by (simp add: m4_def)
  note s2 = shuffle_lanes_nth [OF len4 sel(2,4)]
  show "length (reduce_epu8 f px) = 16" using s2 len4 by (simp add: r)
  have four: "m4 ! (4 * l + c) = f (lane_value f src c l) (lane_value f src c (u ! l))" if "l < 4" for l
    using that s1 len2 assms(3) sel(3) [OF that] by (simp add: m4_def two)
  have "reduce_epu8 f px ! (4 * l + c) = f (m4 ! (4 * l + c)) (m4 ! (4 * (v ! l) + c))"
    using assms(2,3) s2 len4 by (simp add: r)
  also have "\<dots> = f (f (lane_value f src c l) (lane_value f src c (u ! l))) (f (lane_value f src c (v ! l)) (lane_value f src c (u ! (v ! l))))"
    using four assms(2) sel(4) by simp
  also have "\<dots> = f (f (lane_value f src c 0) (lane_value f src c 1)) (f (lane_value f src c 2) (lane_value f src c 3))"
    using less_4_cases [OF assms(2)] by (elim disjE) (simp_all add: u_def v_def, (simp_all add: comm)?)
  finally show "reduce_epu8 f px ! (4 * l + c) = f (f (lane_value f src c 0) (lane_value f src c 1)) (f (lane_value f src c 2) (lane_value f src c 3))" .
qed

definition lane_set :: "u8 list \<Rightarrow> nat \<Rightarrow> nat \<Rightarrow> u8 set" where
  "lane_set src c l = {src ! (4 * l + c), src ! (16 + (4 * l + c)), src ! (32 + (4 * l + c)), src ! (48 + (4 * l + c))}"

lemma channel_set_lanes: "channel_set src c = (lane_set src c 0 \<union> lane_set src c 1) \<union> (lane_set src c 2 \<union> lane_set src c 3)"
  unfolding channel_set_def atLeastLessThan_upt upt_16 set_simps(2) list.set(2) lane_set_def by auto

lemma lane_set_finite: "finite (lane_set src c l)" "lane_set src c l \<noteq> {}"
  by (simp_all add: lane_set_def)

lemma lane_value_extreme: "lane_value min src c l = Min (lane_set src c l)" "lane_value max src c l = Max (lane_set src c l)"
  by (simp_all add: lane_value_def lane_set_def ac_simps)

lemma reduce_extremes:
  assumes "k < 16"
  shows "reduce_epu8 min (map (load_bytes src) [0..<4]) ! k = Min (channel_set src (k mod 4))"
    "reduce_epu8 max (map (load_bytes src) [0..<4]) ! k = Max (channel_set src (k mod 4))"
proof -
  obtain l c where k: "l < 4" "c < 4" "k = 4 * l + c" using lanes_16 [OF assms] by blast
  note fin = lane_set_finite [of src]
  show "reduce_epu8 min (map (load_bytes src) [0..<4]) ! k = Min (channel_set src (k mod 4))"
    unfolding k(3) reduce_epu8_nth(1) [OF min.commute k(1,2)] channel_set_lanes using k(2)
    by (simp add: Min_Un fin lane_value_extreme)
  show "reduce_epu8 max (map (load_bytes src) [0..<4]) ! k = Max (channel_set src (k mod 4))"
    unfolding k(3) reduce_epu8_nth(1) [OF max.commute k(1,2)] channel_set_lanes using k(2)
    by (simp add: Max_Un fin lane_value_extreme)
qed

lemma minmax_channel:
  assumes "c < 3"
  shows "fst (dxt_minmax src) ! c = Min (channel_set src c)" "snd (dxt_minmax src) ! c = Max (channel_set src c)"
proof -
  note e = dxt_minmax_extremes [of src, unfolded extremes_def, THEN conjunct2, THEN conjunct2, rule_format, OF assms]
  have fin: "finite (channel_set src c)" by (simp add: channel_set_def)
  show "fst (dxt_minmax src) ! c = Min (channel_set src c)"
    using e by (intro Min_eqI [symmetric] fin) (auto simp: channel_set_def)
  show "snd (dxt_minmax src) ! c = Max (channel_set src c)"
    using e by (intro Max_eqI [symmetric] fin) (auto simp: channel_set_def)
qed

section \<open>The end points\<close>

lemma reduce_bytes:
  "reduce_epu8 min (map (load_bytes src) [0..<4]) = map (\<lambda>k. Min (channel_set src (k mod 4))) [0..<16]"
  "reduce_epu8 max (map (load_bytes src) [0..<4]) = map (\<lambda>k. Max (channel_set src (k mod 4))) [0..<16]"
  by (rule nth_equalityI; use reduce_epu8_nth(2) [OF min.commute, of 0 0] reduce_epu8_nth(2) [OF max.commute, of 0 0]
      in \<open>simp add: reduce_extremes\<close>)+

lemma low_halves:
  "ucast (drop_bit 4 (ucast a OR push_bit 8 (ucast b) :: u16)) AND 0xF = (drop_bit 4 a :: u8)"
  "ucast (drop_bit 8 (drop_bit 4 (ucast a OR push_bit 8 (ucast b) :: u16))) AND 0xF = (drop_bit 4 b :: u8)"
  by (rule byte_eqI, simp add: upt_8 bitwise)+

lemma srli_lanes_nth:
  assumes "k < 16"
  shows "(srli_lanes a 4 ! k) AND 0xF = drop_bit 4 (a ! k)" and "length (srli_lanes a 4) = 16"
proof -
  define f :: "nat \<Rightarrow> u8 list" where "f = (\<lambda>k. let v = drop_bit 4 (ucast (a ! (2 * k)) OR push_bit 8 (ucast (a ! (2 * k + 1))) :: u16) in [ucast v, ucast (drop_bit 8 v)])"
  have s: "srli_lanes a 4 = concat (map f [0..<8])" by (simp only: srli_lanes_def f_def)
  have two: "length (f l) = 2" for l by (simp add: f_def Let_def)
  show "length (srli_lanes a 4) = 16" unfolding s upt_8 using two by (simp add: length_concat)
  obtain l i where k: "k = 2 * l + i" "l < 8" "i < 2"
    using assms by (intro that [of "k div 2" "k mod 2"]) auto
  have "concat (map f [0..<8]) ! k = f l ! i" unfolding k(1) using two k(2,3) by (intro concat_map_nth)
  moreover have "f l ! 0 AND 0xF = drop_bit 4 (a ! (2 * l))" "f l ! 1 AND 0xF = drop_bit 4 (a ! (2 * l + 1))"
    unfolding f_def Let_def nth_Cons_0 One_nat_def nth_Cons_Suc by (rule low_halves)+
  moreover have "i = 0 \<or> i = 1" using k(3) by linarith
  ultimately show "(srli_lanes a 4 ! k) AND 0xF = drop_bit 4 (a ! k)" using k(1) by (auto simp only: s add_0_right)
qed

lemma inset_sse_nth:
  assumes "length lo = 16" "length hi = 16"
  shows "k < 16 \<Longrightarrow> fst (inset_sse lo hi) ! k = of_nat (min 255 (unat (lo ! k) + unat (drop_bit 4 (of_nat (unat (hi ! k) - unat (lo ! k)) :: u8))))"
    "k < 16 \<Longrightarrow> snd (inset_sse lo hi) ! k = of_nat (unat (hi ! k) - unat (drop_bit 4 (of_nat (unat (hi ! k) - unat (lo ! k)) :: u8)))"
    "length (fst (inset_sse lo hi)) = 16" "length (snd (inset_sse lo hi)) = 16"
  using assms srli_lanes_nth(2) [of 0 "subs_epu8 hi lo"]
  by (simp_all add: inset_sse_def Let_def adds_epu8_def and_bytes_def srli_lanes_nth(1) del: of_nat_diff) 
    (simp_all add: subs_epu8_def srli_lanes_nth)

lemma to565_word_bytes: "to565_word (word_of_bytes [a, b, c, d]) = to565 a b c"
  by (rule word16_eqI) (simp add: to565_word_def to565_def word_of_bytes_def upt_16 bitwise)

lemma first_word: "length xs = 16 \<Longrightarrow> words_of xs ! 0 = word_of_bytes [xs ! 0, xs ! 1, xs ! 2, xs ! 3]"
  by (simp add: words_of_def word_of_bytes_def)

definition lo :: "u8 list \<Rightarrow> nat \<Rightarrow> u8" where
  "lo src c = Min (channel_set src c)"

definition hi :: "u8 list \<Rightarrow> nat \<Rightarrow> u8" where
  "hi src c = Max (channel_set src c)"

lemma lo_le_hi: "lo src c \<le> hi src c" "i < 16 \<Longrightarrow> lo src c \<le> src ! (4 * i + c)" "i < 16 \<Longrightarrow> src ! (4 * i + c) \<le> hi src c"
proof -
  have fin: "finite (channel_set src c)" "channel_set src c \<noteq> {}" by (simp_all add: channel_set_def)
  show "lo src c \<le> hi src c" unfolding lo_def hi_def using fin by (meson Max_in Min_le)
  show "i < 16 \<Longrightarrow> lo src c \<le> src ! (4 * i + c)" "i < 16 \<Longrightarrow> src ! (4 * i + c) \<le> hi src c"
    unfolding lo_def hi_def by (intro Min_le Max_ge fin; simp add: channel_set_def)+
qed

lemma unat_small_u8: "n < 256 \<Longrightarrow> unat (of_nat n :: u8) = n"
  by (simp add: unsigned_of_nat take_bit_nat_eq_self)

lemma unat_drop_4: "unat (drop_bit 4 (w :: u8)) = unat w div 16"
  by (simp only: unsigned_drop_bit_eq) (simp add: drop_bit_eq_div take_bit_nat_eq_self unat_byte_le [THEN le_less_trans])

lemma inset_byte:
  fixes a b :: u8
  assumes "a \<le> b"
  shows "uint (of_nat (min 255 (unat a + unat (drop_bit 4 (of_nat (unat b - unat a) :: u8)))) :: u8) = uint a + (uint b - uint a) div 16"
    "uint (of_nat (unat b - unat (drop_bit 4 (of_nat (unat b - unat a) :: u8))) :: u8) = uint b - (uint b - uint a) div 16"
proof -
  define x y q where "x = unat a" and "y = unat b" and "q = (y - x) div 16"
  have le: "x \<le> y" "y \<le> 255" using assms unat_byte_le [of b] unfolding x_def y_def by (simp_all only: word_le_nat_alt)
  have "y - x < 256" using le by simp
  from unat_small_u8 [OF this] have d: "unat (drop_bit 4 (of_nat (y - x) :: u8)) = q" by (simp only: unat_drop_4 q_def)
  have "q \<le> y - x" by (simp add: q_def)
  then have k: "x + q \<le> y" "q \<le> y" using le(1) by linarith+
  have u: "uint w = int (unat w)" for w :: u8 by (rule uint_nat)
  have i: "(int y - int x) div 16 = int q" unfolding q_def zdiv_int of_nat_diff [OF le(1)] by simp
  have m: "min 255 (x + q) = x + q" "x + q < 256" "y - q < 256" using le k by simp_all
  show "uint (of_nat (min 255 (unat a + unat (drop_bit 4 (of_nat (unat b - unat a) :: u8)))) :: u8) = uint a + (uint b - uint a) div 16"
    unfolding u x_def [symmetric] y_def [symmetric] d i m(1) unat_small_u8 [OF m(2)] by simp
  show "uint (of_nat (unat b - unat (drop_bit 4 (of_nat (unat b - unat a) :: u8))) :: u8) = uint b - (uint b - uint a) div 16"
    unfolding u x_def [symmetric] y_def [symmetric] d i unat_small_u8 [OF m(3)] using k by (simp add: of_nat_diff)
qed

lemma ends_sse:
  fixes src :: "u8 list"
  defines "px \<equiv> map (load_bytes src) [0..<4]"
  defines "ends \<equiv> inset_sse (reduce_epu8 min px) (reduce_epu8 max px)"
  shows "to565_word (words_of (fst ends) ! 0) = low_565 src" "to565_word (words_of (snd ends) ! 0) = high_565 src"
proof -
  obtain mn mx where mm: "dxt_minmax src = (mn, mx)" by force
  have len: "length (reduce_epu8 min px) = 16" "length (reduce_epu8 max px) = 16" by (simp_all add: px_def reduce_bytes)
  note e = inset_sse_nth [OF len, folded ends_def]
  have minmax: "mn ! c = lo src c" "mx ! c = hi src c" if "c < 3" for c
    using minmax_channel [OF that, of src] by (simp_all add: mm lo_def hi_def)
  have len3: "length mn = 3" "length mx = 3" using dxt_minmax_extremes [of src] by (simp_all add: mm extremes_def)
  have le: "uint (mn ! c) \<le> uint (mx ! c)" if "c < 3" for c using lo_le_hi(1) [of src c] that by (simp add: minmax word_le_def)
  note v = dxt_inset_value [OF len3 le]
  have byte: "fst ends ! c = fst (dxt_inset (mn, mx)) ! c" "snd ends ! c = snd (dxt_inset (mn, mx)) ! c" if "c < 3" for c
    by (rule word_uint_eqI; use that in \<open>simp only: v minmax e reduce_bytes px_def\<close>;
      use that in \<open>simp add: e inset_byte lo_le_hi lo_def [symmetric] hi_def [symmetric] reduce_bytes px_def\<close>)+
  show "to565_word (words_of (fst ends) ! 0) = low_565 src" "to565_word (words_of (snd ends) ! 0) = high_565 src"
    using e(3,4) byte [of 0] byte [of 1] byte [of 2]
    by (simp_all add: first_word to565_word_bytes low_565_def high_565_def mm split: prod.split)
qed

section \<open>The indices\<close>

definition reach :: "u8 list \<Rightarrow> nat" where
  "reach src = (\<Sum>c \<leftarrow> [0..<4]. unat (hi src c) - unat (lo src c))"

definition rise :: "u8 list \<Rightarrow> nat \<Rightarrow> nat" where
  "rise src i = (\<Sum>c \<leftarrow> [0..<4]. unat (src ! (4 * i + c)) - unat (lo src c))"

lemma abs_byte_diff: "a \<le> b \<Longrightarrow> nat \<bar>uint (b :: u8) - uint a\<bar> = unat b - unat a"
  unfolding uint_nat word_le_nat_alt by (simp only: abs_of_nonneg of_nat_diff [symmetric] nat_int of_nat_0_le_iff)

lemma range_sse_value:
  fixes src :: "u8 list"
  defines "px \<equiv> map (load_bytes src) [0..<4]"
  shows "range_sse (reduce_epu8 min px) (reduce_epu8 max px) = (if reach src < 766 then Some (word_of_int (DivTable ! reach src)) else None)"
proof -
  have "sad_epu8 (reduce_epu8 max px) (reduce_epu8 min px) = 2 * reach src"
    unfolding px_def reduce_bytes sad_epu8_def lo_def [symmetric] hi_def [symmetric] reach_def upt_16
    by (simp add: abs_byte_diff lo_le_hi upt_4)
  moreover have "length DivTable = 766" by (simp add: DivTable_values)
  ultimately show ?thesis by (simp add: range_sse_def)
qed

lemma madd_bytes: "word_of_int (max (- 32768) (min 32767 (uint (a :: u8) + uint (b :: u8)))) = (of_nat (unat a + unat b) :: u16)"
proof -
  have b: "0 \<le> uint a + uint b" "uint a + uint b \<le> 32767"
    using uint_byte_le [of a] uint_byte_le [of b] by simp_all
  have "max (- 32768) (min 32767 (uint a + uint b)) = int (unat a + unat b)"
    using b by (subst min.absorb2, linarith, subst max.absorb2, linarith, simp)
  then show ?thesis by (simp only: of_int_of_nat_eq)
qed

definition sums_16 :: "u8 list \<Rightarrow> nat \<Rightarrow> u16 list" where
  "sums_16 src j = maddubs_epi16 (subs_epu8 (load_bytes src j) (map (\<lambda>k. lo src (k mod 4)) [0..<16])) (replicate 16 1)"

lemma sums_16_nth: "m < 8 \<Longrightarrow> sums_16 src j ! m = of_nat (unat (src ! (16 * j + 2 * m)) - unat (lo src (2 * m mod 4)) +
    (unat (src ! (16 * j + 2 * m + 1)) - unat (lo src ((2 * m + 1) mod 4))))"
proof -
  assume m: "m < 8"
  have small: "unat (of_nat (unat (x :: u8) - y) :: u8) = unat x - y" for x y
    using unat_byte_le [of x] by (intro unat_small_u8) simp
  show ?thesis
    using m by (simp add: sums_16_def maddubs_epi16_def madd_bytes subs_epu8_def load_bytes_def small del: of_nat_add of_nat_diff)
qed

lemma pixel_sum:
  assumes "k < 4"
  shows "sums_16 src j ! (2 * k) + sums_16 src j ! (2 * k + 1) = of_nat (rise src (4 * j + k))"
proof -
  have m: "2 * (2 * k) mod 4 = 0" "(2 * (2 * k) + 1) mod 4 = 1" "2 * (2 * k + 1) mod 4 = 2" "(2 * (2 * k + 1) + 1) mod 4 = 3" by presburger+
  have at: "16 * j + 2 * (2 * k) = 4 * (4 * j + k) + 0" "16 * j + 2 * (2 * k) + 1 = 4 * (4 * j + k) + 1"
    "16 * j + 2 * (2 * k + 1) = 4 * (4 * j + k) + 2" "16 * j + 2 * (2 * k + 1) + 1 = 4 * (4 * j + k) + 3" by simp_all
  have k: "2 * k < 8" "2 * k + 1 < 8" using assms by simp_all
  show ?thesis unfolding sums_16_nth [OF k(1)] sums_16_nth [OF k(2)] m at rise_def upt_4 of_nat_add [symmetric]
    by (rule arg_cong [of _ _ of_nat]) (simp add: numeral_3_eq_3)
qed

lemma hadd_rises: "hadd_epi16 (sums_16 src j) (sums_16 src k) =
    map (\<lambda>i. of_nat (rise src (4 * j + i))) [0..<4] @ map (\<lambda>i. of_nat (rise src (4 * k + i))) [0..<4]"
  unfolding hadd_epi16_def by (simp add: pixel_sum [symmetric])

text \<open>Four indices of two bits in the bytes of a word are brought together.\<close>

definition two_bit :: "u8 \<Rightarrow> bool" where
  "two_bit b \<longleftrightarrow> (\<forall>m. 2 \<le> m \<longrightarrow> \<not> bit b m)"

definition gathered :: "u32 \<Rightarrow> u32" where
  "gathered w = (signed_drop_bit 6 w OR signed_drop_bit 12 w) OR (signed_drop_bit 18 w OR w)"

lemma gathered_byte:
  assumes "two_bit a" "two_bit b" "two_bit c" "two_bit d"
  shows "ucast (gathered (word_of_bytes [a, b, c, d])) = a OR push_bit 2 b OR push_bit 4 c OR push_bit 6 d"
  by (rule byte_eqI; use assms in \<open>simp add: gathered_def two_bit_def word_of_bytes_def upt_8 bitwise bit_signed_drop_bit_iff\<close>)

lemma low_bytes: "length p = 4 \<Longrightarrow> shuffle_epi8 p (replicate 4 0x0C080400) ! 0 = word_of_bytes [ucast (p ! 0), ucast (p ! 1), ucast (p ! 2), ucast (p ! 3)]"
proof -
  assume "length p = 4"
  then obtain a b c d where p: "p = [a, b, c, d]" using length_4_cases by blast
  have sel: "word_bytes 0x0C080400 = [0, 4, 8, 12]" by simp
  show ?thesis
    unfolding p shuffle_epi8_def Let_def replicate_4 bytes_of_def list.map sel words_of_def concat.simps by simp
qed

lemma packus_bytes: "packus_epi16 (map (\<lambda>i. ucast (b i)) xs) = map b xs"
proof -
  have "sint (ucast w :: u16) = uint w" for w :: u8
  proof -
    have "- 32768 \<le> uint w" using uint_nonnegative [of w] by linarith
    then show ?thesis
      using uint_byte_le [of w] by (simp add: sint_uint unsigned_ucast_eq take_bit_int_eq_self signed_take_bit_int_eq_self)
  qed
  moreover have "ucast (ucast w :: u16) = w" for w :: u8 by (rule byte_eqI) (simp add: upt_8 bitwise)
  moreover have "\<not> 255 < uint w" for w :: u8 using uint_byte_le [of w] by simp
  ultimately show ?thesis by (simp add: packus_epi16_def)
qed

definition gather_words :: "m128 \<Rightarrow> u32" where
  "gather_words p0 = shuffle_epi8 (or_si128 (or_si128 (srai_epi32 p0 6) (srai_epi32 p0 12)) (or_si128 (srai_epi32 p0 18) p0)) (replicate 4 0x0C080400) ! 0"

lemma gather_words_value:
  assumes "\<And>i. i < 16 \<Longrightarrow> two_bit (b i)"
  shows "gather_words (words_of (map b [0..<16])) = fold (\<lambda>i d. d OR push_bit (i * 2) (ucast (b i))) [0..<16] 0"
proof -
  have w: "words_of (map b [0..<16]) = map (\<lambda>q. word_of_bytes [b (4 * q), b (4 * q + 1), b (4 * q + 2), b (4 * q + 3)]) [0..<4]"
    by (simp add: words_of_def upt_16 upt_4 Suc_Suc_0_is_2)
  have g: "gather_words (map f [0..<4]) = word_of_bytes (map (\<lambda>q. ucast (gathered (f q))) [0..<4])" for f
    unfolding gather_words_def by (subst low_bytes) (simp_all add: or_si128_def srai_epi32_def gathered_def upt_4)
  have q: "ucast (gathered (word_of_bytes [b (4 * q), b (4 * q + 1), b (4 * q + 2), b (4 * q + 3)])) =
      b (4 * q) OR push_bit 2 (b (4 * q + 1)) OR push_bit 4 (b (4 * q + 2)) OR push_bit 6 (b (4 * q + 3))" if "q < 4" for q
    using that by (intro gathered_byte assms) simp_all
  define Q where "Q q = b (4 * q) OR push_bit 2 (b (4 * q + 1)) OR push_bit 4 (b (4 * q + 2)) OR push_bit 6 (b (4 * q + 3))" for q
  have "gather_words (words_of (map b [0..<16])) = word_of_bytes (map Q [0..<4])"
    unfolding w g by (rule arg_cong [of _ _ word_of_bytes], rule map_cong [OF refl]) (simp only: q Q_def set_upt atLeastLessThan_iff)
  also have "\<dots> = fold (\<lambda>i d. d OR push_bit (i * 2) (ucast (b i))) [0..<16] 0"
    by (rule word32_eqI; use assms in \<open>simp add: upt_32 upt_16 upt_4 word_of_bytes_def Q_def two_bit_def bitwise\<close>)
  finally show ?thesis .
qed

lemma indices_sse_value:
  fixes src :: "u8 list"
  defines "px \<equiv> map (load_bytes src) [0..<4]"
  assumes "\<And>i. i < 16 \<Longrightarrow> two_bit (b i)"
    and "\<And>i. i < 16 \<Longrightarrow> ucast (drop_bit 16 (ucast (of_nat (rise src i) :: u16) * ucast R :: u32)) = (ucast (b i) :: u16)"
  shows "indices_sse px (reduce_epu8 min px) R = fold (\<lambda>i d. d OR push_bit (i * 2) (ucast (b i))) [0..<16] 0"
proof -
  have sums: "map (\<lambda>c. maddubs_epi16 c (replicate 16 1)) (map (\<lambda>p. subs_epu8 p (reduce_epu8 min px)) px) = map (sums_16 src) [0..<4]"
    unfolding px_def reduce_bytes lo_def [symmetric] by (simp add: sums_16_def)
  have "mulhi_epu16 (hadd_epi16 (sums_16 src 0) (sums_16 src 1)) R @ mulhi_epu16 (hadd_epi16 (sums_16 src 2) (sums_16 src 3)) R =
      map (\<lambda>i. ucast (b i)) [0..<16]"
    unfolding hadd_rises mulhi_epu16_def using assms(3) by (simp add: upt_4 upt_16)
  then have "indices_sse px (reduce_epu8 min px) R = gather_words (words_of (packus_epi16 (map (\<lambda>i. ucast (b i)) [0..<16])))"
    unfolding indices_sse_def sums Let_def gather_words_def by (simp add: upt_4)
  then show ?thesis unfolding packus_bytes using gather_words_value [OF assms(2)] by simp
qed

section \<open>Solid blocks\<close>

definition mask_565 :: "nat \<Rightarrow> u8" where
  "mask_565 c = [0xF8, 0xFC, 0xF8, 0] ! c"

lemma masked_words: "word_of_bytes [a, b, c, d] AND 0xF8FCF8 = word_of_bytes [a', b', c', d'] AND 0xF8FCF8 \<longleftrightarrow>
    a AND mask_565 0 = a' AND mask_565 0 \<and> b AND mask_565 1 = b' AND mask_565 1 \<and> c AND mask_565 2 = c' AND mask_565 2 \<and> d AND mask_565 3 = d' AND mask_565 3"
proof -
  have m: "word_of_bytes [a, b, c, d] AND 0xF8FCF8 = word_of_bytes [a AND 0xF8, b AND 0xFC, c AND 0xF8, 0]" for a b c d
    by (rule word32_eqI) (simp add: word_of_bytes_def upt_32 bitwise)
  have "word_of_bytes [p, q, r, 0] = word_of_bytes [p', q', r', 0] \<longleftrightarrow> p = p' \<and> q = q' \<and> r = r'" for p q r p' q' r'
    using word_bytes_of_word [of p q r 0] word_bytes_of_word [of p' q' r' 0] by (metis list.inject)
  then show ?thesis unfolding m mask_565_def by simp
qed

lemma all_less_4: "(\<forall>c < 4. P c) \<longleftrightarrow> P 0 \<and> P 1 \<and> P 2 \<and> P (3 :: nat)"
  using less_4_cases by auto

lemma solid_bytes: "length src = 64 \<Longrightarrow> dxt_solid src \<longleftrightarrow>
    (\<forall>i < 16. \<forall>c < 4. src ! (4 * i + c) AND mask_565 c = src ! c AND mask_565 c)"
proof -
  assume len: "length src = 64"
  have px: "take 4 (drop (4 * i) src) = [src ! (4 * i), src ! (4 * i + 1), src ! (4 * i + 2), src ! (4 * i + 3)]" if "i < 16" for i
    using that len by (intro nth_equalityI) (auto simp: less_Suc_eq numeral_eq_Suc)
  have px0: "take 4 src = [src ! 0, src ! 1, src ! 2, src ! 3]" using px [of 0] by (simp add: numeral_2_eq_2)
  have "dxt_solid src \<longleftrightarrow> (\<forall>i \<in> {1..<16}. \<forall>c < 4. src ! (4 * i + c) AND mask_565 c = src ! c AND mask_565 c)"
    unfolding dxt_solid_def list_all_iff set_upt by (rule ball_cong [OF refl]) (simp add: px px0 masked_words all_less_4)
  also have "\<dots> \<longleftrightarrow> (\<forall>i < 16. \<forall>c < 4. src ! (4 * i + c) AND mask_565 c = src ! c AND mask_565 c)"
    by (auto simp: Suc_le_eq) 
  finally show ?thesis .
qed

lemma length_set1 [simp]: "length (set1_epi32 w) = 16"
  by (simp add: set1_epi32_def)

lemma set1_nth: "k < 16 \<Longrightarrow> set1_epi32 0xF8FCF8 ! k = mask_565 (k mod 4)"
proof -
  assume "k < 16"
  then obtain l c where k: "l < 4" "c < 4" "k = 4 * l + c" using lanes_16 by blast
  then have "set1_epi32 0xF8FCF8 ! k = ucast (drop_bit (8 * c) (0xF8FCF8 :: u32))"
    by (simp only: set1_epi32_def) (subst bytes_of_nth; simp)
  then show ?thesis using k less_4_cases [OF k(2)] by (auto simp: mask_565_def)
qed

lemma solid_sse_solid:
  assumes "length src = 64"
  shows "solid_sse (map (load_bytes src) [0..<4]) \<longleftrightarrow> dxt_solid src"
proof -
  define sd where "sd j = and_bytes (load_bytes src j) (set1_epi32 0xF8FCF8)" for j
  have len: "length (sd j) = 16" for j by (simp add: sd_def and_bytes_def load_bytes_def)
  have at: "sd j ! k = src ! (16 * j + k) AND mask_565 (k mod 4)" if "k < 16" for j k
    using that by (simp add: sd_def and_bytes_def load_bytes_def set1_nth)
  define u where "u = [0, 0, 0, 0 :: nat]"
  have u: "length u = 4" "l < 4 \<Longrightarrow> u ! l = 0" for l using less_4_cases [of l] by (auto simp: u_def)
  have u4: "l < 4 \<Longrightarrow> u ! l < 4" for l by (simp add: u(2))
  define sc where "sc = shuffle_lanes (sd 0) u"
  have sc: "sc ! k = src ! (k mod 4) AND mask_565 (k mod 4)" if k16: "k < 16" for k
  proof -
    obtain l c where k: "l < 4" "c < 4" "k = 4 * l + c" using lanes_16 [OF k16] by blast
    then show ?thesis using shuffle_lanes_nth(1) [OF len u(1) u4 k(1,2)] u(2) [OF k(1)] by (simp add: sc_def at)
  qed
  have sclen: "length sc = 16" using shuffle_lanes_nth(2) [OF len u(1) u4] by (simp add: sc_def)
  have one: "((if p then 0xFF else 0) AND (if q then 0xFF else 0)) AND ((if r then 0xFF else 0) AND (if s then 0xFF else 0)) = (0xFF :: u8) \<longleftrightarrow>
      p \<and> q \<and> r \<and> s" for p q r s by simp
  have px: "map (\<lambda>p. and_bytes p (set1_epi32 0xF8FCF8)) (map (load_bytes src) [0..<4]) = [sd 0, sd 1, sd 2, sd 3]"
    by (simp add: upt_4 sd_def)
  have "solid_sse (map (load_bytes src) [0..<4]) \<longleftrightarrow> list_all (\<lambda>b. b = 0xFF)
      (and_bytes (and_bytes (cmpeq_epi8 (sd 0) sc) (cmpeq_epi8 (sd 1) sc)) (and_bytes (cmpeq_epi8 (sd 2) sc) (cmpeq_epi8 (sd 3) sc)))"
    unfolding solid_sse_def Let_def px sc_def u_def by (simp add: numeral_2_eq_2 numeral_3_eq_3)
  also have "\<dots> \<longleftrightarrow> (\<forall>k < 16. sd 0 ! k = sc ! k \<and> sd 1 ! k = sc ! k \<and> sd 2 ! k = sc ! k \<and> sd 3 ! k = sc ! k)"
    unfolding list_all_length by (simp add: len sclen cmpeq_epi8_def and_bytes_def one)
  also have "\<dots> \<longleftrightarrow> (\<forall>j < 4. \<forall>k < 16. sd j ! k = sc ! k)" unfolding all_less_4 by blast
  also have "\<dots> \<longleftrightarrow> (\<forall>j < 4. \<forall>k < 16. src ! (16 * j + k) AND mask_565 (k mod 4) = src ! (k mod 4) AND mask_565 (k mod 4))"
    by (simp add: at sc)
  also have "\<dots> \<longleftrightarrow> (\<forall>i < 16. \<forall>c < 4. src ! (4 * i + c) AND mask_565 c = src ! c AND mask_565 c)" (is "?L \<longleftrightarrow> ?R")
  proof
    assume l: ?L
    show ?R
    proof (intro allI impI)
      fix i c :: nat assume ic: "i < 16" "c < 4"
      have at: "16 * (i div 4) + (4 * (i mod 4) + c) = 4 * i + c" "(4 * (i mod 4) + c) mod 4 = c" using ic by (presburger, simp)
      have "i mod 4 < 4" by simp
      then have "4 * (i mod 4) + c < 16" "i div 4 < 4" using ic by linarith+
      then show "src ! (4 * i + c) AND mask_565 c = src ! c AND mask_565 c"
        using l [rule_format, of "i div 4" "4 * (i mod 4) + c"] unfolding at by blast
    qed
  next
    assume r: ?R
    show ?L
    proof (intro allI impI)
      fix j k :: nat assume jk: "j < 4" "k < 16"
      have at: "4 * (4 * j + k div 4) + k mod 4 = 16 * j + k" by simp
      have "4 * j + k div 4 < 16" "k mod 4 < 4" using jk by linarith+
      then show "src ! (16 * j + k) AND mask_565 (k mod 4) = src ! (k mod 4) AND mask_565 (k mod 4)"
        using r [rule_format, of "4 * j + k div 4" "k mod 4"] unfolding at by blast
    qed
  qed
  finally show ?thesis unfolding solid_bytes [OF assms] .
qed

section \<open>The SSE branch agrees\<close>

text \<open>The branch sums four channels, so it agrees with the scalar one when the alpha bytes are the same.\<close>

definition same_alpha :: "u8 list \<Rightarrow> bool" where
  "same_alpha src \<longleftrightarrow> (\<forall>i < 16. src ! (4 * i + 3) = src ! 3)"

lemma same_alpha_flat: "same_alpha src \<Longrightarrow> lo src 3 = src ! 3 \<and> hi src 3 = src ! 3"
proof -
  assume "same_alpha src"
  then have "channel_set src 3 = {src ! 3}" unfolding channel_set_def same_alpha_def by (auto simp: image_def intro!: exI [of _ 0])
  then show ?thesis by (simp add: lo_def hi_def)
qed

lemma rise_height:
  assumes "same_alpha src"
  shows "i < 16 \<Longrightarrow> int (rise src i) = height src i" "int (reach src) = full_height src"
proof -
  obtain mn mx where mm: "dxt_minmax src = (mn, mx)" by force
  have minmax: "mn ! c = lo src c" "mx ! c = hi src c" if "c < 3" for c
    using minmax_channel [OF that, of src] by (simp_all add: mm lo_def hi_def)
  note flat = same_alpha_flat [OF assms]
  have d: "int (unat y - unat x) = uint y - uint x" if "x \<le> y" for x y :: u8
    unfolding uint_nat using that by (intro of_nat_diff) (simp add: word_le_nat_alt)
  show "int (reach src) = full_height src"
    unfolding reach_def full_height_def mm prod.case sum_less_3 upt_4 using flat by (simp add: minmax d lo_le_hi)
  have three: "(0 :: nat) < 3" "(1 :: nat) < 3" "(2 :: nat) < 3" by simp_all
  show "int (rise src i) = height src i" if "i < 16"
  proof -
    have "rise src i = (unat (src ! (4 * i + 0)) - unat (lo src 0)) + (unat (src ! (4 * i + 1)) - unat (lo src 1)) +
        (unat (src ! (4 * i + 2)) - unat (lo src 2)) + (unat (src ! (4 * i + 3)) - unat (lo src 3))"
      unfolding rise_def upt_4 by (simp only: list.map sum_list.Cons sum_list.Nil add_0_right add.assoc)
    then have "int (rise src i) = (\<Sum>c < (3 :: nat). uint (src ! (4 * i + c)) - uint (mn ! c)) + (uint (src ! (4 * i + 3)) - uint (lo src 3))"
      unfolding sum_less_3 minmax [OF three(1)] minmax [OF three(2)] minmax [OF three(3)]
      by (simp only: of_nat_add d [OF lo_le_hi(2) [OF that]])
    moreover have "src ! (4 * i + 3) = lo src 3" using flat assms that by (simp add: same_alpha_def)
    ultimately show ?thesis unfolding height_def mm by simp
  qed
qed

lemma word_small_two_bit:
  assumes "uint (b :: u8) < 4"
  shows "two_bit b"
  unfolding two_bit_def
proof (intro allI impI)
  fix m :: nat assume "2 \<le> m"
  then have "\<not> bit (ucast b :: u8) m" using assms by (intro small_bits [where k = 2]) simp_all
  then show "\<not> bit b m" by simp
qed

lemma scaled_product:
  assumes "n \<le> 765" "0 \<le> R" "R \<le> 0xffff" "uint (b :: u8) = int n * R div 0x10000"
  shows "ucast (drop_bit 16 (ucast (of_nat n :: u16) * ucast (word_of_int R :: u16) :: u32)) = (ucast b :: u16)"
proof -
  obtain r where r: "R = int r" using assms(2) nonneg_int_cases by blast
  then have r16: "r \<le> 65535" using assms(3) by simp
  have m: "n * r \<le> 765 * 65535" using assms(1) r16 by (rule mult_le_mono)
  have "ucast (of_nat k :: u16) = (of_nat k :: u32)" if "k \<le> 65535" for k
    using that by (intro word_unat_eq_iff [THEN iffD2]) (simp add: unsigned_ucast_eq unsigned_of_nat take_bit_nat_eq_self)
  then have "ucast (of_nat n :: u16) * ucast (word_of_int R :: u16) = (of_nat (n * r) :: u32)"
    using assms(1) r16 by (simp add: r)
  moreover have "unat (of_nat k :: u32) = k" if "k < 2 ^ 32" for k using that by (simp add: unsigned_of_nat take_bit_nat_eq_self)
  from this [of "n * r"] have "unat (of_nat (n * r) :: u32) = n * r" using le_less_trans [OF m, of "2 ^ 32"] by simp
  then have "unat (drop_bit 16 (of_nat (n * r) :: u32)) = n * r div 65536"
    by (simp only: unsigned_drop_bit_eq) (use m in \<open>simp add: drop_bit_eq_div take_bit_nat_eq_self\<close>)
  moreover have "unat b = n * r div 65536" using assms(4) unfolding r uint_nat by (metis nat_int of_nat_mult of_nat_div of_nat_numeral)
  moreover have "n * r div 65536 < 65536" using unat_byte_le [of b] calculation(3) by linarith
  ultimately show ?thesis
    by (intro word_unat_eq_iff [THEN iffD2]) (simp add: unsigned_ucast_eq take_bit_nat_eq_self)
qed

lemma colours_sse_scalar:
  assumes "same_alpha src" "\<not> dxt_solid src"
  shows "colours_sse (map (load_bytes src) [0..<4]) = Some (ProcessRGB_dxt src)"
proof -
  define R where "R = DivTable ! reach src"
  note h = rise_height [OF assms(1)]
  have reach: "reach src \<le> 765" using height_bounds(3) [of 0 src] h(2) by simp
  have "R = min 0xffff (0x40000 div (int (reach src) + 1))" unfolding R_def by (rule DivTable_nth [OF reach])
  then have R: "0 \<le> R" "R \<le> 0xffff" by (simp_all add: pos_imp_zdiv_nonneg_iff)
  have idx: "uint (dxt_index src i) = int (rise src i) * R div 0x10000" "uint (dxt_index src i) < 4" if "i < 16" for i
    using dxt_index_value [OF that, of src] unfolding h(1) [OF that, symmetric] h(2) [symmetric] nat_int R_def by simp_all
  have mul: "ucast (drop_bit 16 (ucast (of_nat (rise src i) :: u16) * ucast (word_of_int R :: u16) :: u32)) = (ucast (dxt_index src i) :: u16)" if "i < 16" for i
    using idx(1) [OF that] h(1) [OF that] height_bounds [OF that, of src] by (intro scaled_product R) simp_all
  define px where "px = map (load_bytes src) [0..<4]"
  define data where "data = dxt_data src (dxt_range (dxt_minmax src)) (dxt_rmin (fst (dxt_minmax src)))"
  have "indices_sse px (reduce_epu8 min px) (word_of_int R) = fold (\<lambda>i d. d OR push_bit (i * 2) (ucast (dxt_index src i))) [0..<16] 0"
    unfolding px_def using idx(2) by (intro indices_sse_value mul word_small_two_bit)
  then have ind: "indices_sse px (reduce_epu8 min px) (word_of_int R) = data"
    by (simp only: data_def dxt_data_def dxt_index_def)
  have scalar: "ProcessRGB_dxt src = push_bit 16 (ucast (low_565 src)) OR ucast (high_565 src) OR push_bit 32 (ucast data)"
    using assms(2) by (simp add: ProcessRGB_dxt_def low_565_def high_565_def Let_def data_def split: prod.splits)
  obtain a b where ab: "inset_sse (reduce_epu8 min px) (reduce_epu8 max px) = (a, b)" by force
  have ends: "to565_word (words_of a ! 0) = low_565 src" "to565_word (words_of b ! 0) = high_565 src"
    using ends_sse [of src, folded px_def] by (simp_all add: ab)
  have "range_sse (reduce_epu8 min px) (reduce_epu8 max px) = Some (word_of_int R)"
    using range_sse_value [of src, folded px_def R_def] reach by simp
  then show ?thesis
    unfolding px_def [symmetric] colours_sse_def Let_def ab by (simp only: Option.bind.bind_lunit prod.case ends ind scalar)
qed

lemma ProcessRGB_dxt_sse_scalar:
  assumes "length src = 64" "dxt_solid src \<or> same_alpha src"
  shows "ProcessRGB_dxt_sse src = Some (ProcessRGB_dxt src)"
proof (cases "dxt_solid src")
  case True
  then show ?thesis by (simp add: ProcessRGB_dxt_sse_def Let_def solid_sse_solid [OF assms(1)] ProcessRGB_dxt_def)
next
  case False
  then show ?thesis using assms by (simp add: ProcessRGB_dxt_sse_def Let_def solid_sse_solid [OF assms(1)] colours_sse_scalar del: upt_rec_numeral)
qed

text \<open>C35: The SSE branch of the DXT1 compressor sums the ranges of four channels, alpha included, and looks the sum
  up in a table with 766 entries for three channels: it reads past the table exactly for the blocks that are not
  solid and whose four ranges sum to more than 765.\<close>

theorem dxt_sse_overruns:
  assumes "length src = 64"
  shows "ProcessRGB_dxt_sse src = None \<longleftrightarrow> \<not> dxt_solid src \<and>
    765 < (\<Sum>c \<leftarrow> [0..<4]. unat (Max ((\<lambda>i. src ! (4 * i + c)) ` {0..<16})) - unat (Min ((\<lambda>i. src ! (4 * i + c)) ` {0..<16})))"
proof -
  have r: "(\<Sum>c \<leftarrow> [0..<4]. unat (Max ((\<lambda>i. src ! (4 * i + c)) ` {0..<16})) - unat (Min ((\<lambda>i. src ! (4 * i + c)) ` {0..<16}))) = reach src"
    by (simp only: reach_def hi_def lo_def channel_set_def)
  have "colours_sse (map (load_bytes src) [0..<4]) = None \<longleftrightarrow> 765 < reach src"
    unfolding colours_sse_def Let_def range_sse_value by (auto split: prod.split)
  then show ?thesis unfolding r ProcessRGB_dxt_sse_def Let_def solid_sse_solid [OF assms] by simp
qed

lemma dxt_sse_overruns_witness:
  "ProcessRGB_dxt_sse (replicate 4 255 @ replicate 60 0) = None"
proof -
  define src :: "u8 list" where "src = replicate 4 255 @ replicate 60 0"
  have len: "length src = 64" by (simp add: src_def)
  have px: "src ! (4 * i + c) = (if i = 0 then 255 else 0)" if "c < 4" "i < 16" for c i
    using that by (simp add: src_def nth_append)
  have img: "(\<lambda>i. src ! (4 * i + c)) ` {0..<16} = {255, 0}" if "c < 4" for c
  proof -
    have "(\<lambda>i. src ! (4 * i + c)) ` {0..<16} = (\<lambda>i :: nat. if i = 0 then 255 else 0) ` {0..<16}"
      by (rule image_cong [OF refl]) (simp add: px [OF that])
    then show ?thesis unfolding atLeastLessThan_upt upt_16 by (simp add: insert_commute)
  qed
  have "\<not> dxt_solid src"
  proof -
    have "src ! (4 * 1 + 0) AND mask_565 0 \<noteq> src ! 0 AND mask_565 0" using px [of 0 0] px [of 0 1] by (simp add: mask_565_def)
    moreover have "(1 :: nat) < 16" "(0 :: nat) < 4" by simp_all
    ultimately show ?thesis unfolding solid_bytes [OF len] by blast
  qed
  moreover have "(\<Sum>c \<leftarrow> [0..<4]. unat (Max ((\<lambda>i. src ! (4 * i + c)) ` {0..<16})) - unat (Min ((\<lambda>i. src ! (4 * i + c)) ` {0..<16}))) =
      (\<Sum>c \<leftarrow> [0..<4]. 255)"
    by (rule arg_cong [of _ _ sum_list], rule map_cong [OF refl]) (simp only: set_upt atLeastLessThan_iff img, simp)
  ultimately show ?thesis using dxt_sse_overruns [OF len] by (simp add: src_def [symmetric] upt_4)
qed

text \<open>The registers of a block of words.\<close>

lemma and_registers:
  assumes "length buf = 16" "j < 4"
  shows "and_bytes (load_bytes (bytes_of buf) j) (set1_epi32 m) = load_bytes (bytes_of (map (\<lambda>v. v AND m) buf)) j"
proof (rule nth_equalityI)
  show "length (and_bytes (load_bytes (bytes_of buf) j) (set1_epi32 m)) = length (load_bytes (bytes_of (map (\<lambda>v. v AND m) buf)) j)"
    by (simp add: and_bytes_def load_bytes_def)
  fix k assume "k < length (and_bytes (load_bytes (bytes_of buf) j) (set1_epi32 m))"
  then have k16: "k < 16" by (simp add: and_bytes_def load_bytes_def)
  then obtain l c where k: "l < 4" "c < 4" "k = 4 * l + c" using lanes_16 by blast
  have at: "16 * j + k = 4 * (4 * j + l) + c" "4 * j + l < 16" using k assms(2) by simp_all
  have byte: "bytes_of b ! (16 * j + k) = ucast (drop_bit (8 * c) (b ! (4 * j + l)))" if "length b = 16" for b :: "u32 list"
    unfolding at(1) using at(2) k(2) that by (intro bytes_of_nth) simp_all
  have "set1_epi32 m ! k = ucast (drop_bit (8 * c) m)"
    unfolding set1_epi32_def k(3) using k by (subst bytes_of_nth) simp_all
  then show "and_bytes (load_bytes (bytes_of buf) j) (set1_epi32 m) ! k = load_bytes (bytes_of (map (\<lambda>v. v AND m) buf)) j ! k"
    using k16 byte [of buf] byte [of "map (\<lambda>v. v AND m) buf"] at(2) assms(1) by (simp add: and_bytes_def load_bytes_def drop_bit_and unsigned_and_eq)
qed

lemma load_of_words: "length buf = 16 \<Longrightarrow> j < 4 \<Longrightarrow> load_bytes (bytes_of buf) j = bytes_of (take 4 (drop (4 * j) buf))"
proof (rule nth_equalityI)
  assume buf: "length buf = 16" "j < 4"
  then show "length (load_bytes (bytes_of buf) j) = length (bytes_of (take 4 (drop (4 * j) buf)))" by (simp add: load_bytes_def)
  fix k assume "k < length (load_bytes (bytes_of buf) j)"
  then have k16: "k < 16" by (simp add: load_bytes_def)
  then obtain l c where k: "l < 4" "c < 4" "k = 4 * l + c" using lanes_16 by blast
  have at: "16 * j + k = 4 * (4 * j + l) + c" "4 * j + l < 16" using k buf by simp_all
  have "bytes_of buf ! (16 * j + k) = ucast (drop_bit (8 * c) (buf ! (4 * j + l)))"
    unfolding at(1) using at(2) k(2) buf by (intro bytes_of_nth) simp_all
  moreover have "bytes_of (take 4 (drop (4 * j) buf)) ! k = ucast (drop_bit (8 * c) (take 4 (drop (4 * j) buf) ! l))"
    unfolding k(3) using k buf by (intro bytes_of_nth) simp_all
  ultimately show "load_bytes (bytes_of buf) j ! k = bytes_of (take 4 (drop (4 * j) buf)) ! k"
    using k16 k(1) buf by (simp add: load_bytes_def)
qed

text \<open>In DXT5 the alpha bytes are blanked, and the colours are always those of the scalar branch.\<close>

lemma ProcessRGB_SSE_scalar:
  assumes "length buf = 16"
  shows "ProcessRGB_SSE (map (\<lambda>j. bytes_of (take 4 (drop (4 * j) buf))) [0..<4]) =
    Some (ProcessRGB_dxt (bytes_of (map (\<lambda>v. v AND 0xFFFFFF) buf)))"
proof -
  let ?src = "bytes_of buf" and ?rgb = "bytes_of (map (\<lambda>v. v AND 0xFFFFFF) buf)"
  have len: "length ?src = 64" "length ?rgb = 64" using assms by simp_all
  have px: "map (\<lambda>j. bytes_of (take 4 (drop (4 * j) buf))) [0..<4] = map (load_bytes ?src) [0..<4]"
    by (rule map_cong [OF refl]) (simp add: load_of_words [OF assms])
  have masked: "map (\<lambda>p. and_bytes p (set1_epi32 0xFFFFFF)) (map (load_bytes ?src) [0..<4]) = map (load_bytes ?rgb) [0..<4]"
    unfolding map_map o_def by (rule map_cong [OF refl]) (simp add: and_registers [OF assms])
  have byte: "?rgb ! (4 * i + c) = ucast (drop_bit (8 * c) (buf ! i AND 0xFFFFFF))" "?src ! (4 * i + c) = ucast (drop_bit (8 * c) (buf ! i))"
    if "i < 16" "c < 4" for i c using that assms by (simp_all add: bytes_of_nth)
  have "ucast (drop_bit 24 (w AND 0xFFFFFF)) = (0 :: u8)" for w :: u32 by (rule byte_eqI) (simp add: upt_8 bitwise)
  then have alpha: "same_alpha ?rgb" unfolding same_alpha_def using byte(1) [of _ 3] byte(1) [of 0 3] by simp
  have same: "ucast (drop_bit (8 * c) (w AND 0xFFFFFF)) AND mask_565 c = ucast (drop_bit (8 * c) w) AND mask_565 c" if "c < 4" for c and w :: u32
    using less_4_cases [OF that] by (elim disjE; hypsubst; intro byte_eqI) (simp_all add: mask_565_def upt_8 bitwise)
  have solid: "dxt_solid ?rgb \<longleftrightarrow> dxt_solid ?src"
  proof -
    have "?rgb ! (4 * i + c) AND mask_565 c = ?src ! (4 * i + c) AND mask_565 c" if "i < 16" "c < 4" for i c
      unfolding byte [OF that] by (rule same [OF that(2)])
    moreover from this [of 0] have "?rgb ! c AND mask_565 c = ?src ! c AND mask_565 c" if "c < 4" for c using that by simp
    ultimately show ?thesis unfolding solid_bytes [OF len(1)] solid_bytes [OF len(2)] by simp
  qed
  show ?thesis
  proof (cases "dxt_solid ?src")
    case True
    obtain w ws where buf: "buf = w # ws" using assms by (cases buf) auto
    have "to565_word (w AND 0xFFFFFF) = to565_word w" by (rule word16_eqI) (simp add: to565_word_def upt_16 bitwise)
    moreover have "words_of (load_bytes ?src 0) ! 0 = w"
      using assms by (simp add: load_of_words words_of_bytes_of buf)
    moreover have "word_of_bytes (take 4 ?rgb) = w AND 0xFFFFFF" 
      using word_of_bytes_bytes [of "w AND 0xFFFFFF"] by (simp add: buf bytes_of_def)
    ultimately show ?thesis using True solid
      unfolding ProcessRGB_SSE_def px solid_sse_solid [OF len(1)] ProcessRGB_dxt_def by (simp add: upt_4)
  next
    case False
    then show ?thesis
      unfolding ProcessRGB_SSE_def px solid_sse_solid [OF len(1)] masked using solid by (simp add: colours_sse_scalar [OF alpha] del: upt_rec_numeral)
  qed
qed

end
