(* ===== verification/DxtSimd.thy ===== *)
theory DxtSimd imports DxtVector begin

text \<open>
  The loops of \<open>src/ProcessDxtc.cpp\<close> over the blocks of an image as they are compiled for SSE4.1 and AVX2, with the
  AVX2 compressor of two neighbouring blocks.  Without the bug of \<open>dxt_sse_overruns\<close> all builds show the same
  image.
\<close>

section \<open>Two blocks at a time\<close>

text \<open>The registers hold a row of eight pixels each; half \<open>h\<close> of them is block \<open>h\<close>.\<close>

definition half_registers :: "u8 list \<Rightarrow> nat \<Rightarrow> u8 list list" where
  "half_registers src h = map (\<lambda>j. map (\<lambda>k. src ! (32 * j + 16 * h + k)) [0..<16]) [0..<4]"

text \<open>The colour in 565 form at the bottom of a 64-bit lane whose 16-bit lanes are the bytes, shifted.\<close>

definition pack_565 :: "u8 list \<Rightarrow> u16" where
  "pack_565 m = (let
     mm2 = word64_of_bytes [0, m ! 0, 0, m ! 1, 0, m ! 2, 0, m ! 3];
     mmr = push_bit 11 (drop_bit 11 mm2);
     mmg = push_bit 5 (drop_bit 26 mm2);
     mmb = drop_bit 59 (push_bit 16 mm2)
   in ucast (mmr OR mmg OR mmb))"

definition half_avx :: "u8 list list \<Rightarrow> u64 option" where
  "half_avx px = (let
     rmin = reduce_epu8 min px;
     rmax = reduce_epu8 max px
   in do {
     rng \<leftarrow> range_sse rmin rmax;
     let (mn, mx) = inset_sse rmin rmax;
     let p = indices_sse px rmin rng;
     let mm5 = (ucast (pack_565 mx) OR push_bit 16 (ucast (pack_565 mn)) :: u32);
     Some (ucast mm5 OR push_bit 32 (ucast p))
   })"

definition ProcessRGB_AVX :: "u8 list \<Rightarrow> u64 list option" where
  "ProcessRGB_AVX src = (let
     px0 = half_registers src 0; px1 = half_registers src 1;
     solid0 = 1 - of_bool (solid_sse px0) :: u64; solid1 = 1 - of_bool (solid_sse px1) :: u64
   in if solid0 + solid1 = 0
     then Some [ucast (to565 (src ! 0) (src ! 1) (src ! 2)), ucast (to565 (src ! 16) (src ! 17) (src ! 18))]
     else do {
       d0 \<leftarrow> half_avx px0;
       d1 \<leftarrow> half_avx px1;
       Some [fix_indices (d0 AND (0xFFFF0000 OR - solid0)), fix_indices (d1 AND (0xFFFF0000 OR - solid1))]
     })"

section \<open>The loops\<close>

definition emit_dxt1 :: "(u8 list \<Rightarrow> u8 list) \<Rightarrow> u32 list \<Rightarrow> u64 list option \<Rightarrow> u64 list option" where
  "emit_dxt1 dither buf dst = do {
     dst \<leftarrow> dst;
     c \<leftarrow> ProcessRGB_dxt_sse (dither (bytes_of buf));
     Some (dst @ [fix_indices c])
   }"

definition CompressDxt1_sse :: "u32 list \<Rightarrow> u32 \<Rightarrow> nat \<Rightarrow> u64 list option" where
  "CompressDxt1_sse src blocks width = block_loop (copy_rows src width) width (emit_dxt1 id) blocks (Some [])"

text \<open>\<open>Dither\<close> has an AVX2 branch, which keeps the alpha bytes.\<close>

definition CompressDxt1Dither_sse :: "bool \<Rightarrow> u32 list \<Rightarrow> u32 \<Rightarrow> nat \<Rightarrow> u64 list option" where
  "CompressDxt1Dither_sse avx2 src blocks width =
     block_loop (copy_rows src width) width (emit_dxt1 (if avx2 then Dither_AVX2 else Dither)) blocks (Some [])"

definition copy_pairs :: "u32 list \<Rightarrow> nat \<Rightarrow> nat \<Rightarrow> u32 list \<times> nat" where
  "copy_pairs src width p = (concat (map (\<lambda>r. map (\<lambda>i. src ! (p + width * r + i)) [0..<8]) [0..<4]), p + 8)"

definition pair_advance :: "nat \<Rightarrow> nat \<times> nat \<Rightarrow> nat \<times> nat" where
  "pair_advance width pi = (case pi of (p, i) \<Rightarrow> let i = i + 1 in
     if i = width div 8 then (p + width * 3, 0) else (p, i))"

definition pair_step :: "u32 list \<Rightarrow> nat \<Rightarrow> (nat \<times> nat) \<times> u64 list option \<Rightarrow> (nat \<times> nat) \<times> u64 list option" where
  "pair_step src width st = (case st of ((p, i), dst) \<Rightarrow> case copy_pairs src width p of (buf, p) \<Rightarrow>
     (pair_advance width (p, i), do { dst \<leftarrow> dst; ws \<leftarrow> ProcessRGB_AVX (bytes_of buf); Some (dst @ ws) }))"

definition CompressDxt1_avx2 :: "u32 list \<Rightarrow> u32 \<Rightarrow> nat \<Rightarrow> u64 list option" where
  "CompressDxt1_avx2 src blocks width = (if width mod 8 = 0
     then snd ((pair_step src width ^^ loop_count (blocks div 2)) ((0, 0), Some []))
     else CompressDxt1_sse src blocks width)"

section \<open>A block in the registers\<close>

lemma pack_565_bytes: "pack_565 m = to565 (m ! 0) (m ! 1) (m ! 2)"
  by (rule word16_eqI) (simp add: pack_565_def to565_def word64_of_bytes_def Let_def upt_16 bitwise)

lemma half_avx_sse:
  fixes src :: "u8 list"
  defines "px \<equiv> map (load_bytes src) [0..<4]"
  shows "half_avx px = colours_sse px"
proof -
  obtain a b where ab: "inset_sse (reduce_epu8 min px) (reduce_epu8 max px) = (a, b)" by force
  have "length (reduce_epu8 min px) = 16" "length (reduce_epu8 max px) = 16" by (simp_all add: px_def reduce_bytes)
  from inset_sse_nth(3,4) [OF this] have len: "length a = 16" "length b = 16" by (simp_all add: ab)
  have w: "pack_565 a = to565_word (words_of a ! 0)" "pack_565 b = to565_word (words_of b ! 0)"
    by (simp_all add: pack_565_bytes first_word len to565_word_bytes)
  have "ucast (ucast h OR push_bit 16 (ucast l) :: u32) OR push_bit 32 (ucast (i :: u32)) =
      (push_bit 16 (ucast l) OR ucast h OR push_bit 32 (ucast i) :: u64)" for h l :: u16 and i
    by (rule word64_eqI) (simp add: upt_64 bitwise)
  then show ?thesis unfolding half_avx_def colours_sse_def Let_def ab prod.case w by (simp only:)
qed

lemma colours_sse_ends: "colours_sse (map (load_bytes src) [0..<4]) = (if reach src < 766
    then Some (push_bit 16 (ucast (low_565 src)) OR ucast (high_565 src) OR push_bit 32 (ucast (indices_sse (map (load_bytes src) [0..<4])
      (reduce_epu8 min (map (load_bytes src) [0..<4])) (word_of_int (DivTable ! reach src))))) else None)"
  unfolding colours_sse_def Let_def range_sse_value case_prod_beta ends_sse by simp

section \<open>Solid blocks\<close>

lemma drop_masked: "x AND 0xF8 = y AND 0xF8 \<Longrightarrow> uint (x :: u8) div 8 = uint y div 8" "x AND 0xFC = y AND 0xFC \<Longrightarrow> uint (x :: u8) div 4 = uint y div 4"
proof -
  have d: "drop_bit 3 (x AND 0xF8) = drop_bit 3 x" "drop_bit 2 (x AND 0xFC) = drop_bit 2 x" for x :: u8
    by (rule byte_eqI, simp add: upt_8 bitwise)+
  have u: "uint (drop_bit 3 r) = uint r div 8" "uint (drop_bit 2 r) = uint r div 4" for r :: u8
    by (simp_all only: unsigned_drop_bit_eq) (simp_all add: drop_bit_eq_div take_bit_int_eq_self uint_byte_le [THEN le_less_trans])
  show "x AND 0xF8 = y AND 0xF8 \<Longrightarrow> uint x div 8 = uint y div 8" using d(1) u(1) by metis
  show "x AND 0xFC = y AND 0xFC \<Longrightarrow> uint x div 4 = uint y div 4" using d(2) u(2) by metis
qed

lemma solid_narrow:
  assumes "dxt_solid src" "length src = 64" "c < 3"
  shows "unat (hi src c) - unat (lo src c) < 8" "lo src c AND mask_565 c = src ! c AND mask_565 c"
proof -
  have fin: "finite (channel_set src c)" "channel_set src c \<noteq> {}" by (simp_all add: channel_set_def)
  have all: "x AND mask_565 c = src ! c AND mask_565 c" if "x \<in> channel_set src c" for x
    using that assms unfolding channel_set_def solid_bytes [OF assms(2)] by auto
  have "lo src c \<in> channel_set src c" "hi src c \<in> channel_set src c" using fin by (simp_all add: lo_def hi_def)
  then have m: "lo src c AND mask_565 c = src ! c AND mask_565 c" "hi src c AND mask_565 c = src ! c AND mask_565 c" using all by blast+
  then show "lo src c AND mask_565 c = src ! c AND mask_565 c" by simp
  have "uint (hi src c) div 8 = uint (lo src c) div 8 \<or> uint (hi src c) div 4 = uint (lo src c) div 4"
    using m drop_masked [of "hi src c" "lo src c"] less_3_cases [OF assms(3)] by (auto simp: mask_565_def)
  then have "uint (hi src c) - uint (lo src c) < 8" by linarith
  then show "unat (hi src c) - unat (lo src c) < 8" unfolding uint_nat by linarith
qed

lemma solid_low_565:
  assumes "dxt_solid src" "length src = 64"
  shows "low_565 src = to565 (src ! 0) (src ! 1) (src ! 2)" "to565_word (word_of_bytes (take 4 src)) = to565 (src ! 0) (src ! 1) (src ! 2)" "reach src < 766"
proof -
  obtain mn mx where mm: "dxt_minmax src = (mn, mx)" by force
  have minmax: "mn ! c = lo src c" "mx ! c = hi src c" if "c < 3" for c
    using minmax_channel [OF that, of src] by (simp_all add: mm lo_def hi_def)
  have len3: "length mn = 3" "length mx = 3" using dxt_minmax_extremes [of src] by (simp_all add: mm extremes_def)
  have le: "uint (mn ! c) \<le> uint (mx ! c)" if "c < 3" for c using lo_le_hi(1) [of src c] that by (simp add: minmax word_le_def)
  have "fst (dxt_inset (mn, mx)) ! c = lo src c" if c: "c < 3" for c
  proof -
    have "(uint (hi src c) - uint (lo src c)) div 16 = 0"
      using solid_narrow(1) [OF assms c] le [OF c] unfolding minmax [OF c] uint_nat by (intro div_pos_pos_trivial) linarith+
    then show ?thesis using dxt_inset_value(1) [OF len3 le c] minmax [OF c] by (intro word_uint_eqI) simp
  qed
  from this [of 0] this [of 1] this [of 2] have low: "low_565 src = to565 (lo src 0) (lo src 1) (lo src 2)"
    by (simp add: low_565_def mm case_prod_beta)
  have n: "lo src 0 AND 0xF8 = src ! 0 AND 0xF8" "lo src 1 AND 0xFC = src ! 1 AND 0xFC" "lo src 2 AND 0xF8 = src ! 2 AND 0xF8"
    using solid_narrow(2) [OF assms, of 0] solid_narrow(2) [OF assms, of 1] solid_narrow(2) [OF assms, of 2] by (simp_all add: mask_565_def)
  show "low_565 src = to565 (src ! 0) (src ! 1) (src ! 2)"
    unfolding low by (rule word_uint_eqI) (simp only: to565_value drop_masked(1) [OF n(1)] drop_masked(2) [OF n(2)] drop_masked(1) [OF n(3)])
  have "take 4 src = [src ! 0, src ! 1, src ! 2, src ! 3]"
    using assms(2) by (intro nth_equalityI) (auto simp: less_Suc_eq numeral_eq_Suc)
  then show "to565_word (word_of_bytes (take 4 src)) = to565 (src ! 0) (src ! 1) (src ! 2)" by (simp only: to565_word_bytes)
  have "unat (hi src 3) - unat (lo src 3) \<le> 255" using unat_byte_le [of "hi src 3"] by simp
  then show "reach src < 766"
    using solid_narrow(1) [OF assms, of 0] solid_narrow(1) [OF assms, of 1] solid_narrow(1) [OF assms, of 2]
    unfolding reach_def upt_4 by simp
qed

section \<open>Both halves\<close>

lemma masked_half: "(push_bit 16 (ucast l) OR ucast h OR push_bit 32 (ucast i)) AND 0xFFFF0000 = (push_bit 16 (ucast (l :: u16)) :: u64)"
  for h :: u16 and i :: u32
  by (rule word64_eqI) (simp add: upt_64 bitwise)

lemma half_avx_scalar:
  assumes "length src = 64" "dxt_solid src \<or> same_alpha src"
  shows "\<exists>d. half_avx (map (load_bytes src) [0..<4]) = Some d \<and> d AND (0xFFFF0000 OR - (1 - of_bool (dxt_solid src))) = ProcessRGB_dxt src"
proof (cases "dxt_solid src")
  case True
  have "0xFFFF0000 OR - (1 - of_bool True) = (0xFFFF0000 :: u64)" by simp
  then show ?thesis
    using True solid_low_565 [OF True assms(1)] unfolding half_avx_sse colours_sse_ends
    by (simp add: masked_half solid_565 del: upt_rec_numeral)
next
  case False
  have "0xFFFF0000 OR - (1 - of_bool False) = (- 1 :: u64)" by simp
  then show ?thesis
    using False assms unfolding half_avx_sse by (simp add: colours_sse_scalar del: upt_rec_numeral)
qed

lemma pair_byte:
  assumes "j < 4" "h < 2" "k < 16"
  shows "bytes_of (fst (copy_pairs src width p)) ! (32 * j + 16 * h + k) = bytes_of (rows_at src width (p + 4 * h)) ! (16 * j + k)"
proof -
  obtain l c where k: "l < 4" "c < 4" "k = 4 * l + c" using lanes_16 [OF assms(3)] by blast
  have n: "8 * j + (4 * h + l) < 32" "4 * h + l < 8" "4 * j + l < 16" using assms k by simp_all
  have at: "32 * j + 16 * h + k = 4 * (8 * j + (4 * h + l)) + c" "16 * j + k = 4 * (4 * j + l) + c" using k(3) by simp_all
  have len: "length (fst (copy_pairs src width p)) = 32" by (simp add: copy_pairs_def upt_4)
  have "fst (copy_pairs src width p) ! (8 * j + (4 * h + l)) = src ! (p + width * j + (4 * h + l))"
    unfolding copy_pairs_def fst_conv using n(2) assms(1)
    by (subst concat_map_nth [where n = 4 and m = 8 and k = j and i = "4 * h + l"]) simp_all
  moreover have "rows_at src width (p + 4 * h) ! (4 * j + l) = src ! (p + width * j + (4 * h + l))"
    using n(3) k(1) by (simp add: rows_at_def algebra_simps del: upt_rec_numeral)
  moreover have "length (rows_at src width (p + 4 * h)) = 16" by (simp add: rows_at_def)
  ultimately show ?thesis unfolding at using n len k(2) by (simp only: bytes_of_nth)
qed

lemma pair_registers:
  "h < 2 \<Longrightarrow> half_registers (bytes_of (fst (copy_pairs src width p))) h = map (load_bytes (bytes_of (rows_at src width (p + 4 * h)))) [0..<4]"
  by (simp add: half_registers_def load_bytes_def pair_byte del: upt_rec_numeral)

text \<open>What a DXT1 block shows.\<close>

definition same_picture :: "u64 \<Rightarrow> u64 \<Rightarrow> bool" where
  "same_picture d e \<longleftrightarrow> (\<forall>i < 4. \<forall>j < 4. dxt1_image d i j = dxt1_image e i j)"

lemma first_colour_shown: "dxt1_image (ucast c) i j = 0xFF000000 OR colour565 c"
proof -
  have "dxt_idx (ucast c) = 0" "dxt_c0 (ucast c) = c" unfolding dxt_idx_def dxt_c0_def
    by (rule word32_eqI, simp add: upt_32 bitwise, rule word16_eqI, simp add: upt_16 bitwise)
  then show ?thesis by (simp add: dxt1_image_field dxt_field_def dxt_colours_def Let_def colour565_def)
qed

lemma solid_shown:
  assumes "dxt_solid src" "length src = 64" "i < 4" "j < 4"
  shows "dxt1_image (fix_indices (ProcessRGB_dxt src)) i j = 0xFF000000 OR colour565 (to565 (src ! 0) (src ! 1) (src ! 2))"
proof -
  have "4 * j + i < 16" using assms by simp
  from solid_block_colour(1) [OF assms(1) this] show ?thesis unfolding dxt1_image_field solid_low_565(2) [OF assms(1,2)] by simp
qed

definition sse_takes :: "u32 list \<Rightarrow> bool" where
  "sse_takes buf \<longleftrightarrow> dxt_solid (bytes_of buf) \<or> same_alpha (bytes_of buf)"

lemma length_rows [simp]: "length (rows_at src width p) = 16"
  by (simp add: rows_at_def)

lemma ProcessRGB_AVX_pair:
  assumes "sse_takes (rows_at src width p)" "sse_takes (rows_at src width (p + 4))"
  shows "\<exists>d e. ProcessRGB_AVX (bytes_of (fst (copy_pairs src width p))) = Some [d, e] \<and>
    same_picture d (fix_indices (ProcessRGB_dxt (bytes_of (rows_at src width p)))) \<and>
    same_picture e (fix_indices (ProcessRGB_dxt (bytes_of (rows_at src width (p + 4)))))"
proof -
  let ?buf = "bytes_of (fst (copy_pairs src width p))"
  let ?a = "bytes_of (rows_at src width p)" and ?b = "bytes_of (rows_at src width (p + 4))"
  have len: "length ?a = 64" "length ?b = 64" by simp_all
  have px: "half_registers ?buf 0 = map (load_bytes ?a) [0..<4]" "half_registers ?buf 1 = map (load_bytes ?b) [0..<4]"
    using pair_registers [of 0 src width p] pair_registers [of 1 src width p] by simp_all
  have byte: "?buf ! k = ?a ! k" "?buf ! (16 + k) = ?b ! k" if "k < 16" for k
    using pair_byte [of 0 0 k src width p] pair_byte [of 0 1 k src width p] that by simp_all
  note h = half_avx_scalar [OF len(1)] half_avx_scalar [OF len(2)]
  from h assms obtain d e where de: "half_avx (map (load_bytes ?a) [0..<4]) = Some d" "half_avx (map (load_bytes ?b) [0..<4]) = Some e"
    "d AND (0xFFFF0000 OR - (1 - of_bool (dxt_solid ?a))) = ProcessRGB_dxt ?a" "e AND (0xFFFF0000 OR - (1 - of_bool (dxt_solid ?b))) = ProcessRGB_dxt ?b"
    unfolding sse_takes_def by blast
  show ?thesis
  proof (cases "dxt_solid ?a \<and> dxt_solid ?b")
    case True
    then have "ProcessRGB_AVX ?buf = Some [ucast (to565 (?a ! 0) (?a ! 1) (?a ! 2)), ucast (to565 (?b ! 0) (?b ! 1) (?b ! 2))]"
      using byte(1) [of 0] byte(1) [of 1] byte(1) [of 2] byte(2) [of 0] byte(2) [of 1] byte(2) [of 2]
      unfolding ProcessRGB_AVX_def px solid_sse_solid [OF len(1)] solid_sse_solid [OF len(2)] Let_def by simp
    with True show ?thesis by (auto simp: same_picture_def first_colour_shown solid_shown)
  next
    case False
    then have "(1 - of_bool (dxt_solid ?a)) + (1 - of_bool (dxt_solid ?b)) \<noteq> (0 :: u64)" by auto
    then have "ProcessRGB_AVX ?buf = Some [fix_indices (ProcessRGB_dxt ?a), fix_indices (ProcessRGB_dxt ?b)]"
      unfolding ProcessRGB_AVX_def px solid_sse_solid [OF len(1)] solid_sse_solid [OF len(2)] Let_def de(1,2) by (simp only: if_False Option.bind.bind_lunit de(3,4))
    then show ?thesis by (auto simp: same_picture_def)
  qed
qed

section \<open>The image\<close>

lemma pair_advance_pos:
  assumes "width = 8 * n" "0 < n"
  shows "pair_advance width (block_pos width (2 * k) + 8, k mod n) = (block_pos width (2 * Suc k), Suc k mod n)"
    "block_pos width (2 * k) + 4 = block_pos width (2 * k + 1)"
proof -
  have w: "width div 4 = 2 * n" "width div 8 = n" using assms by simp_all
  have even: "2 * i div (2 * n) = i div n" "2 * i mod (2 * n) = 2 * (i mod n)" for i by (simp, simp only: mult_mod_right)
  have dm: "(a + q * b) div b = q" "(a + q * b) mod b = a" if "a < b" for a b q :: nat using that by simp_all
  define q r where "q = k div n" and "r = k mod n"
  have k: "k = r + q * n" unfolding q_def r_def by simp
  have "2 * k + 1 = (2 * r + 1) + q * (2 * n)" unfolding k by (simp add: distrib_left)
  moreover have "2 * r + 1 < 2 * n" using mod_less_divisor [OF assms(2), of k] unfolding r_def by linarith
  ultimately have odd: "(2 * k + 1) div (2 * n) = k div n" "(2 * k + 1) mod (2 * n) = 2 * (k mod n) + 1"
    unfolding q_def [symmetric] r_def [symmetric] by (simp_all only: dm)
  show "block_pos width (2 * k) + 4 = block_pos width (2 * k + 1)"
    unfolding block_pos_def w even odd by simp
  show "pair_advance width (block_pos width (2 * k) + 8, k mod n) = (block_pos width (2 * Suc k), Suc k mod n)"
  proof (cases "Suc k mod n = 0")
    case True
    then have "Suc (k mod n) = n" "Suc k div n = Suc (k div n)" by (auto simp: mod_Suc div_Suc split: if_splits)
    moreover from this have "k mod n * 8 + 8 = width" using assms(1) by simp
    ultimately show ?thesis using True unfolding pair_advance_def block_pos_def w even by (simp add: Let_def)
  next
    case False
    then have "Suc (k mod n) \<noteq> n" "Suc k mod n = Suc (k mod n)" "Suc k div n = k div n"
      by (auto simp: mod_Suc div_Suc split: if_splits)
    then show ?thesis unfolding pair_advance_def block_pos_def w even by (simp add: Let_def)
  qed
qed

lemma pair_loop:
  assumes "width = 8 * n" "0 < n" "\<And>i. i < 2 * m \<Longrightarrow> sse_takes (dxt_block src width i)"
  shows "\<exists>ws. (pair_step src width ^^ m) ((0, 0), Some []) = ((block_pos width (2 * m), m mod n), Some ws) \<and> length ws = 2 * m \<and>
    (\<forall>i < 2 * m. same_picture (ws ! i) (fix_indices (ProcessRGB_dxt (bytes_of (dxt_block src width i)))))"
  using assms(3)
proof (induction m)
  case 0
  show ?case by (simp add: block_pos_def)
next
  case (Suc m)
  let ?p = "block_pos width (2 * m)"
  from Suc obtain ws where ws: "(pair_step src width ^^ m) ((0, 0), Some []) = ((?p, m mod n), Some ws)" "length ws = 2 * m"
    "\<And>i. i < 2 * m \<Longrightarrow> same_picture (ws ! i) (fix_indices (ProcessRGB_dxt (bytes_of (dxt_block src width i))))" by auto
  note pos = pair_advance_pos [OF assms(1,2)]
  have blk: "dxt_block src width (2 * m) = rows_at src width ?p" "dxt_block src width (2 * m + 1) = rows_at src width (?p + 4)"
    by (simp_all add: dxt_block_def pos(2))
  have "sse_takes (rows_at src width ?p)" "sse_takes (rows_at src width (?p + 4))"
    using Suc.prems [of "2 * m"] Suc.prems [of "2 * m + 1"] unfolding blk [symmetric] by simp_all
  from ProcessRGB_AVX_pair [OF this] obtain d e where
    de: "ProcessRGB_AVX (bytes_of (fst (copy_pairs src width ?p))) = Some [d, e]"
      "same_picture d (fix_indices (ProcessRGB_dxt (bytes_of (dxt_block src width (2 * m)))))"
      "same_picture e (fix_indices (ProcessRGB_dxt (bytes_of (dxt_block src width (2 * m + 1)))))" unfolding blk by blast
  have copy: "copy_pairs src width ?p = (fst (copy_pairs src width ?p), ?p + 8)" by (simp add: copy_pairs_def)
  have "pair_step src width ((?p, m mod n), Some ws) = (pair_advance width (?p + 8, m mod n), Some (ws @ [d, e]))"
    unfolding pair_step_def prod.case by (subst copy) (simp only: prod.case Option.bind.bind_lunit de(1))
  then have step: "(pair_step src width ^^ Suc m) ((0, 0), Some []) = ((block_pos width (2 * Suc m), Suc m mod n), Some (ws @ [d, e]))"
    by (simp only: funpow.simps o_apply ws(1) pos(1))
  have "same_picture ((ws @ [d, e]) ! i) (fix_indices (ProcessRGB_dxt (bytes_of (dxt_block src width i))))" if "i < 2 * Suc m" for i
  proof -
    from that have "i < 2 * m \<or> i = 2 * m \<or> i = 2 * m + 1" by auto
    then show ?thesis using ws(2,3) de(2,3) by (elim disjE) (simp_all add: nth_append)
  qed
  then show ?case using step ws(2) by (intro exI [of _ "ws @ [d, e]"]) simp
qed

lemma emit_blocks:
  assumes "\<And>k. k < m \<Longrightarrow> ProcessRGB_dxt_sse (dither (bytes_of (dxt_block src width k))) = Some (g k)"
  shows "fold (\<lambda>k. emit_dxt1 dither (rows_at src width (block_pos width k))) [0..<m] (Some []) = Some (map (\<lambda>k. fix_indices (g k)) [0..<m])"
  using assms
proof (induction m)
  case (Suc m)
  have "ProcessRGB_dxt_sse (dither (bytes_of (rows_at src width (block_pos width m)))) = Some (g m)"
    using Suc.prems [of m] by (simp add: dxt_block_def)
  then show ?case using Suc by (simp add: emit_dxt1_def)
qed simp

lemma CompressDxt1_sse_scalar:
  assumes "width = 4 * n" "0 < n" "\<And>k. k < loop_count blocks \<Longrightarrow> sse_takes (dxt_block src width k)"
  shows "CompressDxt1_sse src blocks width = Some (CompressDxt1 src blocks width)"
proof -
  have "ProcessRGB_dxt_sse (id (bytes_of (dxt_block src width k))) = Some (ProcessRGB_dxt (bytes_of (dxt_block src width k)))"
    if "k < loop_count blocks" for k
    using assms(3) [OF that] unfolding id_apply sse_takes_def by (intro ProcessRGB_dxt_sse_scalar) (simp_all add: dxt_block_def)
  from emit_blocks [of _ id, where g = "\<lambda>k. ProcessRGB_dxt (bytes_of (dxt_block src width k))", OF this] show ?thesis
    unfolding CompressDxt1_sse_def dxt_rows.block_loop_fold [OF assms(1,2)] CompressDxt1_blocks [OF assms(1,2)] .
qed

text \<open>The scalar \<open>Dither\<close> leaves no alpha, so its blocks always fit the table.\<close>

lemma CompressDxt1Dither_sse_scalar:
  assumes "width = 4 * n" "0 < n"
  shows "CompressDxt1Dither_sse False src blocks width = Some (CompressDxt1Dither src blocks width)"
proof -
  have "ProcessRGB_dxt_sse (Dither (bytes_of (dxt_block src width k))) = Some (ProcessRGB_dxt (Dither (bytes_of (dxt_block src width k))))" for k
  proof (intro ProcessRGB_dxt_sse_scalar disjI2)
    show "length (Dither (bytes_of (dxt_block src width k))) = 64" by (rule length_Dither)
    have "Dither (bytes_of (dxt_block src width k)) ! (4 * i + 3) = 0" if "i < 16" for i
      using that by (intro Dither_alpha) (simp_all add: dxt_block_def)
    from this this [of 0] show "same_alpha (Dither (bytes_of (dxt_block src width k)))" by (simp add: same_alpha_def)
  qed
  from emit_blocks [of _ Dither, where g = "\<lambda>k. ProcessRGB_dxt (Dither (bytes_of (dxt_block src width k)))", OF this] show ?thesis
    unfolding CompressDxt1Dither_sse_def dxt_rows.block_loop_fold [OF assms] CompressDxt1Dither_blocks [OF assms] by simp
qed

lemma half_of_nat:
  assumes "2 * k < 2 ^ 32"
  shows "(of_nat (2 * k) :: u32) div 2 = of_nat k"
proof -
  have u: "unat (of_nat i :: u32) = i" if "i < 2 ^ 32" for i
    using that by (simp add: unsigned_of_nat take_bit_nat_eq_self)
  have "k < 2 ^ 32" using assms by simp
  then show ?thesis using u [OF assms] u [of k] by (intro word_unat_eq_iff [THEN iffD2]) (simp only: unat_div, simp)
qed

lemma CompressDxt1_avx2_pictures:
  assumes "width = 4 * n" "0 < n" "0 < b" "b * n < 2 ^ 32" "\<And>k. k < b * n \<Longrightarrow> sse_takes (dxt_block src width k)"
  shows "\<exists>ws. CompressDxt1_avx2 src (of_nat (b * n)) width = Some ws \<and>
    (\<forall>k < b * n. same_picture (ws ! k) (CompressDxt1 src (of_nat (b * n)) width ! k))"
proof -
  have pos: "0 < b * n" using assms(2,3) by simp
  have count: "loop_count (of_nat (b * n)) = b * n" by (rule loop_count_exact [OF pos assms(4)])
  have plain: "CompressDxt1 src (of_nat (b * n)) width ! k = fix_indices (ProcessRGB_dxt (bytes_of (dxt_block src width k)))" if "k < b * n" for k
    using that unfolding CompressDxt1_blocks [OF assms(1,2)] count by simp
  show ?thesis
  proof (cases "width mod 8 = 0")
    case True
    then have "n mod 2 = 0" using assms(1) by presburger
    then obtain m where m: "n = 2 * m" by (auto elim: evenE simp: even_iff_mod_2_eq_zero)
    have m0: "0 < m" "width = 8 * m" "b * n = 2 * (b * m)" using m assms(1,2) by simp_all
    have bm: "2 * (b * m) < 2 ^ 32" "0 < b * m" using m0(1,3) assms(3,4) by simp_all
    then have "loop_count (of_nat (b * n) div 2) = b * m"
      unfolding m0(3) half_of_nat [OF bm(1)] by (intro loop_count_exact) linarith+
    moreover from pair_loop [OF m0(2,1), of "b * m" src] assms(5) obtain ws where
      "(pair_step src width ^^ (b * m)) ((0, 0), Some []) = ((block_pos width (2 * (b * m)), b * m mod m), Some ws)"
      "\<And>i. i < b * n \<Longrightarrow> same_picture (ws ! i) (fix_indices (ProcessRGB_dxt (bytes_of (dxt_block src width i))))" unfolding m0(3) by blast
    ultimately show ?thesis using True plain by (intro exI [of _ ws]) (simp add: CompressDxt1_avx2_def)
  next
    case False
    then show ?thesis using CompressDxt1_sse_scalar [OF assms(1,2), of "of_nat (b * n)" src] assms(5)
      unfolding count by (auto simp: CompressDxt1_avx2_def same_picture_def)
  qed
qed

text \<open>C13: The builds of the DXT1 compressors agree on every image whose blocks are solid or have one alpha value: compiled
  for SSE4.1 they write the words of the scalar build, with and without dithering, and compiled for AVX2, where two
  blocks are compressed at a time and two solid neighbours are written in another form, the image that is decoded
  is the same.\<close>

theorem dxt1_builds_agree:
  assumes "w = 4 * n" "h = 4 * m" "n * m < 2 ^ 32" "x < w" "y < h" "length dst = w * h"
    and "\<And>k. k < n * m \<Longrightarrow> sse_takes (dxt_block src w k)"
  defines "blocks \<equiv> of_nat (n * m)"
  shows "CompressDxt1_sse src blocks w = Some (CompressDxt1 src blocks w) \<and>
    CompressDxt1Dither_sse False src blocks w = Some (CompressDxt1Dither src blocks w) \<and>
    (\<exists>ws. CompressDxt1_avx2 src blocks w = Some ws \<and>
      DecodeDxt1 ws w h dst ! (y * w + x) = DecodeDxt1 (CompressDxt1 src blocks w) w h dst ! (y * w + x))"
proof -
  define k where "k = y div 4 * (w div 4) + x div 4"
  have pos: "0 < n" "0 < m" using assms(1,2,4,5) by auto
  then have count: "loop_count blocks = n * m" unfolding blocks_def using assms(3) by (intro loop_count_exact) simp_all
  have k: "k < n * m" using pixel_block_visited [OF assms(1,2,3,4,5)] unfolding k_def count [unfolded blocks_def] .
  have "m * n < 2 ^ 32" "\<And>k. k < m * n \<Longrightarrow> sse_takes (dxt_block src w k)" using assms(3,7) by (simp_all add: mult.commute)
  from CompressDxt1_avx2_pictures [OF assms(1) pos this] obtain ws where
    ws: "CompressDxt1_avx2 src blocks w = Some ws" "same_picture (ws ! k) (CompressDxt1 src blocks w ! k)"
    using k unfolding blocks_def by (auto simp: mult.commute)
  have shown: "DecodeDxt1 ds w h dst ! (y * w + x) = dxt1_image (ds ! k) (x mod 4) (y mod 4)" for ds
    using dxt1.decode_blocks_places(2) [OF assms(1,2,6,4,5), folded DecodeDxt1_def k_def] .
  have "dxt1_image (ws ! k) (x mod 4) (y mod 4) = dxt1_image (CompressDxt1 src blocks w ! k) (x mod 4) (y mod 4)"
    using ws(2) by (simp add: same_picture_def)
  moreover have "CompressDxt1_sse src blocks w = Some (CompressDxt1 src blocks w)"
    using assms(7) by (intro CompressDxt1_sse_scalar [OF assms(1) pos(1)]) (simp add: count)
  ultimately show ?thesis using ws(1) CompressDxt1Dither_sse_scalar [OF assms(1) pos(1)] unfolding shown by blast
qed

lemma flat_takes: "sse_takes (replicate 16 v)"
proof -
  have "bytes_of (replicate 16 v) ! (4 * i + c) = ucast (drop_bit (8 * c) v)" if "i < 16" "c < 4" for i c
    using that by (simp add: bytes_of_nth del: replicate_16)
  from this this [of 0] show ?thesis unfolding sse_takes_def by (subst solid_bytes) (simp_all del: replicate_16)
qed

lemma flat_image_block: "k < 4 \<Longrightarrow> dxt_block (replicate 64 v) 8 k = replicate 16 v"
proof -
  assume "k < 4"
  then have "block_pos 8 k \<le> 36" using less_4_cases [of k] by (auto simp: block_pos_def)
  then have "block_pos 8 k + 8 * (i div 4) + i mod 4 < 64" if "i < 16" for i
  proof -
    have "i div 4 < 4" "i mod 4 < 4" using that by simp_all
    then show ?thesis using \<open>block_pos 8 k \<le> 36\<close> by linarith
  qed
  then show ?thesis unfolding dxt_block_def rows_at_def
    by (intro nth_equalityI) (simp_all del: upt_rec_numeral replicate_16)
qed

lemma dxt1_builds_agree_witness:
  "let src = replicate 64 0xFF336699; blocks = of_nat (2 * 2); dst = replicate 64 0 in
    CompressDxt1_sse src blocks 8 = Some (CompressDxt1 src blocks 8) \<and>
    CompressDxt1Dither_sse False src blocks 8 = Some (CompressDxt1Dither src blocks 8) \<and>
    (\<exists>ws. CompressDxt1_avx2 src blocks 8 = Some ws \<and>
      DecodeDxt1 ws 8 8 dst ! (5 * 8 + 6) = DecodeDxt1 (CompressDxt1 src blocks 8) 8 8 dst ! (5 * 8 + 6))"
proof -
  have "sse_takes (dxt_block (replicate 64 0xFF336699) 8 k)" if "k < 2 * 2" for k
    using that flat_takes by (simp add: flat_image_block del: replicate_16)
  then show ?thesis unfolding Let_def
    by (intro dxt1_builds_agree [where n = 2 and m = 2]) (simp_all only: length_replicate, simp_all)
qed

end
