(* ===== verification/BlockFile.thy ===== *)
theory BlockFile imports Memory "HOL-Library.Log_Nat" "HOL-Library.Monad_Syntax" begin

text \<open>
  The compressed file of \<open>src/BlockData.cpp\<close>: the header of a PVR file (or the one of a KTX file, which is
  only read), the length of the file with its mipmaps (\<open>src/MipMap.hpp\<close>), and the words behind the header.
  The mapped memory \<open>m_data\<close> is the list of its bytes, so \<open>m_maplen\<close> is its length.  A failed assertion, an
  access outside of the memory and an overflow of \<open>int\<close> are \<open>None\<close>.
\<close>

datatype Type = Etc1 | Etc2_RGB | Etc2_RGBA | Dxt1 | Dxt5

record block_data =
  m_data :: "u8 list"
  m_size :: "int \<times> int"
  m_dataOffset :: nat
  m_type :: Type

section \<open>Memory\<close>

definition word_at :: "u8 list \<Rightarrow> nat \<Rightarrow> u32 option" where
  "word_at data i = (if 4 * i + 4 \<le> length data then Some (word_of_bytes (take 4 (drop (4 * i) data))) else None)"

text \<open>Arrays of \<open>uint64_t\<close> in the memory.\<close>

definition load64 :: "nat \<Rightarrow> nat \<Rightarrow> u8 list \<Rightarrow> u64 list option" where
  "load64 pos n data = (if pos + 8 * n \<le> length data
     then Some (map (\<lambda>k. word64_of_bytes (take 8 (drop (pos + 8 * k) data))) [0..<n]) else None)"

definition store64 :: "nat \<Rightarrow> u64 list \<Rightarrow> u8 list \<Rightarrow> u8 list option" where
  "store64 pos ws data = (if pos + 8 * length ws \<le> length data
     then Some (take pos data @ concat (map word64_bytes ws) @ drop (pos + 8 * length ws) data) else None)"

section \<open>Opening a file\<close>

definition pvr_type :: "u32 \<Rightarrow> Type option" where
  "pvr_type f = (if f = 6 then Some Etc1 else if f = 7 then Some Dxt1 else if f = 11 then Some Dxt5
     else if f = 22 then Some Etc2_RGB else if f = 23 then Some Etc2_RGBA else None)"

definition ktx_type :: "u32 \<Rightarrow> Type option" where
  "ktx_type f = (if f = 0x9274 then Some Etc2_RGB else if f = 0x9278 then Some Etc2_RGBA else None)"

text \<open>The offset of a PVR file is computed with 32 bits, the one of a KTX file with 64.\<close>

definition open_block_data :: "u8 list \<Rightarrow> block_data option" where
  "open_block_data data = do {
     data32 \<leftarrow> word_at data 0;
     if data32 = 0x03525650 then do {
       f \<leftarrow> word_at data 2;
       type \<leftarrow> pvr_type f;
       y \<leftarrow> word_at data 6;
       x \<leftarrow> word_at data 7;
       meta \<leftarrow> word_at data 12;
       Some \<lparr>m_data = data, m_size = (sint x, sint y), m_dataOffset = unat (52 + meta), m_type = type\<rparr>
     } else if data32 = 0x58544BAB then do {
       f \<leftarrow> word_at data 7;
       type \<leftarrow> ktx_type f;
       x \<leftarrow> word_at data 9;
       y \<leftarrow> word_at data 10;
       meta \<leftarrow> word_at data 15;
       Some \<lparr>m_data = data, m_size = (sint x, sint y), m_dataOffset = 4 * 17 + unat meta, m_type = type\<rparr>
     } else None
   }"

section \<open>Creating a file\<close>

text \<open>\<open>floor( log2( v ) ) + 1\<close>.\<close>

definition NumberOfMipLevels :: "int \<times> int \<Rightarrow> nat" where
  "NumberOfMipLevels sz = floorlog 2 (nat (max (fst sz) (snd sz)))"

definition int32 :: "int \<Rightarrow> int option" where
  "int32 v = (if - (2 ^ 31) \<le> v \<and> v < 2 ^ 31 then Some v else None)"

definition half_size :: "int \<times> int \<Rightarrow> int \<times> int" where
  "half_size current = (max 1 (tdiv (fst current) 2), max 1 (tdiv (snd current) 2))"

definition mip_step :: "(int \<times> int) \<times> int \<Rightarrow> ((int \<times> int) \<times> int) option" where
  "mip_step st = (case st of (current, len) \<Rightarrow>
     if fst current \<noteq> 1 \<or> snd current \<noteq> 1 then do {
       let current = half_size current;
       area \<leftarrow> int32 (max 4 (fst current) * max 4 (snd current));
       len \<leftarrow> int32 (len + tdiv area 2);
       Some (current, len)
     } else None)"

primrec mip_steps :: "nat \<Rightarrow> (int \<times> int) \<times> int \<Rightarrow> ((int \<times> int) \<times> int) option" where
  "mip_steps 0 st = Some st"
| "mip_steps (Suc i) st = Option.bind (mip_step st) (mip_steps i)"

definition AdjustSizeForMipmaps :: "int \<times> int \<Rightarrow> nat \<Rightarrow> int option" where
  "AdjustSizeForMipmaps sz levels = do {
     (current, len) \<leftarrow> mip_steps (levels - 1) (sz, 0);
     if fst current = 1 \<and> snd current = 1 then Some len else None
   }"

definition type_code :: "Type \<Rightarrow> u32" where
  "type_code type = (case type of Etc1 \<Rightarrow> 6 | Etc2_RGB \<Rightarrow> 22 | Etc2_RGBA \<Rightarrow> 23 | Dxt1 \<Rightarrow> 7 | Dxt5 \<Rightarrow> 11)"

definition header_words :: "int \<times> int \<Rightarrow> nat \<Rightarrow> Type \<Rightarrow> u32 list" where
  "header_words sz levels type = [0x03525650, 0, type_code type, 0, 0, 0, of_int (snd sz), of_int (fst sz), 1, 1, 1,
     of_nat levels, 0]"

text \<open>The file is extended to its length with zeros, then the header is written.\<close>

definition OpenForWriting :: "nat \<Rightarrow> int \<times> int \<Rightarrow> nat \<Rightarrow> Type \<Rightarrow> u8 list option" where
  "OpenForWriting len sz levels type = (let header = bytes_of (header_words sz levels type) in
     if length header \<le> len then Some (header @ drop (length header) (replicate len 0)) else None)"

definition map_length :: "int \<times> int \<Rightarrow> bool \<Rightarrow> Type \<Rightarrow> (u64 \<times> nat) option" where
  "map_length sz mipmap type = do {
     area \<leftarrow> int32 (fst sz * snd sz);
     let maplen = of_int (tdiv area 2);
     if fst sz mod 4 = 0 \<and> snd sz mod 4 = 0 then do {
       let levels = (if mipmap then NumberOfMipLevels sz else 1);
       extra \<leftarrow> (if mipmap then AdjustSizeForMipmaps sz levels else Some 0);
       let maplen = maplen + of_int extra;
       let maplen = (if type = Etc2_RGBA \<or> type = Dxt5 then maplen * 2 else maplen);
       Some (maplen + 52, levels)
     } else None
   }"

definition create_file :: "int \<times> int \<Rightarrow> bool \<Rightarrow> Type \<Rightarrow> block_data option" where
  "create_file sz mipmap type = do {
     (maplen, levels) \<leftarrow> map_length sz mipmap type;
     data \<leftarrow> OpenForWriting (unat maplen) sz levels type;
     Some \<lparr>m_data = data, m_size = sz, m_dataOffset = 52, m_type = type\<rparr>
   }"

text \<open>Without a file the memory is allocated, with arbitrary contents.\<close>

definition create_memory :: "(nat \<Rightarrow> u8) \<Rightarrow> int \<times> int \<Rightarrow> bool \<Rightarrow> Type \<Rightarrow> block_data option" where
  "create_memory junk sz mipmap type = do {
     (maplen, levels) \<leftarrow> map_length sz mipmap type;
     Some \<lparr>m_data = map junk [0..<unat maplen], m_size = sz, m_dataOffset = 52, m_type = type\<rparr>
   }"

text \<open>The compressors write through \<open>dst\<close>, which points \<open>offset\<close> words into the data.\<close>

definition put_words :: "nat \<Rightarrow> u64 list \<Rightarrow> block_data \<Rightarrow> block_data option" where
  "put_words offset ws bd = do {
     data \<leftarrow> store64 (m_dataOffset bd + 8 * offset) ws (m_data bd);
     Some (bd\<lparr>m_data := data\<rparr>)
   }"

section \<open>Laws of the memory\<close>

text \<open>What the tasks that share the file rely on: a store succeeds when there is room, it is read back, and it
  changes nothing else.  Positions count words.\<close>

locale word_memory =
  fixes load :: "nat \<Rightarrow> nat \<Rightarrow> 'm \<Rightarrow> u64 list option" and store :: "nat \<Rightarrow> u64 list \<Rightarrow> 'm \<Rightarrow> 'm option"
    and room :: "'m \<Rightarrow> nat" and outside :: "'m \<Rightarrow> 'o"
  assumes stores: "0 < length ws \<Longrightarrow> pos + length ws \<le> room m \<Longrightarrow> \<exists>m'. store pos ws m = Some m'"
    and keeps_room: "store pos ws m = Some m' \<Longrightarrow> room m' = room m"
    and keeps_outside: "store pos ws m = Some m' \<Longrightarrow> outside m' = outside m"
    and read_back: "store pos ws m = Some m' \<Longrightarrow> load pos (length ws) m' = Some ws"
    and frame: "store pos ws m = Some m' \<Longrightarrow> q + n \<le> pos \<or> pos + length ws \<le> q \<Longrightarrow> load q n m' = load q n m"
begin

lemma store_list:
  assumes "\<forall>(p, ws) \<in> set ss. 0 < length ws \<and> p + length ws \<le> room m"
    and "sorted_wrt (\<lambda>(p, v) (q, w). p + length v \<le> q \<or> q + length w \<le> p) ss"
  shows "\<exists>m'. fold (\<lambda>(p, ws) m. Option.bind m (store p ws)) ss (Some m) = Some m' \<and> room m' = room m \<and> outside m' = outside m \<and>
    (\<forall>(p, ws) \<in> set ss. load p (length ws) m' = Some ws) \<and>
    (\<forall>q n. (\<forall>(p, ws) \<in> set ss. q + n \<le> p \<or> p + length ws \<le> q) \<longrightarrow> load q n m' = load q n m)"
  using assms
proof (induction ss arbitrary: m)
  case (Cons s ss)
  obtain p ws where s: "s = (p, ws)" by (cases s)
  obtain m1 where m1: "store p ws m = Some m1" using Cons.prems(1) stores [of ws p m] by (auto simp: s)
  note k = keeps_room [OF m1] keeps_outside [OF m1] read_back [OF m1] frame [OF m1]
  have "\<forall>(p, ws) \<in> set ss. 0 < length ws \<and> p + length ws \<le> room m1"
    "sorted_wrt (\<lambda>(p, v) (q, w). p + length v \<le> q \<or> q + length w \<le> p) ss"
    using Cons.prems by (auto simp: k(1))
  from Cons.IH [OF this] obtain m2 where m2: "fold (\<lambda>(p, ws) m. Option.bind m (store p ws)) ss (Some m1) = Some m2"
    "room m2 = room m1" "outside m2 = outside m1" "\<forall>(p, ws) \<in> set ss. load p (length ws) m2 = Some ws"
    "\<forall>q n. (\<forall>(p, ws) \<in> set ss. q + n \<le> p \<or> p + length ws \<le> q) \<longrightarrow> load q n m2 = load q n m1" by blast
  have "load p (length ws) m2 = load p (length ws) m1"
    using Cons.prems(2) m2(5) by (fastforce simp: s)
  moreover have "load q n m2 = load q n m" if "\<forall>(p, ws) \<in> set (s # ss). q + n \<le> p \<or> p + length ws \<le> q" for q n
    using that m2(5) k(4) [of q n] by (simp add: s)
  ultimately show ?case using m1 m2 k by (intro exI [of _ m2]) (auto simp: s)
qed simp

end

lemma length_word_list [simp]: "length (concat (map word64_bytes ws)) = 8 * length ws"
  by (induction ws) simp_all

lemma word_list_at: "k < length ws \<Longrightarrow> take 8 (drop (8 * k) (concat (map word64_bytes ws) @ rest)) = word64_bytes (ws ! k)"
  by (induction ws arbitrary: k) (auto simp: nth_Cons split: nat.splits)

lemma store64_length: "store64 pos ws data = Some data' \<Longrightarrow> length data' = length data"
  by (auto simp: store64_def split: if_splits)

lemma store64_read_back:
  assumes "store64 pos ws data = Some data'"
  shows "load64 pos (length ws) data' = Some ws"
proof -
  have e: "pos + 8 * length ws \<le> length data" "data' = take pos data @ concat (map word64_bytes ws) @ drop (pos + 8 * length ws) data"
    using assms by (auto simp: store64_def split: if_splits)
  have "drop (pos + 8 * k) data' = drop (8 * k) (concat (map word64_bytes ws) @ drop (pos + 8 * length ws) data)" for k
    using e(1) by (simp add: e(2))
  then have "word64_of_bytes (take 8 (drop (pos + 8 * k) data')) = ws ! k" if "k < length ws" for k
    using that by (simp only: word_list_at word64_of_word64_bytes)
  then have "map (\<lambda>k. word64_of_bytes (take 8 (drop (pos + 8 * k) data'))) [0..<length ws] = ws"
    by (intro nth_equalityI) simp_all
  then show ?thesis using e(1) store64_length [OF assms] by (simp add: load64_def)
qed

lemma store64_bytes:
  assumes "store64 pos ws data = Some data'" "i < pos \<or> pos + 8 * length ws \<le> i"
  shows "data' ! i = data ! i"
proof -
  have e: "pos + 8 * length ws \<le> length data" "data' = take pos data @ concat (map word64_bytes ws) @ drop (pos + 8 * length ws) data"
    using assms(1) by (auto simp: store64_def split: if_splits)
  show ?thesis
  proof (cases "i < pos")
    case True
    then show ?thesis using e by (simp add: nth_append)
  next
    case False
    then have i: "pos + 8 * length ws \<le> i" using assms(2) by simp
    then have "data' ! i = (concat (map word64_bytes ws) @ drop (pos + 8 * length ws) data) ! (i - pos)"
      using e by (simp add: nth_append)
    also have "\<dots> = drop (pos + 8 * length ws) data ! (i - pos - 8 * length ws)"
      using i by (simp add: nth_append) linarith
    finally show ?thesis using e(1) i by simp
  qed
qed

lemma take_drop_same:
  assumes "length b = length a" "\<And>i. p \<le> i \<Longrightarrow> i < p + n \<Longrightarrow> b ! i = a ! i"
  shows "take n (drop p b) = take n (drop p a)"
  using assms by (intro nth_equalityI) (auto simp: nth_drop)

lemma store64_frame:
  assumes "store64 pos ws data = Some data'" "q + 8 * n \<le> pos \<or> pos + 8 * length ws \<le> q"
  shows "load64 q n data' = load64 q n data"
proof -
  have "take 8 (drop (q + 8 * k) data') = take 8 (drop (q + 8 * k) data)" if "k < n" for k
    using that assms(2) by (intro take_drop_same store64_length [OF assms(1)] store64_bytes [OF assms(1)]) auto
  then show ?thesis using store64_length [OF assms(1)] by (simp add: load64_def)
qed

lemma store64_take: "store64 pos ws data = Some data' \<Longrightarrow> n \<le> pos \<Longrightarrow> take n data' = take n data"
  using take_drop_same [of data' data 0 n] store64_length store64_bytes by fastforce

text \<open>The words of a file after its header.\<close>

definition file_room :: "block_data \<Rightarrow> nat" where
  "file_room bd = (length (m_data bd) - m_dataOffset bd) div 8"

definition file_frame :: "block_data \<Rightarrow> u8 list \<times> (int \<times> int) \<times> nat \<times> Type" where
  "file_frame bd = (take (m_dataOffset bd) (m_data bd), m_size bd, m_dataOffset bd, m_type bd)"

definition get_words :: "nat \<Rightarrow> nat \<Rightarrow> block_data \<Rightarrow> u64 list option" where
  "get_words offset n bd = load64 (m_dataOffset bd + 8 * offset) n (m_data bd)"

lemma put_wordsE:
  assumes "put_words offset ws bd = Some bd'"
  obtains data where "store64 (m_dataOffset bd + 8 * offset) ws (m_data bd) = Some data" "bd' = bd\<lparr>m_data := data\<rparr>"
  using assms by (auto simp: put_words_def split: Option.bind_splits)

interpretation file_words: word_memory get_words put_words file_room file_frame
proof
  fix pos :: nat and ws :: "u64 list" and m m' :: block_data and q n :: nat
  show "\<exists>m'. put_words pos ws m = Some m'" if w: "0 < length ws" "pos + length ws \<le> file_room m"
  proof -
    have "8 * (pos + length ws) \<le> length (m_data m) - m_dataOffset m"
      using w(2) by (simp add: file_room_def less_eq_div_iff_mult_less_eq)
    moreover from this have "0 < length (m_data m) - m_dataOffset m" using w(1) by (metis add_gr_0 le_zero_eq mult_is_0 not_gr0 zero_neq_numeral)
    ultimately have "m_dataOffset m + 8 * pos + 8 * length ws \<le> length (m_data m)" by presburger
    then show ?thesis by (simp add: put_words_def store64_def)
  qed
  show "file_room m' = file_room m" if "put_words pos ws m = Some m'"
    using that by (elim put_wordsE) (simp add: file_room_def store64_length)
  show "file_frame m' = file_frame m" if "put_words pos ws m = Some m'"
    using that by (elim put_wordsE) (simp add: file_frame_def store64_take)
  show "get_words pos (length ws) m' = Some ws" if "put_words pos ws m = Some m'"
    using that by (elim put_wordsE) (simp add: get_words_def store64_read_back)
  show "get_words q n m' = get_words q n m" if "put_words pos ws m = Some m'" "q + n \<le> pos \<or> pos + length ws \<le> q"
    using that by (elim put_wordsE) (auto simp: get_words_def intro: store64_frame)
qed

lemma load64_nth: "load64 pos n data = Some ws \<Longrightarrow> i < n \<Longrightarrow> load64 (pos + 8 * i) 1 data = Some [ws ! i]"
  by (auto simp: load64_def split: if_splits)

lemma get_words_nth:
  assumes "get_words offset n bd = Some ws" "i < n"
  shows "get_words (offset + i) 1 bd = Some [ws ! i]"
  using load64_nth [OF assms [unfolded get_words_def]] by (simp add: get_words_def algebra_simps)

lemma get_words_all:
  assumes "\<And>k. k < n \<Longrightarrow> get_words k 1 bd = Some [f k]" "0 < n"
  shows "get_words 0 n bd = Some (map f [0..<n])"
proof -
  have "m_dataOffset bd + 8 * (n - 1) + 8 * 1 \<le> length (m_data bd)"
    using assms(1) [of "n - 1"] assms(2) by (simp add: get_words_def load64_def split: if_splits)
  moreover have "word64_of_bytes (take 8 (drop (m_dataOffset bd + 8 * k) (m_data bd))) = f k" if "k < n" for k
    using assms(1) [OF that] by (simp add: get_words_def load64_def split: if_splits)
  ultimately show ?thesis using assms(2) by (simp add: get_words_def load64_def)
qed

section \<open>The header\<close>

lemma word_at_header: "i < length ws \<Longrightarrow> word_at (bytes_of ws @ rest) i = Some (ws ! i)"
  by (simp add: word_at_def take_drop_bytes_of del: word_bytes_4 flip: word_of_bytes_bytes) (simp del: word_bytes_4 add: take_drop_bytes_of)

lemma pvr_type_code [simp]: "pvr_type (type_code type) = Some type"
  by (cases type) (simp_all add: pvr_type_def type_code_def)

lemma take_eq_append: "take n xs = take n (ys @ zs) \<Longrightarrow> length ys = n \<Longrightarrow> xs = ys @ drop n xs"
  by (metis append_eq_conv_conj append_take_drop_id)

lemma open_header:
  assumes "take 52 data = bytes_of (header_words (x, y) levels type)" "- (2 ^ 31) \<le> x" "x < 2 ^ 31" "- (2 ^ 31) \<le> y" "y < 2 ^ 31"
  shows "open_block_data data = Some \<lparr>m_data = data, m_size = (x, y), m_dataOffset = 52, m_type = type\<rparr>"
proof -
  let ?ws = "header_words (x, y) levels type"
  have l: "length ?ws = 13" by (simp add: header_words_def)
  have "data = bytes_of ?ws @ drop 52 data" using assms(1) by (metis append_take_drop_id)
  then have w: "word_at data i = Some (?ws ! i)" if "i < 13" for i
    using that word_at_header [of i ?ws "drop 52 data"] l by metis
  have "sint (of_int v :: u32) = v" if "- (2 ^ 31) \<le> v" "v < 2 ^ 31" for v
    using that signed_take_bit_int_eq_self [of 31 v] by (simp add: sint_sbintrunc')
  then show ?thesis
    using assms(2-5) by (simp add: open_block_data_def w header_words_def)
qed

lemma length_header_words [simp]: "length (header_words sz levels type) = 13"
  by (simp add: header_words_def)

lemma length_header: "length (bytes_of (header_words sz levels type)) = 52"
  by simp

lemma OpenForWriting_header:
  "OpenForWriting len sz levels type = Some data \<Longrightarrow> length data = len \<and> take 52 data = bytes_of (header_words sz levels type)"
  unfolding OpenForWriting_def Let_def length_header by (split if_splits) auto

lemma create_fileE:
  assumes "create_file sz mipmap type = Some bd"
  obtains maplen levels where "map_length sz mipmap type = Some (maplen, levels)" "length (m_data bd) = unat maplen"
    "m_size bd = sz" "m_dataOffset bd = 52" "m_type bd = type" "take 52 (m_data bd) = bytes_of (header_words sz levels type)"
proof -
  obtain maplen levels where m: "map_length sz mipmap type = Some (maplen, levels)"
    using assms by (cases "map_length sz mipmap type") (auto simp: create_file_def)
  obtain data where d: "OpenForWriting (unat maplen) sz levels type = Some data"
    using assms m by (cases "OpenForWriting (unat maplen) sz levels type") (simp_all add: create_file_def)
  have "bd = \<lparr>m_data = data, m_size = sz, m_dataOffset = 52, m_type = type\<rparr>" using assms by (simp add: create_file_def m d)
  with that [OF m] OpenForWriting_header [OF d] show thesis by simp
qed

section \<open>The length of a file\<close>

definition level_size :: "int \<times> int \<Rightarrow> nat \<Rightarrow> int \<times> int" where
  "level_size sz i = (max 1 (fst sz div 2 ^ i), max 1 (snd sz div 2 ^ i))"

lemma half_level: "half_size (level_size sz i) = level_size sz (Suc i)"
proof -
  have "max 1 (max 1 (x div 2 ^ i) div 2) = max 1 (x div 2 ^ Suc i)" for x :: int
  proof -
    have "x div 2 ^ Suc i = x div 2 ^ i div 2" by (simp only: power_Suc2 zdiv_zmult2_eq)
    then show ?thesis by (cases "x div 2 ^ i \<le> 0") simp_all
  qed
  then show ?thesis by (simp add: half_size_def level_size_def tdiv_def sgn_if)
qed

text \<open>The bytes of the levels below one of the given size are bounded by its area.\<close>

definition level_area :: "int \<times> int \<Rightarrow> int" where
  "level_area cur = max 4 (fst cur) * max 4 (snd cur)"

definition below_bound :: "int \<times> int \<Rightarrow> int" where
  "below_bound cur = (let m = max (fst cur) (snd cur) in if 4 \<le> m then level_area cur + 16 else 8 * m)"

lemma level_area_16: "16 \<le> level_area cur"
  using mult_mono [of 4 "max 4 (fst cur)" 4 "max 4 (snd cur)"] by (simp add: level_area_def)

lemma half_area: "8 \<le> u \<Longrightarrow> 1 \<le> v \<Longrightarrow> 2 * (max 4 (u div 2) * max 4 (v div 2)) \<le> max 4 u * max 4 (v :: int)"
proof -
  assume "8 \<le> u" "1 \<le> v"
  then have "2 * max 4 (u div 2) \<le> max 4 u" "max 4 (v div 2) \<le> max 4 v" by auto
  then have "(2 * max 4 (u div 2)) * max 4 (v div 2) \<le> max 4 u * max 4 v" by (intro mult_mono) auto
  then show ?thesis by (simp only: mult.assoc)
qed

lemma half_level_area:
  assumes "1 \<le> a" "1 \<le> b"
  shows "level_area (half_size (a, b)) = max 4 (a div 2) * max 4 (b div 2)"
    and "max (fst (half_size (a, b))) (snd (half_size (a, b))) = max 1 (max a b div 2)"
proof -
  have h: "half_size (a, b) = (max 1 (a div 2), max 1 (b div 2))" using assms by (simp add: half_size_def tdiv_def sgn_if)
  have "max 4 (max 1 x) = max 4 x" for x :: int by simp
  then show "level_area (half_size (a, b)) = max 4 (a div 2) * max 4 (b div 2)" by (simp add: h level_area_def)
  have "a \<le> b \<Longrightarrow> a div 2 \<le> b div 2" "b \<le> a \<Longrightarrow> b div 2 \<le> a div 2" by auto
  then show "max (fst (half_size (a, b))) (snd (half_size (a, b))) = max 1 (max a b div 2)" by (auto simp: h max_def)
qed

lemma below_step:
  assumes "1 \<le> a" "1 \<le> b" "2 \<le> max a b"
  defines "c \<equiv> half_size (a, b)"
  shows "level_area c div 2 + below_bound c \<le> below_bound (a, b)" and "level_area c \<le> max 16 (below_bound (a, b) - 16)"
proof -
  define m where "m = max a b"
  note c = half_level_area [OF assms(1,2), folded c_def m_def]
  note b = below_bound_def [of c, unfolded Let_def c(2)] below_bound_def [of "(a, b)", unfolded Let_def fst_conv snd_conv, folded m_def]
  consider "8 \<le> m" | "4 \<le> m" "m < 8" | "m = 2 \<or> m = 3" using assms(3)[folded m_def] by linarith
  then have "level_area c div 2 + below_bound c \<le> below_bound (a, b) \<and> level_area c \<le> max 16 (below_bound (a, b) - 16)"
  proof cases
    case 1
    then have "8 \<le> a \<or> 8 \<le> b" by (auto simp: m_def max_def split: if_splits)
    then have "2 * level_area c \<le> level_area (a, b)"
      unfolding c(1) unfolding level_area_def fst_conv snd_conv
      using half_area [of a b, OF _ assms(2)] half_area [of b a, OF _ assms(1)]
      by (elim disjE) (simp_all only: mult.commute [of "max 4 b"] mult.commute [of "max 4 (b div 2)"])
    moreover have "4 \<le> m div 2" using 1 by simp
    ultimately show ?thesis using 1 level_area_16 [of c] by (simp add: b)
  next
    case 2
    then have "a div 2 \<le> 3" "b div 2 \<le> 3" "m div 2 \<le> 3" "1 \<le> m div 2" by (auto simp: m_def)
    then show ?thesis using 2 level_area_16 [of "(a, b)"] by (simp add: b c(1))
  next
    case 3
    then have "a div 2 \<le> 1" "b div 2 \<le> 1" "m div 2 = 1" by (auto simp: m_def)
    then show ?thesis using 3 by (auto simp: b c(1))
  qed
  then show "level_area c div 2 + below_bound c \<le> below_bound (a, b)" "level_area c \<le> max 16 (below_bound (a, b) - 16)"
    by blast+
qed

definition level_bytes :: "int \<times> int \<Rightarrow> nat \<Rightarrow> int" where
  "level_bytes sz i = level_area (level_size sz i) div 2"

lemma below_bound_8: "1 \<le> fst cur \<Longrightarrow> 8 \<le> below_bound cur"
  using level_area_16 [of cur] by (auto simp: below_bound_def Let_def)

lemma mip_step_level:
  assumes "2 \<le> max (fst (level_size sz i)) (snd (level_size sz i))"
    and "0 \<le> len" "len + below_bound (level_size sz i) \<le> area + 16" "16 \<le> area" "area \<le> 2 ^ 31 - 16"
  shows "mip_step (level_size sz i, len) = Some (level_size sz (Suc i), len + level_bytes sz (Suc i))"
    and "len + level_bytes sz (Suc i) + below_bound (level_size sz (Suc i)) \<le> area + 16"
proof -
  define A where "A = level_area (level_size sz (Suc i))"
  obtain a b where ab: "level_size sz i = (a, b)" "1 \<le> a" "1 \<le> b" by (cases "level_size sz i") (auto simp: level_size_def)
  note step = below_step [OF ab(2,3), folded ab(1), unfolded half_level, folded A_def]
  have m: "2 \<le> max a b" using assms(1) by (simp add: ab(1))
  have B: "8 \<le> below_bound (level_size sz (Suc i))" by (rule below_bound_8) (simp add: level_size_def)
  have A: "16 \<le> A" by (simp add: A_def level_area_16)
  have len: "0 \<le> len + A div 2" "len + A div 2 + below_bound (level_size sz (Suc i)) \<le> area + 16" "A \<le> area"
    using step [OF m] assms(2-4) A by linarith+
  have t: "tdiv A 2 = A div 2" using A by (simp add: tdiv_def)
  have ok: "int32 A = Some A" "int32 (len + tdiv A 2) = Some (len + A div 2)"
    using len B A assms(5) by (simp_all add: int32_def t)
  have ne: "fst (level_size sz i) \<noteq> 1 \<or> snd (level_size sz i) \<noteq> 1" using m by (auto simp: ab(1))
  show "mip_step (level_size sz i, len) = Some (level_size sz (Suc i), len + level_bytes sz (Suc i))"
    using ne ok by (simp add: mip_step_def half_level A_def [unfolded level_area_def, symmetric] level_bytes_def A_def [symmetric] Let_def)
  show "len + level_bytes sz (Suc i) + below_bound (level_size sz (Suc i)) \<le> area + 16"
    using len(2) by (simp add: level_bytes_def A_def)
qed

lemma level_not_last:
  assumes "Suc i < NumberOfMipLevels sz" "0 < fst sz" "0 < snd sz"
  shows "2 \<le> max (fst (level_size sz i)) (snd (level_size sz i))"
proof -
  define v where "v = max (fst sz) (snd sz)"
  have "Suc (Suc i) \<le> floorlog 2 (nat v)" using assms(1) by (simp add: NumberOfMipLevels_def v_def)
  from floorlog_geD [OF this] have "2 ^ Suc i \<le> nat v" by simp
  then have "2 * 2 ^ i \<le> v" using assms(2) by (simp add: le_nat_iff v_def)
  from zdiv_mono1 [OF this, of "2 ^ i"] have "2 \<le> v div 2 ^ i" by simp
  then show ?thesis by (auto simp: level_size_def v_def max_def split: if_splits)
qed

lemma div_less_2: "0 < b \<Longrightarrow> u < 2 * b \<Longrightarrow> u div b \<le> (1 :: int)"
proof (rule ccontr)
  assume b: "0 < b" "u < 2 * b" and "\<not> u div b \<le> 1"
  then have "b * 2 \<le> b * (u div b)" by (intro mult_left_mono) simp_all
  moreover have "0 \<le> u mod b" using b(1) by (rule pos_mod_sign)
  ultimately show False using b(2) mult_div_mod_eq [of b u] by linarith
qed

lemma last_level:
  assumes "0 < fst sz" "0 < snd sz"
  shows "level_size sz (NumberOfMipLevels sz - 1) = (1, 1)" and "0 < NumberOfMipLevels sz"
proof -
  define L where "L = floorlog 2 (nat (max (fst sz) (snd sz)))"
  have v: "nat (max (fst sz) (snd sz)) < 2 ^ L" unfolding L_def using assms floorlog_bounds [of "nat (max (fst sz) (snd sz))" 2] by simp
  show L: "0 < NumberOfMipLevels sz" using assms by (intro Nat.gr0I) (simp add: NumberOfMipLevels_def floorlog_eq_zero_iff)
  have "u div 2 ^ (L - 1) \<le> 1" if "u \<le> max (fst sz) (snd sz)" "0 < u" for u
  proof -
    have "max (fst sz) (snd sz) < 2 ^ L" using v assms by (simp add: nat_less_iff)
    then have "u < 2 ^ L" using that(1) by linarith
    then have "u < 2 * 2 ^ (L - 1)" using L by (cases L) (simp_all add: L_def NumberOfMipLevels_def)
    then show ?thesis by (intro div_less_2) simp_all
  qed
  then show "level_size sz (NumberOfMipLevels sz - 1) = (1, 1)"
    using assms by (simp add: level_size_def NumberOfMipLevels_def L_def [symmetric] max_absorb1)
qed

lemma mip_steps:
  assumes "i + n < NumberOfMipLevels sz" "0 < fst sz" "0 < snd sz"
    and "0 \<le> len" "len + below_bound (level_size sz i) \<le> area + 16" "16 \<le> area" "area \<le> 2 ^ 31 - 16"
  shows "mip_steps n (level_size sz i, len) = Some (level_size sz (i + n), len + (\<Sum>j = Suc i..i + n. level_bytes sz j)) \<and>
    len + (\<Sum>j = Suc i..i + n. level_bytes sz j) + below_bound (level_size sz (i + n)) \<le> area + 16"
  using assms
proof (induction n arbitrary: i len)
  case (Suc n)
  have m: "2 \<le> max (fst (level_size sz i)) (snd (level_size sz i))"
    using Suc.prems(1-3) by (intro level_not_last) simp_all
  note step = mip_step_level [OF m Suc.prems(4-7)]
  have nonneg: "0 \<le> len + level_bytes sz (Suc i)"
    using Suc.prems(4) level_area_16 [of "level_size sz (Suc i)"] by (simp add: level_bytes_def)
  have n: "Suc i + n < NumberOfMipLevels sz" using Suc.prems(1) by simp
  note IH = Suc.IH [OF n Suc.prems(2,3) nonneg step(2) Suc.prems(6,7)]
  have split: "(\<Sum>j = Suc i..i + Suc n. level_bytes sz j) = level_bytes sz (Suc i) + (\<Sum>j = Suc (Suc i)..Suc i + n. level_bytes sz j)"
    by (subst sum.atLeast_Suc_atMost) simp_all
  show ?case using step(1) IH unfolding split by (simp add: add.assoc)
qed simp

text \<open>The sizes that a file can have.\<close>

definition file_size_ok :: "int \<times> int \<Rightarrow> bool" where
  "file_size_ok sz \<longleftrightarrow> 0 < fst sz \<and> 0 < snd sz \<and> fst sz mod 4 = 0 \<and> snd sz mod 4 = 0 \<and> fst sz * snd sz < 2 ^ 31"

definition mip_bytes :: "int \<times> int \<Rightarrow> int" where
  "mip_bytes sz = (\<Sum>i = 1..<NumberOfMipLevels sz. level_bytes sz i)"

definition doubled :: "Type \<Rightarrow> int" where
  "doubled type = (if type = Etc2_RGBA \<or> type = Dxt5 then 2 else 1)"

definition file_length :: "int \<times> int \<Rightarrow> bool \<Rightarrow> Type \<Rightarrow> int" where
  "file_length sz mipmap type = 52 + doubled type * (fst sz * snd sz div 2 + (if mipmap then mip_bytes sz else 0))"

lemma file_area:
  assumes "file_size_ok sz"
  shows "4 \<le> fst sz" "4 \<le> snd sz" "16 \<le> fst sz * snd sz" "fst sz * snd sz \<le> 2 ^ 31 - 16" "level_area sz = fst sz * snd sz"
proof -
  obtain a b where ab: "fst sz = 4 * a" "snd sz = 4 * b"
    using assms by (auto simp: file_size_ok_def mod_eq_0_iff_dvd elim!: dvdE)
  then have 1: "1 \<le> a" "1 \<le> b" "16 * (a * b) < 2 ^ 31" using assms by (simp_all add: file_size_ok_def)
  then have "1 * 1 \<le> a * b" by (intro mult_mono) simp_all
  with 1 show "4 \<le> fst sz" "4 \<le> snd sz" "16 \<le> fst sz * snd sz" "fst sz * snd sz \<le> 2 ^ 31 - 16"
    by (simp_all add: ab)
  then show "level_area sz = fst sz * snd sz" by (simp add: level_area_def max_absorb2)
qed

lemma AdjustSizeForMipmaps_bytes:
  assumes "file_size_ok sz"
  shows "AdjustSizeForMipmaps sz (NumberOfMipLevels sz) = Some (mip_bytes sz)" and "0 \<le> mip_bytes sz"
    and "mip_bytes sz \<le> fst sz * snd sz + 8"
proof -
  note a = file_area [OF assms]
  have pos: "0 < fst sz" "0 < snd sz" using a by simp_all
  define n where "n = NumberOfMipLevels sz - 1"
  have n: "n < NumberOfMipLevels sz" "NumberOfMipLevels sz = Suc n" using last_level(2) [OF pos] by (simp_all add: n_def)
  have l0: "level_size sz 0 = sz" using pos by (simp add: level_size_def prod_eq_iff)
  have start: "0 + below_bound (level_size sz 0) \<le> fst sz * snd sz + 16"
    using a by (simp add: l0 below_bound_def Let_def le_max_iff_disj)
  have range: "(\<Sum>j = Suc 0..n. level_bytes sz j) = mip_bytes sz"
    unfolding mip_bytes_def n(2) by (rule sum.cong) auto
  have "mip_steps n (sz, 0) = Some ((1, 1), mip_bytes sz)"
    using mip_steps [of 0 n sz 0, OF _ pos order_refl start a(3,4)] n(1) last_level(1) [OF pos, folded n_def] range
    by (simp add: l0)
  then show "AdjustSizeForMipmaps sz (NumberOfMipLevels sz) = Some (mip_bytes sz)"
    by (simp add: AdjustSizeForMipmaps_def n_def)
  show "0 \<le> mip_bytes sz"
    unfolding mip_bytes_def level_bytes_def using level_area_16 by (intro sum_nonneg) (simp add: order_trans [of 0 16])
  have "mip_bytes sz + below_bound (level_size sz n) \<le> fst sz * snd sz + 16"
    using mip_steps [of 0 n sz 0, OF _ pos order_refl start a(3,4)] n(1) range by simp
  moreover have "8 \<le> below_bound (level_size sz n)" by (rule below_bound_8) (simp add: level_size_def)
  ultimately show "mip_bytes sz \<le> fst sz * snd sz + 8" by simp
qed

lemma map_length_value:
  assumes "file_size_ok sz"
  shows "map_length sz mipmap type = Some (of_int (file_length sz mipmap type), if mipmap then NumberOfMipLevels sz else 1)"
    and "52 \<le> file_length sz mipmap type" "file_length sz mipmap type < 2 ^ 64"
proof -
  note a = file_area [OF assms]
  note m = AdjustSizeForMipmaps_bytes [OF assms]
  have i: "int32 (fst sz * snd sz) = Some (fst sz * snd sz)" using a by (simp add: int32_def)
  have t: "tdiv (fst sz * snd sz) 2 = fst sz * snd sz div 2" using a(3) by (simp add: tdiv_def)
  show "map_length sz mipmap type = Some (of_int (file_length sz mipmap type), if mipmap then NumberOfMipLevels sz else 1)"
    using assms by (simp add: map_length_def i t m(1) file_size_ok_def file_length_def doubled_def Let_def algebra_simps)
  show "52 \<le> file_length sz mipmap type" "file_length sz mipmap type < 2 ^ 64"
  proof -
    have "0 \<le> fst sz * snd sz div 2" "fst sz * snd sz div 2 < 2 ^ 31" "mip_bytes sz < 2 ^ 32"
      using a(3,4) m(3) by simp_all
    then show "52 \<le> file_length sz mipmap type" "file_length sz mipmap type < 2 ^ 64"
      using m(2) by (auto simp: file_length_def doubled_def)
  qed
qed

lemma create_file_length:
  assumes "file_size_ok sz"
  obtains bd where "create_file sz mipmap type = Some bd" "int (length (m_data bd)) = file_length sz mipmap type"
proof -
  note l = map_length_value [OF assms, where type = type and mipmap = mipmap]
  have u: "unat (word_of_int (file_length sz mipmap type) :: u64) = nat (file_length sz mipmap type)"
    using l(2,3) by (simp add: unsigned_of_int take_bit_int_eq_self)
  obtain levels where lv: "map_length sz mipmap type = Some (of_int (file_length sz mipmap type), levels)" using l(1) by blast
  have "52 \<le> unat (of_int (file_length sz mipmap type) :: u64)" unfolding u using l(2) by simp
  then obtain data where "OpenForWriting (unat (of_int (file_length sz mipmap type) :: u64)) sz levels type = Some data"
    by (simp add: OpenForWriting_def length_header)
  then obtain bd where bd: "create_file sz mipmap type = Some bd"
    unfolding create_file_def lv by simp
  with l(1) have "int (length (m_data bd)) = file_length sz mipmap type"
    by (elim create_fileE) (use u l(2) in simp)
  with that bd show thesis by blast
qed

text \<open>C17: A new file: for every width and height that are positive multiples of four and whose product is an \<open>int\<close>,
  none of the assertions of the constructor fails and no \<open>int\<close> overflows; the file is the header, four bits per
  pixel, eight with alpha, and with mipmaps the same for every further level down to the one of a single pixel,
  of which a block of 4 x 4 pixels is stored at least.\<close>

theorem new_file_length:
  assumes "0 < x" "0 < y" "x mod 4 = 0" "y mod 4 = 0" "x * y < 2 ^ 31"
  shows "\<exists>bd. create_file (x, y) mipmap type = Some bd \<and>
    int (length (m_data bd)) = 52 + (if type = Etc2_RGBA \<or> type = Dxt5 then 2 else 1) * (x * y div 2 +
      (if mipmap then \<Sum>i = 1..<NumberOfMipLevels (x, y). max 4 (max 1 (x div 2 ^ i)) * max 4 (max 1 (y div 2 ^ i)) div 2 else 0))"
proof -
  have "file_size_ok (x, y)" using assms by (simp add: file_size_ok_def)
  from create_file_length [OF this, of mipmap type] obtain bd where bd: "create_file (x, y) mipmap type = Some bd"
    "int (length (m_data bd)) = file_length (x, y) mipmap type" .
  then show ?thesis
    unfolding file_length_def doubled_def mip_bytes_def level_bytes_def level_area_def level_size_def fst_conv snd_conv by blast
qed

lemma new_file_length_witness:
  "\<exists>bd. create_file (8, 4) True Etc2_RGB = Some bd \<and> int (length (m_data bd)) = 52 + 1 * (8 * 4 div 2 +
      (\<Sum>i = 1..<NumberOfMipLevels (8, 4). max 4 (max 1 (8 div 2 ^ i)) * max 4 (max 1 (4 div 2 ^ i)) div 2))"
  using new_file_length [of 8 4 True Etc2_RGB] by simp

lemma size_is_int: "file_size_ok sz \<Longrightarrow> fst sz < 2 ^ 31 \<and> snd sz < 2 ^ 31"
proof -
  assume a: "file_size_ok sz"
  note b = file_area [OF a]
  have "fst sz * 1 \<le> fst sz * snd sz" "1 * snd sz \<le> fst sz * snd sz" using b(1,2) by (intro mult_mono; simp)+
  then show ?thesis using b(4) by simp
qed

lemma open_created:
  assumes "create_file sz mipmap type = Some bd" "file_size_ok sz" "take 52 data = take 52 (m_data bd)"
  shows "open_block_data data = Some (bd\<lparr>m_data := data\<rparr>)"
proof -
  from assms(1) obtain levels where bd: "m_size bd = sz" "m_dataOffset bd = 52" "m_type bd = type"
      "take 52 (m_data bd) = bytes_of (header_words sz levels type)" by (elim create_fileE)
  have "open_block_data data = Some \<lparr>m_data = data, m_size = sz, m_dataOffset = 52, m_type = type\<rparr>"
    using open_header [of data "fst sz" "snd sz" levels type] bd(4) assms(3) size_is_int [OF assms(2)] file_area(1,2) [OF assms(2)] by simp
  also have "\<dots> = Some (bd\<lparr>m_data := data\<rparr>)" using bd by simp
  finally show ?thesis .
qed

text \<open>C16: Reading back a file: the header that the constructor writes is read as the type, the size and the place of
  the data that were written, and this stays so whatever words are then put into the data.\<close>

theorem header_roundtrip:
  assumes "create_file (x, y) mipmap type = Some bd" "0 < x" "0 < y" "x mod 4 = 0" "y mod 4 = 0" "x * y < 2 ^ 31"
    and "put_words offset ws bd = Some bd'"
  shows "open_block_data (m_data bd) = Some bd \<and> open_block_data (m_data bd') = Some bd' \<and>
    m_size bd' = (x, y) \<and> m_type bd' = type \<and> m_dataOffset bd' = 52"
proof -
  have ok: "file_size_ok (x, y)" using assms(2-6) by (simp add: file_size_ok_def)
  from assms(1) have bd: "m_size bd = (x, y)" "m_dataOffset bd = 52" "m_type bd = type" by (auto elim: create_fileE)
  from assms(7) obtain data where d: "store64 (52 + 8 * offset) ws (m_data bd) = Some data" "bd' = bd\<lparr>m_data := data\<rparr>"
    by (elim put_wordsE) (simp add: bd(2))
  have "open_block_data data = Some bd'"
    unfolding d(2) by (rule open_created [OF assms(1) ok]) (rule store64_take [OF d(1)], simp)
  then show ?thesis using open_created [OF assms(1) ok refl] bd by (simp add: d(2))
qed

lemma header_roundtrip_witness:
  "\<exists>bd bd'. create_file (8, 4) True Dxt1 = Some bd \<and> put_words 1 [42] bd = Some bd' \<and> open_block_data (m_data bd') = Some bd'"
proof -
  have "file_size_ok (8, 4)" by (simp add: file_size_ok_def)
  then obtain bd where bd: "create_file (8, 4) True Dxt1 = Some bd" "int (length (m_data bd)) = file_length (8, 4) True Dxt1"
    by (rule create_file_length)
  moreover have "68 \<le> file_length (8, 4) True Dxt1"
    using AdjustSizeForMipmaps_bytes(2) [OF \<open>file_size_ok (8, 4)\<close>] by (simp add: file_length_def doubled_def)
  moreover have "m_dataOffset bd = 52" using bd(1) by (auto elim: create_fileE)
  ultimately obtain bd' where bd': "put_words 1 [42] bd = Some bd'"
    by (auto simp: put_words_def store64_def)
  have "open_block_data (m_data bd') = Some bd'" using header_roundtrip [OF bd(1) _ _ _ _ _ bd'] by simp
  with bd(1) bd' show ?thesis by blast
qed

end
