(* ===== verification/Etc2Planar.thy ===== *)
theory Etc2Planar imports Etc2TH Complex_Main begin

text \<open>
  The planar mode of the ETC2 encoder in \<open>src/ProcessRGB.cpp\<close> (the scalar \<open>Planar\<close>), and the
  choice of the mode from the range of luma (\<open>CalculateLuma\<close>, \<open>SelectModeETC2\<close>).  The source
  computes in 32-bit floats.  A float is the rational number it stands for and every operation
  rounds to 24 significant bits, ties to even; the numbers of this code are far from the ends of
  the exponent range (the smallest non-zero one is about \<open>10 ^ -7\<close>, the largest below
  \<open>10 ^ 8\<close>), so the exponent is not bounded.
\<close>

section \<open>Floats\<close>

function ilog2 :: "int \<Rightarrow> int" where
  "ilog2 n = (if n < 2 then 0 else 1 + ilog2 (n div 2))"
  by pat_completeness auto
termination by (relation "measure nat") auto

declare ilog2.simps [simp del]

definition pow2 :: "int \<Rightarrow> rat" where
  "pow2 e = 2 powi e"

definition round_even :: "rat \<Rightarrow> int" where
  "round_even x = (let f = \<lfloor>x\<rfloor>; d = x - of_int f in
     if d < 1 / 2 \<or> d = 1 / 2 \<and> even f then f else f + 1)"

definition exponent :: "rat \<Rightarrow> int" where
  "exponent x = (case quotient_of \<bar>x\<bar> of (p, q) \<Rightarrow>
     let e = ilog2 p - ilog2 q in if pow2 e \<le> \<bar>x\<bar> then e else e - 1)"

definition rnd :: "rat \<Rightarrow> rat" where
  "rnd x = (if x = 0 then 0 else let u = pow2 (exponent x - 23) in of_int (round_even (x / u)) * u)"

definition float_of_int :: "int \<Rightarrow> rat" where
  "float_of_int i = rnd (of_int i)"

definition fmul :: "rat \<Rightarrow> rat \<Rightarrow> rat" where
  "fmul x y = rnd (x * y)"

definition fma :: "rat \<Rightarrow> rat \<Rightarrow> rat \<Rightarrow> rat" where
  "fma x y z = rnd (x * y + z)"

text \<open>The cast from float to int drops the fraction.\<close>

definition int_of_float :: "rat \<Rightarrow> int" where
  "int_of_float x = (if 0 \<le> x then \<lfloor>x\<rfloor> else - \<lfloor>- x\<rfloor>)"

text \<open>Rounding is to the nearest: the error is at most half a unit in the last place.\<close>

lemma ilog2_bounds: "1 \<le> n \<Longrightarrow> 0 \<le> ilog2 n \<and> 2 ^ nat (ilog2 n) \<le> n \<and> n < 2 * 2 ^ nat (ilog2 n)"
proof (induction n rule: ilog2.induct)
  case (1 n)
  show ?case
  proof (cases "n < 2")
    case True
    then show ?thesis using 1 by (simp add: ilog2.simps [of n])
  next
    case False
    then have "0 \<le> ilog2 (n div 2)" "2 ^ nat (ilog2 (n div 2)) \<le> n div 2" "n div 2 < 2 * 2 ^ nat (ilog2 (n div 2))"
      using 1 by simp_all
    moreover have "ilog2 n = 1 + ilog2 (n div 2)" using False by (simp add: ilog2.simps [of n])
    moreover have "2 * (n div 2) \<le> n" "n < 2 * (n div 2) + 2" by linarith+
    ultimately show ?thesis by (simp add: nat_add_distrib)
  qed
qed

lemma round_even_near: "\<bar>of_int (round_even x) - x\<bar> \<le> 1 / 2"
proof -
  have "of_int \<lfloor>x\<rfloor> \<le> x" "x < of_int \<lfloor>x\<rfloor> + 1" by linarith+
  then show ?thesis by (auto simp: round_even_def Let_def abs_le_iff)
qed

lemma pow2_exponent: "x \<noteq> 0 \<Longrightarrow> pow2 (exponent x) \<le> \<bar>x\<bar>"
proof -
  assume "x \<noteq> 0"
  obtain p q where pq: "quotient_of \<bar>x\<bar> = (p, q)" by force
  have q: "0 < q" using quotient_of_denom_pos [OF pq] .
  have x: "\<bar>x\<bar> = of_int p / of_int q" using quotient_of_div [OF pq] .
  have "0 < of_int p / (of_int q :: rat)" using \<open>x \<noteq> 0\<close> by (simp flip: x)
  with q have p: "0 < p" by (simp add: zero_less_divide_iff)
  let ?a = "ilog2 p" and ?b = "ilog2 q"
  have a: "0 \<le> ?a" "2 ^ nat ?a \<le> p" and b: "0 \<le> ?b" "q < 2 * 2 ^ nat ?b"
    using ilog2_bounds [of p] ilog2_bounds [of q] p q by simp_all
  have "pow2 (?a - ?b - 1) = 2 ^ nat ?a / (2 * 2 ^ nat ?b)"
  proof -
    have "(2 :: rat) powi ?a = 2 ^ nat ?a" "(2 :: rat) powi ?b = 2 ^ nat ?b"
      using a(1) b(1) by (simp_all add: power_int_def)
    then show ?thesis by (simp add: pow2_def power_int_diff)
  qed
  also have "\<dots> \<le> of_int p / of_int q"
  proof (rule frac_le)
    have "(of_int (2 ^ nat ?a) :: rat) \<le> of_int p" using a(2) by (simp only: of_int_le_iff)
    then show "2 ^ nat ?a \<le> (of_int p :: rat)" by simp
    have "(of_int q :: rat) \<le> of_int (2 * 2 ^ nat ?b)" using b(2) by (simp only: of_int_le_iff)
    then show "(of_int q :: rat) \<le> 2 * 2 ^ nat ?b" by simp
  qed (use p q in simp_all)
  finally have "pow2 (?a - ?b - 1) \<le> \<bar>x\<bar>" by (simp only: x)
  then show ?thesis by (simp add: exponent_def pq Let_def)
qed

lemma rnd_near: "\<bar>rnd x - x\<bar> \<le> \<bar>x\<bar> / 2 ^ 24"
proof (cases "x = 0")
  case False
  let ?u = "pow2 (exponent x - 23)"
  have u: "0 < ?u" by (simp add: pow2_def)
  have "rnd x - x = (of_int (round_even (x / ?u)) - x / ?u) * ?u"
    using u False by (simp add: rnd_def Let_def left_diff_distrib)
  then have "\<bar>rnd x - x\<bar> = \<bar>of_int (round_even (x / ?u)) - x / ?u\<bar> * ?u"
    using u by (simp add: abs_mult)
  also have "\<dots> \<le> 1 / 2 * ?u"
    using round_even_near u by (intro mult_right_mono) simp_all
  also have "\<dots> = pow2 (exponent x) / 2 ^ 24"
    by (simp add: pow2_def power_int_diff)
  also have "\<dots> \<le> \<bar>x\<bar> / 2 ^ 24"
    using pow2_exponent [OF False] by (intro divide_right_mono) simp_all
  finally show ?thesis .
qed (simp add: rnd_def)

section \<open>Quantisation\<close>

definition shifted :: "int \<Rightarrow> int" where
  "shifted f = drop_bit 1 (min (max f 0) 1023 - 15)"

definition convert6 :: "rat \<Rightarrow> u8" where
  "convert6 f = (let i = shifted (int_of_float f)
   in word_of_int (drop_bit 3 (i + 11 - drop_bit 7 (i + 11) - drop_bit 7 (i + 4))))"

definition convert7 :: "rat \<Rightarrow> u8" where
  "convert7 f = (let i = shifted (int_of_float f)
   in word_of_int (drop_bit 2 (i + 9 - drop_bit 8 (i + 9) - drop_bit 8 (i + 6))))"

section \<open>The plane\<close>

type_synonym coeffs = "(u32 \<times> u32 \<times> u32) \<times> (u32 \<times> u32 \<times> u32) \<times> (u32 \<times> u32 \<times> u32)"

definition channel_sum :: "u8 list \<Rightarrow> nat \<Rightarrow> int" where
  "channel_sum src c = fold (\<lambda>i s. s + uint (src ! (i * 4 + c))) [0..<16] 0"

definition scaling :: "int list" where
  "scaling = [-255, -85, 85, 255]"

text \<open>\<open>(dif_yz, dif_xz)\<close> of one channel.\<close>

definition slopes :: "u8 list \<Rightarrow> nat \<Rightarrow> int \<times> int" where
  "slopes src c = fold (\<lambda>i (yz, xz). let dif = push_bit 4 (uint (src ! (i * 4 + c))) - channel_sum src c
     in (yz + dif * scaling ! (i mod 4), xz + dif * scaling ! (i div 4))) [0..<16] (0, 0)"

definition scale :: rat where
  "scale = rnd (- 4 / rnd (rnd (rnd (255 * 255 * 8) + rnd (85 * 85 * 8)) * 16))"

definition plane_fit :: "u8 list \<Rightarrow> nat \<Rightarrow> rat \<times> rat \<times> rat" where
  "plane_fit src c = (let
     (yz, xz) = slopes src c;
     a = fmul (float_of_int xz) scale;
     b = fmul (float_of_int yz) scale;
     d = fmul (float_of_int (channel_sum src c)) (1 / 4)
   in (fma a 255 (fma b 255 d), fma a (-425) (fma b 255 d), fma a 255 (fma b (-425) d)))"

text \<open>The colours \<open>(co, ch, cv)\<close>, each as red, green, blue.\<close>

definition plane_coeffs :: "u8 list \<Rightarrow> coeffs" where
  "plane_coeffs src = (case (plane_fit src 2, plane_fit src 1, plane_fit src 0) of
     ((coR, chR, cvR), (coG, chG, cvG), (coB, chB, cvB)) \<Rightarrow>
     let c6 = \<lambda>f. ucast (convert6 f); c7 = \<lambda>f. ucast (convert7 f)
     in ((c6 coR, c7 coG, c6 coB), (c6 chR, c7 chG, c6 chB), (c6 cvR, c7 cvG, c6 cvB)))"

definition plane_error :: "u8 list \<Rightarrow> coeffs \<Rightarrow> u64" where
  "plane_error src cs = (case cs of ((coR, coG, coB), (chR, chG, chB), (cvR, cvG, cvB)) \<Rightarrow> let
     w6 = \<lambda>v :: u32. drop_bit 4 v OR push_bit 2 v;
     w7 = \<lambda>v :: u32. drop_bit 6 v OR push_bit 1 v;
     pixel = \<lambda>co h v i. uint (clampu8 (signed_drop_bit 2
        ((h - co) * of_nat (i div 4) + (v - co) * of_nat (i mod 4) + (push_bit 2 co + 2))))
   in fold (\<lambda>i error. let
        difB = uint (src ! (i * 4)) - pixel (w6 coB) (w6 chB) (w6 cvB) i;
        difG = uint (src ! (i * 4 + 1)) - pixel (w7 coG) (w7 chG) (w7 cvG) i;
        difR = uint (src ! (i * 4 + 2)) - pixel (w6 coR) (w6 chR) (w6 cvR) i;
        dif = difR * 38 + difG * 76 + difB * 14
      in error + word_of_int (dif * dif)) [0..<16] 0)"

definition plane_hi :: "coeffs \<Rightarrow> u32" where
  "plane_hi cs = (case cs of (_, (chR, chG, chB), (cvR, cvG, cvB)) \<Rightarrow> let
     rgbv = cvB OR push_bit 6 cvG OR push_bit 13 cvR;
     rgbh = chB OR push_bit 6 chG OR push_bit 13 chR
   in rgbv OR push_bit 19 (rgbh AND 0x1FFF))"

definition plane_idx :: "u32 \<Rightarrow> u32 \<Rightarrow> u32 \<Rightarrow> u32" where
  "plane_idx coR coG coB = (coR AND 0x20) OR drop_bit 1 (coG AND 0x20) OR drop_bit 1 (coB AND 0x1E)"

definition plane_lo :: "coeffs \<Rightarrow> u32" where
  "plane_lo cs = (case cs of ((coR, coG, coB), (chR, chG, chB), _) \<Rightarrow>
     (chR AND 0x1) OR 0x2 OR (push_bit 1 chR AND 0x7C) OR
     (push_bit 7 (coB AND 0x07) OR push_bit 8 (coB AND 0x18) OR push_bit 11 (coB AND 0x20)) OR
     (push_bit 17 (coG AND 0x3F) OR push_bit 18 (coG AND 0x40)) OR
     push_bit 25 coR OR
     g_flags ! unat (plane_idx coR coG coB))"

definition plane_block :: "coeffs \<Rightarrow> u64" where
  "plane_block cs = ucast (bswap32 (plane_lo cs)) OR push_bit 32 (ucast (bswap32 (plane_hi cs)))"

datatype luma_mode = ModeUndecided | ModePlanar | ModeTH

definition Planar :: "u8 list \<Rightarrow> luma_mode \<Rightarrow> bool \<Rightarrow> u64 \<times> u64" where
  "Planar src mode useHeuristics = (let cs = plane_coeffs src
   in (plane_block cs, if mode \<noteq> ModePlanar \<and> useHeuristics then plane_error src cs else 0))"

section \<open>Luma\<close>

record Luma =
  l_max :: u8
  l_min :: u8
  maxIdx :: nat
  minIdx :: nat
  l_val :: "u8 list"

definition luma_of :: "u8 list \<Rightarrow> nat \<Rightarrow> u8" where
  "luma_of src i = word_of_int ((uint (src ! (i * 4 + 2)) * 76 + uint (src ! (i * 4 + 1)) * 150 +
     uint (src ! (i * 4)) * 28) div 254)"

definition luma_step :: "u8 list \<Rightarrow> nat \<Rightarrow> Luma \<Rightarrow> Luma" where
  "luma_step src i l = (let
     v = luma_of src i;
     l = l\<lparr>l_val := (l_val l)[i := v]\<rparr>;
     l = (if l_min l > v then l\<lparr>l_min := v, minIdx := i\<rparr> else l)
   in if l_max l < v then l\<lparr>l_max := v, maxIdx := i\<rparr> else l)"

definition CalculateLuma :: "u8 list \<Rightarrow> Luma" where
  "CalculateLuma src = fold (luma_step src) [0..<16]
     \<lparr>l_max = 0, l_min = 255, maxIdx = 0, minIdx = 0, l_val = replicate 16 0\<rparr>"

definition ecmd_threshold :: "rat list" where
  "ecmd_threshold = [rnd (3 / 100), rnd (9 / 100), rnd (38 / 100)]"

definition SelectModeETC2 :: "Luma \<Rightarrow> luma_mode" where
  "SelectModeETC2 l = (let lumaRange = fmul (float_of_int (uint (l_max l) - uint (l_min l))) (rnd (1 / 255)) in
     if lumaRange \<le> ecmd_threshold ! 0 then ModePlanar
     else if lumaRange \<le> ecmd_threshold ! 1 then
       if (minIdx l, maxIdx l) \<in> {(0, 15), (15, 0), (3, 12), (12, 3)} then ModePlanar else ModeUndecided
     else if lumaRange \<ge> ecmd_threshold ! 2 then ModeTH
     else ModeUndecided)"


section \<open>The bits of a planar block\<close>

definition fits :: "nat \<Rightarrow> u32 \<Rightarrow> bool" where
  "fits k v \<longleftrightarrow> drop_bit k v = 0"

definition coeffs_fit :: "coeffs \<Rightarrow> bool" where
  "coeffs_fit cs = (case cs of ((coR, coG, coB), (chR, chG, chB), (cvR, cvG, cvB)) \<Rightarrow>
     fits 6 coR \<and> fits 7 coG \<and> fits 6 coB \<and> fits 6 chR \<and> fits 7 chG \<and> fits 6 chB \<and>
     fits 6 cvR \<and> fits 7 cvG \<and> fits 6 cvB)"

lemma fits_bits: "fits k v \<Longrightarrow> k \<le> n \<Longrightarrow> \<not> bit v n"
proof -
  assume "fits k v" "k \<le> n"
  have "bit (drop_bit k v) (n - k) \<longleftrightarrow> bit v n" using \<open>k \<le> n\<close> by (simp add: bit_drop_bit_eq)
  with \<open>fits k v\<close> show ?thesis by (simp add: fits_def)
qed

definition padded :: "nat \<Rightarrow> bool" where
  "padded i \<longleftrightarrow> pads (bit i 3) (bit i 2) (bit i 1) (bit i 0)"

lemma bit_g_flags:
  assumes "i < 64" "n < 32"
  shows "bit (g_flags ! i) n \<longleftrightarrow> n = 1 \<or> n = 31 \<and> \<not> bit i 5 \<or> n = 23 \<and> \<not> bit i 4 \<or>
    n \<in> {13, 14, 15} \<and> padded i \<or> n = 10 \<and> \<not> padded i"
proof -
  have "list_all (\<lambda>i. g_flags ! i = 2 OR (if bit i 5 then 0 else 0x80000000) OR (if bit i 4 then 0 else 0x800000) OR
      (if padded i then 0xE000 else 0x400)) [0..<64]"
    by code_simp
  then have "g_flags ! i = 2 OR (if bit i 5 then 0 else 0x80000000) OR (if bit i 4 then 0 else 0x800000) OR
      (if padded i then 0xE000 else 0x400)" using assms(1) by (rule upt_allD)
  moreover have "\<forall>n < 32. bit (2 OR (if P then 0 else 0x80000000) OR (if Q then 0 else 0x800000) OR (if R then 0xE000 else 0x400) :: u32) n \<longleftrightarrow>
      n = 1 \<or> n = 31 \<and> \<not> P \<or> n = 23 \<and> \<not> Q \<or> n \<in> {13, 14, 15} \<and> R \<or> n = 10 \<and> \<not> R" for P Q R
    unfolding each_bit by (cases P; cases Q; cases R) (simp add: bitwise)+
  ultimately show ?thesis using assms(2) by simp
qed


lemma plane_idx_bits:
  "bit (unat (plane_idx coR coG coB)) n \<longleftrightarrow>
     n = 5 \<and> bit coR 5 \<or> n = 4 \<and> bit coG 5 \<or> n < 4 \<and> bit coB (n + 1)"
proof -
  have "\<forall>n < 32. bit (plane_idx coR coG coB) n \<longleftrightarrow> n = 5 \<and> bit coR 5 \<or> n = 4 \<and> bit coG 5 \<or> n < 4 \<and> bit coB (n + 1)"
    unfolding each_bit by (simp add: plane_idx_def bitwise)
  then show ?thesis
    by (cases "n < 32") (auto simp: bit_unsigned_iff dest: bit_imp_le_length)
qed

lemma plane_idx_less: "unat (plane_idx coR coG coB) < 64"
proof -
  have "plane_idx coR coG coB = plane_idx coR coG coB AND 63"
    by (rule word32_eqI) (simp add: upt_32 plane_idx_def bitwise)
  then have "plane_idx coR coG coB \<le> 63" by (metis word_and_le1)
  then have "unat (plane_idx coR coG coB) \<le> unat (63 :: u32)" by (simp only: word_le_nat_alt)
  then show ?thesis by simp
qed

lemma bit_flags_at:
  assumes "n < 32"
  shows "bit (g_flags ! unat (plane_idx coR coG coB)) n \<longleftrightarrow> n = 1 \<or> n = 31 \<and> \<not> bit coR 5 \<or>
    n = 23 \<and> \<not> bit coG 5 \<or> n \<in> {13, 14, 15} \<and> pads (bit coB 4) (bit coB 3) (bit coB 2) (bit coB 1) \<or>
    n = 10 \<and> \<not> pads (bit coB 4) (bit coB 3) (bit coB 2) (bit coB 1)"
  using bit_g_flags [OF plane_idx_less assms, of coR coG coB]
  by (simp add: padded_def plane_idx_bits numeral_eq_Suc)

lemma Convert_plane_block:
  "ConvertByteOrder (plane_block cs) = th_word (plane_lo cs) (plane_hi cs)"
proof -
  let ?w = "plane_lo cs" and ?c = "plane_hi cs"
  have "(ucast (ucast (bswap32 ?w) OR push_bit 32 (ucast (bswap32 ?c)) :: u64) :: u32) = bswap32 ?w"
    by (rule word32_eqI) (simp add: upt_32 bitwise)
  moreover have "(ucast (drop_bit 32 (ucast (bswap32 ?w) OR push_bit 32 (ucast (bswap32 ?c)) :: u64)) :: u32) = bswap32 ?c"
    by (rule word32_eqI) (simp add: upt_32 bitwise)
  ultimately show ?thesis by (simp add: plane_block_def ConvertByteOrder_def th_word_def or.commute)
qed

text \<open>The bits of the first word; the flags fill the places that the fields leave free.\<close>

lemma plane_lo_bits:
  fixes c2 chG chB :: u32 and cv :: "u32 \<times> u32 \<times> u32"
  assumes f: "fits 6 coR" "fits 7 coG" "fits 6 coB" "fits 6 chR"
  defines "W \<equiv> th_word (plane_lo ((coR, coG, coB), (chR, chG, chB), cv)) c2"
    and "P \<equiv> pads (bit coB 4) (bit coB 3) (bit coB 2) (bit coB 1)"
  shows "bit W 0 = bit chR 0" "bit W 1" "bit W 2 = bit chR 1" "bit W 3 = bit chR 2" "bit W 4 = bit chR 3"
    "bit W 5 = bit chR 4" "bit W 6 = bit chR 5" "bit W 7 = bit coB 0" "bit W 8 = bit coB 1" "bit W 9 = bit coB 2"
    "bit W 10 = (\<not> P)" "bit W 11 = bit coB 3" "bit W 12 = bit coB 4" "bit W 13 = P" "bit W 14 = P" "bit W 15 = P"
    "bit W 16 = bit coB 5" "bit W 17 = bit coG 0" "bit W 18 = bit coG 1" "bit W 19 = bit coG 2" "bit W 20 = bit coG 3"
    "bit W 21 = bit coG 4" "bit W 22 = bit coG 5" "bit W 23 = (\<not> bit coG 5)" "bit W 24 = bit coG 6"
    "bit W 25 = bit coR 0" "bit W 26 = bit coR 1" "bit W 27 = bit coR 2" "bit W 28 = bit coR 3" "bit W 29 = bit coR 4"
    "bit W 30 = bit coR 5" "bit W 31 = (\<not> bit coR 5)"
proof -
  note z = f [THEN fits_bits]
  show "bit W 0 = bit chR 0" "bit W 1" "bit W 2 = bit chR 1" "bit W 3 = bit chR 2" "bit W 4 = bit chR 3"
    "bit W 5 = bit chR 4" "bit W 6 = bit chR 5" "bit W 7 = bit coB 0" "bit W 8 = bit coB 1" "bit W 9 = bit coB 2"
    "bit W 10 = (\<not> P)" "bit W 11 = bit coB 3" "bit W 12 = bit coB 4" "bit W 13 = P" "bit W 14 = P" "bit W 15 = P"
    "bit W 16 = bit coB 5" "bit W 17 = bit coG 0" "bit W 18 = bit coG 1" "bit W 19 = bit coG 2" "bit W 20 = bit coG 3"
    "bit W 21 = bit coG 4" "bit W 22 = bit coG 5" "bit W 23 = (\<not> bit coG 5)" "bit W 24 = bit coG 6"
    "bit W 25 = bit coR 0" "bit W 26 = bit coR 1" "bit W 27 = bit coR 2" "bit W 28 = bit coR 3" "bit W 29 = bit coR 4"
    "bit W 30 = bit coR 5" "bit W 31 = (\<not> bit coR 5)"
    by (simp_all add: W_def P_def bit_th_word plane_lo_def bit_or_iff bit_flags_at; simp add: bitwise z)+
qed


lemma plane_word_mode:
  assumes "coeffs_fit cs"
  shows "select_mode (th_word (plane_lo cs) c2) = ModeP"
proof -
  obtain coR coG coB chR chG chB cv where cs: "cs = ((coR, coG, coB), (chR, chG, chB), cv)" by (metis prod.exhaust)
  have f: "fits 6 coR" "fits 7 coG" "fits 6 coB" "fits 6 chR" using assms by (auto simp: coeffs_fit_def cs split: prod.splits)
  let ?W = "th_word (plane_lo ((coR, coG, coB), (chR, chG, chB), cv)) c2"
  note b = plane_lo_bits [OF f, where chG = chG and chB = chB and cv = cv and ?c2.0 = c2]
  have "\<not> overflows (field5 ?W 27) (field3 ?W 24)" "\<not> overflows (field5 ?W 19) (field3 ?W 16)"
    by (rule opposite_bits_stay; simp add: b)+
  moreover have "overflows (field5 ?W 11) (field3 ?W 8)"
    by (rule padded_overflows [OF refl]) (simp_all add: b)
  ultimately show ?thesis using b(2) unfolding cs select_mode_fields by (simp only: if_True if_False)
qed

definition plane_of :: "coeffs \<Rightarrow> plane" where
  "plane_of cs = (case cs of ((coR, coG, coB), (chR, chG, chB), (cvR, cvG, cvB)) \<Rightarrow>
     let e6 = \<lambda>x. uint (expand6 x); e7 = \<lambda>x. uint (expand7 x)
     in \<lparr>p_ro = e6 coR, p_go = e7 coG, p_bo = e6 coB, p_rh = e6 chR, p_gh = e7 chG, p_bh = e6 chB,
        p_rv = e6 cvR, p_gv = e7 cvG, p_bv = e6 cvB\<rparr>)"

lemma plane_fields:
  assumes f: "coeffs_fit ((coR, coG, coB), (chR, chG, chB), (cvR, cvG, cvB))"
  defines "W \<equiv> th_word (plane_lo ((coR, coG, coB), (chR, chG, chB), (cvR, cvG, cvB)))
     (plane_hi ((coR, coG, coB), (chR, chG, chB), (cvR, cvG, cvB)))"
  shows "ucast (drop_bit (0 + 32) W AND 0x3F) = cvB" "ucast (drop_bit (6 + 32) W AND 0x7F) = cvG"
    "ucast (drop_bit (13 + 32) W AND 0x3F) = cvR" "ucast (drop_bit (19 + 32) W AND 0x3F) = chB"
    "ucast (drop_bit (25 + 32) W AND 0x7F) = chG"
    "ucast ((drop_bit (32 - 32) W AND 0x01) OR push_bit 1 (drop_bit (34 - 32) W AND 0x1F)) = chR"
    "ucast ((drop_bit (39 - 32) W AND 0x07) OR push_bit 3 (drop_bit (43 - 32) W AND 0x3) OR
       push_bit 5 (drop_bit (48 - 32) W AND 0x1)) = coB"
    "ucast ((drop_bit (49 - 32) W AND 0x3F) OR push_bit 6 (drop_bit (56 - 32) W AND 0x01)) = coG"
    "ucast (drop_bit (57 - 32) W AND 0x3F) = coR"
proof -
  have fs: "fits 6 coR" "fits 7 coG" "fits 6 coB" "fits 6 chR" "fits 7 chG" "fits 6 chB" "fits 6 cvR" "fits 7 cvG" "fits 6 cvB"
    using f by (simp_all add: coeffs_fit_def)
  note z = fs [THEN fits_bits]
  note b = plane_lo_bits [OF fs(1-4), where chG = chG and chB = chB and cv = "(cvR, cvG, cvB)" and
    ?c2.0 = "plane_hi ((coR, coG, coB), (chR, chG, chB), (cvR, cvG, cvB))", folded W_def]
  have hi: "bit W n \<longleftrightarrow> bit (plane_hi ((coR, coG, coB), (chR, chG, chB), (cvR, cvG, cvB))) (n - 32)" if "32 \<le> n" for n
    unfolding W_def by (rule bit_th_word(2) [OF that])
  show "ucast (drop_bit (0 + 32) W AND 0x3F) = cvB" "ucast (drop_bit (6 + 32) W AND 0x7F) = cvG"
    "ucast (drop_bit (13 + 32) W AND 0x3F) = cvR" "ucast (drop_bit (19 + 32) W AND 0x3F) = chB"
    "ucast (drop_bit (25 + 32) W AND 0x7F) = chG"
    by (rule word32_eqI; simp add: upt_32 bit_ucast_iff bit_and_iff bit_drop_bit_eq hi plane_hi_def; simp add: bitwise z)+
  show "ucast ((drop_bit (32 - 32) W AND 0x01) OR push_bit 1 (drop_bit (34 - 32) W AND 0x1F)) = chR"
    "ucast ((drop_bit (39 - 32) W AND 0x07) OR push_bit 3 (drop_bit (43 - 32) W AND 0x3) OR
       push_bit 5 (drop_bit (48 - 32) W AND 0x1)) = coB"
    "ucast ((drop_bit (49 - 32) W AND 0x3F) OR push_bit 6 (drop_bit (56 - 32) W AND 0x01)) = coG"
    "ucast (drop_bit (57 - 32) W AND 0x3F) = coR"
    by (rule word32_eqI; simp add: upt_32 b bitwise z)+
qed

lemma plane_block_pixel:
  assumes "coeffs_fit cs"
  shows "etc_opaque (plane_block cs) x y = planar_pixel (plane_of cs) x y OR 0xFF000000"
proof -
  obtain coR coG coB chR chG chB cvR cvG cvB
    where cs: "cs = ((coR, coG, coB), (chR, chG, chB), (cvR, cvG, cvB))" by (metis prod.exhaust)
  have "planar_colours (th_word (plane_lo cs) (plane_hi cs)) = plane_of cs"
    unfolding planar_colours_def Let_def cs plane_fields [OF assms [unfolded cs]] plane_of_def prod.case by (rule refl)
  then show ?thesis
    by (simp add: etc_opaque_def Convert_plane_block plane_word_mode [OF assms] Let_def)
qed

section \<open>The range of the quantised values\<close>

lemma shifted_range: "-8 \<le> shifted f \<and> shifted f \<le> 504"
proof -
  have "-15 \<le> min (max f 0) 1023 - 15" "min (max f 0) 1023 - 15 \<le> 1008" by auto
  then have "(-15) div 2 \<le> (min (max f 0) 1023 - 15) div 2" "(min (max f 0) 1023 - 15) div 2 \<le> 1008 div 2"
    by (simp_all only: zdiv_mono1 [OF _ zero_less_numeral])
  then show ?thesis by (simp add: shifted_def drop_bit_eq_div)
qed

lemma fits_byte: "unat (v :: u8) < 2 ^ k \<Longrightarrow> fits k (ucast v)"
proof -
  assume "unat v < 2 ^ k"
  then have "unat (ucast v :: u32) div 2 ^ k = 0" by (simp add: unat_ucast_byte)
  moreover have "unat (drop_bit k (ucast v :: u32)) = unat (ucast v :: u32) div 2 ^ k"
    unfolding unat_drop_bit_eq by (rule drop_bit_eq_div)
  ultimately have "unat (drop_bit k (ucast v :: u32)) = 0" by simp
  then show ?thesis unfolding fits_def by (simp only: unat_eq_zero)
qed

lemma convert6_fits: "fits 6 (ucast (convert6 f))"
proof -
  have "list_all (\<lambda>i. unat (word_of_int (drop_bit 3 (i + 11 - drop_bit 7 (i + 11) - drop_bit 7 (i + 4))) :: u8) < 64) [-8..504]"
    by code_simp
  from upto_allD [OF this, of "shifted (int_of_float f)"] shifted_range
  show ?thesis by (intro fits_byte) (simp add: convert6_def Let_def)
qed

lemma convert7_fits: "fits 7 (ucast (convert7 f))"
proof -
  have "list_all (\<lambda>i. unat (word_of_int (drop_bit 2 (i + 9 - drop_bit 8 (i + 9) - drop_bit 8 (i + 6))) :: u8) < 128) [-8..504]"
    by code_simp
  from upto_allD [OF this, of "shifted (int_of_float f)"] shifted_range
  show ?thesis by (intro fits_byte) (simp add: convert7_def Let_def)
qed

lemma plane_coeffs_fit: "coeffs_fit (plane_coeffs src)"
  by (simp add: plane_coeffs_def coeffs_fit_def convert6_fits convert7_fits Let_def split: prod.splits)


text \<open>C5: Whatever the source pixels, the block that \<open>Planar\<close> writes is read as a planar block, and its
  pixels are those of the plane through the three quantised colours of the encoder.\<close>

theorem planar_roundtrip:
  "etc_opaque (fst (Planar src mode useHeuristics)) x y =
     planar_pixel (plane_of (plane_coeffs src)) x y OR 0xFF000000"
  using plane_block_pixel [OF plane_coeffs_fit] by (simp add: Planar_def Let_def)

lemma int_of_float_int: "int_of_float (of_int i) = i"
  by (simp add: int_of_float_def)

definition level6 :: "int \<Rightarrow> int" where
  "level6 i = (i + 11 - (i + 11) div 128 - (i + 4) div 128) div 8"

definition level7 :: "int \<Rightarrow> int" where
  "level7 i = (i + 9 - (i + 9) div 256 - (i + 6) div 256) div 4"

lemma convert_level:
  "convert6 (of_int f) = word_of_int (level6 (shifted f))" "convert7 (of_int f) = word_of_int (level7 (shifted f))"
  by (simp_all add: convert6_def convert7_def int_of_float_int level6_def level7_def Let_def drop_bit_eq_div)

lemma expand_level:
  "0 \<le> n \<Longrightarrow> n \<le> 63 \<Longrightarrow> uint (expand6 (ucast (word_of_int n :: u8))) = 4 * n + n div 16"
  "0 \<le> n \<Longrightarrow> n \<le> 127 \<Longrightarrow> uint (expand7 (ucast (word_of_int n :: u8))) = 2 * n + n div 64"
proof -
  have "list_all (\<lambda>n. uint (expand6 (ucast (word_of_int n :: u8))) = 4 * n + n div 16) [0..63]"
    "list_all (\<lambda>n. uint (expand7 (ucast (word_of_int n :: u8))) = 2 * n + n div 64) [0..127]"
    by code_simp+
  then show "0 \<le> n \<Longrightarrow> n \<le> 63 \<Longrightarrow> uint (expand6 (ucast (word_of_int n :: u8))) = 4 * n + n div 16"
    "0 \<le> n \<Longrightarrow> n \<le> 127 \<Longrightarrow> uint (expand7 (ucast (word_of_int n :: u8))) = 2 * n + n div 64"
    by (auto dest: upto_allD)
qed

lemma levels_near:
  "list_all (\<lambda>i. let n = level6 i; e = 4 * (4 * n + n div 16) in
     0 \<le> n \<and> n \<le> 63 \<and> e \<le> 2 * i + 25 \<and> 2 * i + 6 \<le> e) [-8..502]"
  "list_all (\<lambda>i. let n = level7 i; e = 4 * (2 * n + n div 64) in
     0 \<le> n \<and> n \<le> 127 \<and> e \<le> 2 * i + 21 \<and> 2 * i + 10 \<le> e) [-8..502]"
  by code_simp+

lemma shifted_near:
  assumes "0 \<le> f" "f \<le> 1020"
  shows "-8 \<le> shifted f" "shifted f \<le> 502" "2 * shifted f + 15 \<le> f" "f \<le> 2 * shifted f + 16"
proof -
  have "shifted f = (f - 15) div 2" using assms by (simp add: shifted_def drop_bit_eq_div)
  then show "-8 \<le> shifted f" "shifted f \<le> 502" "2 * shifted f + 15 \<le> f" "f \<le> 2 * shifted f + 16"
    using assms by linarith+
qed

text \<open>The quantisers never miss the wanted value (in quarters of a level) by more than ten
  quarters for six bits, six quarters for seven bits, once the decoder has expanded them.\<close>

theorem planar_quantisers:
  assumes "0 \<le> f" "f \<le> 1020"
  shows "\<bar>4 * uint (expand6 (ucast (convert6 (of_int f)))) - f\<bar> \<le> 10 \<and>
    \<bar>4 * uint (expand7 (ucast (convert7 (of_int f)))) - f\<bar> \<le> 6"
proof
  note f = shifted_near [OF assms]
  show "\<bar>4 * uint (expand6 (ucast (convert6 (of_int f)))) - f\<bar> \<le> 10"
    using upto_allD [OF levels_near(1) f(1,2)] f(3,4) by (auto simp add: convert_level expand_level Let_def abs_le_iff)
  show "\<bar>4 * uint (expand7 (ucast (convert7 (of_int f)))) - f\<bar> \<le> 6"
    using upto_allD [OF levels_near(2) f(1,2)] f(3,4) by (auto simp add: convert_level expand_level Let_def abs_le_iff)
qed

lemma planar_quantisers_witness:
  "\<bar>4 * uint (expand6 (ucast (convert6 (of_int 517)))) - 517\<bar> \<le> 10 \<and>
   \<bar>4 * uint (expand7 (ucast (convert7 (of_int 517)))) - 517\<bar> \<le> 6"
  using planar_quantisers [of 517] by simp

end
