(* ===== verification/Etc2Encode.thy ===== *)
theory Etc2Encode imports Etc2Planar Etc2THSearch Etc1RoundTrip begin

text \<open>
  The ETC2 compressor of a block, \<open>ProcessRGB_ETC2\<close> of \<open>src/ProcessRGB.cpp\<close> in its scalar form:
  the choice between a planar block, a T or H block and an ETC1 block.  The first overload looks
  for a solid block first; the second, which the error pass of the program uses, does not.
  \<open>pix0\<close> is the value of the uninitialised pixel indices of \<open>compressBlockTH\<close>.
\<close>

definition EncodeSelectorsOr :: "u64 \<Rightarrow> u64 list list \<Rightarrow> u16 list list \<Rightarrow> nat list \<Rightarrow> u64 \<Rightarrow> u64 \<Rightarrow> u64" where
  "EncodeSelectorsOr d terr tsel ids value error = (let
     tidx0 = GetLeastError (terr ! 0) 8;
     tidx1 = GetLeastError (terr ! 1) 8
   in if terr ! 0 ! tidx0 + terr ! 1 ! tidx1 \<ge> error then value
      else FixByteOrder (EncodeSelectors d terr tsel ids))"

definition th_result :: "u8 list \<Rightarrow> Luma \<Rightarrow> u32 \<Rightarrow> u64 \<times> u64" where
  "th_result src luma pix0 = (case compressBlockTH src (l_val luma) pix0 of (error, c1, c2, tMode) \<Rightarrow>
     (th_block tMode c1 c2, ucast error))"

definition etc2_mode :: "u8 list \<Rightarrow> bool \<Rightarrow> luma_mode" where
  "etc2_mode src useHeuristics = (if useHeuristics then SelectModeETC2 (CalculateLuma src) else ModeUndecided)"

definition etc2_block :: "u8 list \<Rightarrow> bool \<Rightarrow> u32 \<Rightarrow> u64" where
  "etc2_block src useHeuristics pix0 = (let
     mode = etc2_mode src useHeuristics;
     result = Planar src mode useHeuristics
   in if snd result = 0 then fst result
      else let
        (a, err) = PrepareAverages src;
        idx = GetLeastError err 4;
        d = EncodeAverages 0 a idx;
        (terr, tsel) = FindBestFit a (g_id ! idx) src;
        result = (if useHeuristics then
            if mode = ModeTH then th_result src (CalculateLuma src) pix0 else (0, ucast MaxError)
          else result)
      in EncodeSelectorsOr d terr tsel (g_id ! idx) (fst result) (snd result))"

definition ProcessRGB_ETC2 :: "u8 list \<Rightarrow> bool \<Rightarrow> u32 \<Rightarrow> u64" where
  "ProcessRGB_ETC2 src useHeuristics pix0 = (let d = CheckSolid src in
     if d \<noteq> 0 then d else etc2_block src useHeuristics pix0)"

definition ProcessRGB_ETC2_error :: "u8 list \<Rightarrow> bool \<Rightarrow> u32 \<Rightarrow> u64" where
  "ProcessRGB_ETC2_error src useHeuristics pix0 = etc2_block src useHeuristics pix0"

section \<open>The luma of a block\<close>

lemma luma_bounds: "(uint r * 76 + uint g * 150 + uint b * 28) div 254 \<le> 255" for r g b :: u8
proof -
  have "uint r * 76 + uint g * 150 + uint b * 28 \<le> 254 * 255"
    using uint_byte_le [of r] uint_byte_le [of g] uint_byte_le [of b] by linarith
  then have "(uint r * 76 + uint g * 150 + uint b * 28) div 254 \<le> (254 * 255) div 254"
    by (intro zdiv_mono1) simp_all
  then show ?thesis by simp
qed

definition luma_inv :: "u8 list \<Rightarrow> nat \<Rightarrow> Luma \<Rightarrow> bool" where
  "luma_inv src n l \<longleftrightarrow> length (l_val l) = 16 \<and> minIdx l < 16 \<and> maxIdx l < 16 \<and>
     (\<forall>i < n. l_val l ! i = luma_of src i \<and> l_min l \<le> luma_of src i \<and> luma_of src i \<le> l_max l) \<and>
     (if n = 0 then l_min l = 255 \<and> l_max l = 0 \<and> minIdx l = 0 \<and> maxIdx l = 0
      else l_min l = luma_of src (minIdx l) \<and> l_max l = luma_of src (maxIdx l))"

lemma byte_top: "(v :: u8) \<le> 255"
proof -
  have "(255 :: u8) = - 1" by simp
  then show ?thesis by (simp only: word_n1_ge)
qed

lemma luma_step_inv:
  assumes "luma_inv src n l" "n < 16"
  shows "luma_inv src (Suc n) (luma_step src n l)"
proof -
  let ?v = "luma_of src n" and ?l = "luma_step src n l"
  have l: "l_val ?l = (l_val l)[n := ?v]" "l_min ?l = min ?v (l_min l)" "l_max ?l = max ?v (l_max l)"
    "minIdx ?l = (if ?v < l_min l then n else minIdx l)" "maxIdx ?l = (if l_max l < ?v then n else maxIdx l)"
    by (auto simp add: luma_step_def Let_def min_def max_def)
  show ?thesis
  proof (cases "n = 0")
    case True
    then have "l_min l = 255" "l_max l = 0" "minIdx l = 0" "maxIdx l = 0" "length (l_val l) = 16"
      using assms(1) by (simp_all add: luma_inv_def)
    moreover have "min ?v 255 = ?v" "max ?v 0 = ?v" using byte_top [of ?v] by (simp_all add: min_def max_def)
    ultimately show ?thesis using True assms(2) unfolding luma_inv_def l by simp
  next
    case False
    then have inv: "length (l_val l) = 16" "minIdx l < 16" "maxIdx l < 16" "l_min l = luma_of src (minIdx l)"
        "l_max l = luma_of src (maxIdx l)"
      using assms(1) by (simp_all add: luma_inv_def)
    have old: "l_val l ! i = luma_of src i \<and> l_min l \<le> luma_of src i \<and> luma_of src i \<le> l_max l" if "i < n" for i
      using assms(1) that unfolding luma_inv_def by blast
    have "min ?v (l_min l) \<le> luma_of src i \<and> luma_of src i \<le> max ?v (l_max l)" if "i < Suc n" for i
    proof (cases "i = n")
      case False
      then have "l_min l \<le> luma_of src i" "luma_of src i \<le> l_max l" using old [of i] that by auto
      then show ?thesis by (intro conjI) (auto intro: order.trans [OF min.cobounded2] order.trans [OF _ max.cobounded2])
    qed simp
    moreover have "(l_val l)[n := ?v] ! i = luma_of src i" if "i < Suc n" for i
      using inv(1) old [of i] that assms(2) by (cases "i = n") simp_all
    moreover have "min ?v (l_min l) = luma_of src (if ?v < l_min l then n else minIdx l)"
      using inv(4) by (cases "?v < l_min l") (auto simp: min_def)
    moreover have "max ?v (l_max l) = luma_of src (if l_max l < ?v then n else maxIdx l)"
      using inv(5) by (cases "l_max l < ?v") (auto simp: max_def)
    ultimately show ?thesis
      using inv(1-3) assms(2) unfolding luma_inv_def l by simp
  qed
qed

lemma CalculateLuma_inv: "luma_inv src 16 (CalculateLuma src)"
proof -
  let ?l = "\<lparr>l_max = 0, l_min = 255, maxIdx = 0, minIdx = 0, l_val = replicate 16 0\<rparr>"
  have "luma_inv src n (fold (luma_step src) [0..<n] ?l)" if "n \<le> 16" for n
    using that
  proof (induction n)
    case 0
    show ?case by (simp add: luma_inv_def)
  next
    case (Suc n)
    then show ?case using luma_step_inv [of src n "fold (luma_step src) [0..<n] ?l"] by simp
  qed
  from this [of 16] show ?thesis by (simp add: CalculateLuma_def)
qed

text \<open>The luma pass stores the luma of every pixel, and its minimum and maximum are attained at
  the recorded pixels and bound all of them.\<close>

theorem CalculateLuma_extremes:
  "l_val (CalculateLuma src) = map (luma_of src) [0..<16] \<and>
   minIdx (CalculateLuma src) < 16 \<and> luma_of src (minIdx (CalculateLuma src)) = l_min (CalculateLuma src) \<and>
   maxIdx (CalculateLuma src) < 16 \<and> luma_of src (maxIdx (CalculateLuma src)) = l_max (CalculateLuma src) \<and>
   list_all (\<lambda>i. l_min (CalculateLuma src) \<le> luma_of src i \<and> luma_of src i \<le> l_max (CalculateLuma src)) [0..<16]"
  using CalculateLuma_inv [of src]
  by (auto simp: luma_inv_def list_all_iff intro: nth_equalityI)


section \<open>The choice of the mode\<close>

lemma rnd_bounds: "0 \<le> x \<Longrightarrow> x * (1 - 1 / 2 ^ 24) \<le> rnd x \<and> rnd x \<le> x * (1 + 1 / 2 ^ 24)"
proof -
  assume "0 \<le> x"
  moreover have "x * (1 - 1 / 2 ^ 24) = x - x / 2 ^ 24" "x * (1 + 1 / 2 ^ 24) = x + x / 2 ^ 24"
    by (simp_all add: field_simps)
  moreover have "rnd x - x \<le> x / 2 ^ 24 \<and> x - rnd x \<le> x / 2 ^ 24"
    using rnd_near [of x] \<open>0 \<le> x\<close> by (simp only: abs_le_iff abs_of_nonneg minus_diff_eq)
  ultimately show ?thesis by (simp only: diff_le_eq add.commute le_diff_eq)
qed

definition luma_range :: "int \<Rightarrow> rat" where
  "luma_range d = fmul (float_of_int d) (rnd (1 / 255))"

lemma luma_range_near:
  assumes "0 \<le> d"
  shows "of_int d / 255 * (1 - 1 / 2 ^ 20) \<le> luma_range d \<and> luma_range d \<le> of_int d / 255 * (1 + 1 / 2 ^ 20)"
proof -
  let ?e = "1 / 2 ^ 24 :: rat"
  have d: "0 \<le> (of_int d :: rat)" using assms by simp
  let ?A = "rnd (of_int d)" and ?C = "rnd (1 / 255)"
  have A: "of_int d * (1 - ?e) \<le> ?A" "?A \<le> of_int d * (1 + ?e)" using rnd_bounds [OF d] by auto
  have C: "1 / 255 * (1 - ?e) \<le> ?C" "?C \<le> 1 / 255 * (1 + ?e)" using rnd_bounds [of "1 / 255"] by auto
  have pos: "0 \<le> of_int d * (1 - ?e)" "0 \<le> 1 / 255 * (1 - ?e)" using d by simp_all
  have lo: "of_int d * (1 - ?e) * (1 / 255 * (1 - ?e)) \<le> ?A * ?C"
    using A(1) C(1) pos by (intro mult_mono) (auto intro: order.trans)
  have hi: "?A * ?C \<le> of_int d * (1 + ?e) * (1 / 255 * (1 + ?e))"
    using A C pos d by (intro mult_mono) (auto intro: order.trans)
  have AC: "0 \<le> ?A * ?C" using lo pos by (metis mult_nonneg_nonneg order.trans)
  have R: "luma_range d = rnd (?A * ?C)" by (simp add: luma_range_def fmul_def float_of_int_def)
  have "luma_range d \<le> ?A * ?C * (1 + ?e)" unfolding R using rnd_bounds [OF AC] by blast
  also have "\<dots> \<le> of_int d * (1 + ?e) * (1 / 255 * (1 + ?e)) * (1 + ?e)" using hi by (intro mult_right_mono) simp_all
  also have "\<dots> = of_int d / 255 * ((1 + ?e) * (1 + ?e) * (1 + ?e))" by simp
  also have "\<dots> \<le> of_int d / 255 * (1 + 1 / 2 ^ 20)" using d by (intro mult_left_mono) simp_all
  finally have up: "luma_range d \<le> of_int d / 255 * (1 + 1 / 2 ^ 20)" .
  have "of_int d / 255 * (1 - 1 / 2 ^ 20) \<le> of_int d / 255 * ((1 - ?e) * (1 - ?e) * (1 - ?e))"
    using d by (intro mult_left_mono) simp_all
  also have "\<dots> = of_int d * (1 - ?e) * (1 / 255 * (1 - ?e)) * (1 - ?e)" by simp
  also have "\<dots> \<le> ?A * ?C * (1 - ?e)" using lo by (intro mult_right_mono) simp_all
  also have "\<dots> \<le> luma_range d" unfolding R using rnd_bounds [OF AC] by blast
  finally show ?thesis using up by blast
qed

lemma threshold_near:
  "3 / 100 * (1 - 1 / 2 ^ 24) \<le> ecmd_threshold ! 0" "ecmd_threshold ! 0 \<le> 3 / 100 * (1 + 1 / 2 ^ 24)"
  "9 / 100 * (1 - 1 / 2 ^ 24) \<le> ecmd_threshold ! 1" "ecmd_threshold ! 1 \<le> 9 / 100 * (1 + 1 / 2 ^ 24)"
  "38 / 100 * (1 - 1 / 2 ^ 24) \<le> ecmd_threshold ! 2" "ecmd_threshold ! 2 \<le> 38 / 100 * (1 + 1 / 2 ^ 24)"
  using rnd_bounds [of "3 / 100"] rnd_bounds [of "9 / 100"] rnd_bounds [of "38 / 100"]
  unfolding ecmd_threshold_def by simp_all

text \<open>A range of luma compares with a threshold as the integers do: no rounding error reaches the
  next integer.\<close>

lemma compare_step:
  fixes t T :: rat
  assumes d: "0 \<le> d" and t: "T * (1 - 1 / 2 ^ 24) \<le> t" "t \<le> T * (1 + 1 / 2 ^ 24)"
    and gap: "of_int k / 255 * (1 + 1 / 2 ^ 20) < T * (1 - 1 / 2 ^ 24)"
      "T * (1 + 1 / 2 ^ 24) < of_int (k + 1) / 255 * (1 - 1 / 2 ^ 20)"
  shows "luma_range d \<le> t \<longleftrightarrow> d \<le> k" "t \<le> luma_range d \<longleftrightarrow> k < d"
proof -
  note near = luma_range_near [OF d]
  have "luma_range d < t" if "d \<le> k"
  proof -
    have "(of_int d :: rat) / 255 * (1 + 1 / 2 ^ 20) \<le> of_int k / 255 * (1 + 1 / 2 ^ 20)"
      using that by (intro mult_right_mono divide_right_mono) simp_all
    then show ?thesis using near gap(1) t(1) by (meson le_less_trans less_le_trans)
  qed
  moreover have "t < luma_range d" if "k < d"
  proof -
    have "(of_int (k + 1) :: rat) / 255 * (1 - 1 / 2 ^ 20) \<le> of_int d / 255 * (1 - 1 / 2 ^ 20)"
      using that by (intro mult_right_mono divide_right_mono) (simp_all only: of_int_le_iff, simp_all)
    then show ?thesis using near gap(2) t(2) by (meson le_less_trans less_le_trans)
  qed
  ultimately show "luma_range d \<le> t \<longleftrightarrow> d \<le> k" "t \<le> luma_range d \<longleftrightarrow> k < d"
    by (metis not_le order.asym less_imp_le)+
qed

lemma luma_compare:
  assumes "0 \<le> d"
  shows "luma_range d \<le> ecmd_threshold ! 0 \<longleftrightarrow> d \<le> 7" "luma_range d \<le> ecmd_threshold ! 1 \<longleftrightarrow> d \<le> 22"
    "luma_range d \<ge> ecmd_threshold ! 2 \<longleftrightarrow> 96 < d"
  using compare_step(1) [OF assms threshold_near(1,2), of 7] compare_step(1) [OF assms threshold_near(3,4), of 22]
    compare_step(2) [OF assms threshold_near(5,6), of 96]
  by simp_all

text \<open>The early choice of the mode, on integers: the float comparisons with 0.03, 0.09 and 0.38 of
  the full range are comparisons of the range of luma with 7, 22 and 97.\<close>

theorem SelectModeETC2_integer:
  assumes "l_min l \<le> l_max l"
  shows "SelectModeETC2 l = (let d = uint (l_max l) - uint (l_min l) in
    if d \<le> 7 \<or> d \<le> 22 \<and> (minIdx l, maxIdx l) \<in> {(0, 15), (15, 0), (3, 12), (12, 3)} then ModePlanar
    else if 97 \<le> d then ModeTH else ModeUndecided)"
proof -
  define d where "d = uint (l_max l) - uint (l_min l)"
  define corner where "corner \<longleftrightarrow> (minIdx l, maxIdx l) \<in> {(0, 15), (15, 0), (3, 12), (12, 3)}"
  have "0 \<le> d" using assms by (simp add: d_def word_le_def)
  note c = luma_compare [OF this]
  show ?thesis
    unfolding SelectModeETC2_def Let_def luma_range_def [symmetric] d_def [symmetric] corner_def [symmetric] c
    by auto
qed

lemma SelectModeETC2_integer_witness:
  "SelectModeETC2 \<lparr>l_max = 120, l_min = 100, maxIdx = 12, minIdx = 3, l_val = []\<rparr> = ModePlanar"
  using SelectModeETC2_integer [of "\<lparr>l_max = 120, l_min = 100, maxIdx = 12, minIdx = 3, l_val = []\<rparr>"]
  by simp


section \<open>The block that is chosen\<close>

text \<open>The error of the best ETC1 block, as the last step computes it.\<close>

definition etc1_error :: "u8 list \<Rightarrow> u64" where
  "etc1_error src = (let
     (a, err) = PrepareAverages src;
     (terr, tsel) = FindBestFit a (g_id ! GetLeastError err 4) src
   in terr ! 0 ! GetLeastError (terr ! 0) 8 + terr ! 1 ! GetLeastError (terr ! 1) 8)"

definition shows_etc1 :: "u8 list \<Rightarrow> u64 \<Rightarrow> bool" where
  "shows_etc1 src b \<longleftrightarrow> (\<forall>i < 4. \<forall>j < 4. etc_opaque b i j = encoder_pixel (encoder_choice src i j) OR 0xFF000000)"

definition shows_plane :: "u8 list \<Rightarrow> u64 \<Rightarrow> bool" where
  "shows_plane src b \<longleftrightarrow> (\<forall>i < 4. \<forall>j < 4. etc_opaque b i j = planar_pixel (plane_of (plane_coeffs src)) i j OR 0xFF000000)"

lemma shows_plane_Planar: "shows_plane src (plane_block (plane_coeffs src))"
  by (simp add: shows_plane_def plane_block_pixel [OF plane_coeffs_fit])

definition etc1_part :: "u8 list \<Rightarrow> u64" where
  "etc1_part src = (let
     (a, err) = PrepareAverages src;
     idx = GetLeastError err 4;
     (terr, tsel) = FindBestFit a (g_id ! idx) src
   in FixByteOrder (EncodeSelectors (EncodeAverages 0 a idx) terr tsel (g_id ! idx)))"

lemma shows_etc1_part: "shows_etc1 src (etc1_part src)"
  unfolding shows_etc1_def
proof (intro allI impI)
  fix i j :: nat assume ij: "i < 4" "j < 4"
  obtain a err where pa: "PrepareAverages src = (a, err)" by force
  let ?idx = "GetLeastError err 4"
  obtain terr tsel where fit: "FindBestFit a (g_id ! ?idx) src = (terr, tsel)" by force
  have "averages_ok a" using PrepareAverages_ok [of src] by (simp add: pa)
  moreover have "?idx < 4" by (rule GetLeastError_less) simp
  ultimately have
    "select_mode (etc1_word a ?idx terr tsel (g_id ! ?idx)) = ModeEtc1"
    "etc1_image (etc1_word a ?idx terr tsel (g_id ! ?idx)) (\<lambda>i j. 0xFF000000) i j =
       encoder_pixel (encoder_choice src i j) OR 0xFF000000"
    using etc1_word_pixel [OF _ _ ij fit] by (simp_all add: encoder_choice_def pa fit Let_def)
  then show "etc_opaque (etc1_part src) i j = encoder_pixel (encoder_choice src i j) OR 0xFF000000"
    by (simp add: etc1_part_def pa fit etc_opaque_def etc1_word_def Let_def)
qed

lemma etc2_block_cases:
  "etc2_block src useHeuristics pix0 = (let mode = etc2_mode src useHeuristics in
     if mode = ModePlanar \<or> \<not> useHeuristics \<or> plane_error src (plane_coeffs src) = 0
     then plane_block (plane_coeffs src)
     else if mode = ModeTH then
       if etc1_error src \<ge> snd (th_result src (CalculateLuma src) pix0)
       then fst (th_result src (CalculateLuma src) pix0) else etc1_part src
     else if etc1_error src \<ge> ucast MaxError then 0 else etc1_part src)"
  by (auto simp: etc2_block_def Planar_def EncodeSelectorsOr_def etc1_error_def etc1_part_def Let_def split: prod.splits)

text \<open>The error of the plane, in terms of the pixels that the decoder shows: it is 0 when at every pixel the weighted
  sum of the differences of the three channels is.\<close>

definition plane_dif :: "u8 list \<Rightarrow> coeffs \<Rightarrow> nat \<Rightarrow> int" where
  "plane_dif src cs k = (let v = planar_pixel (plane_of cs) (k div 4) (k mod 4) in
     (uint (src ! (k * 4 + 2)) - uint (ucast v :: u8)) * 38 +
     (uint (src ! (k * 4 + 1)) - uint (ucast (drop_bit 8 v) :: u8)) * 76 +
     (uint (src ! (k * 4)) - uint (ucast (drop_bit 16 v) :: u8)) * 14)"

lemma clamped_bytes:
  "(ucast (pack_clamped r g b) :: u8) = clampu8 r" "(ucast (drop_bit 8 (pack_clamped r g b)) :: u8) = clampu8 g"
  "(ucast (drop_bit 16 (pack_clamped r g b)) :: u8) = clampu8 b"
  unfolding pack_clamped_clamps rgb_def by (rule byte_eqI; simp add: upt_8 bitwise)+

lemma expand_small: "fits 6 x \<Longrightarrow> uint (expand6 x) \<le> 255" "fits 7 x \<Longrightarrow> uint (expand7 x) \<le> 255"
proof -
  have b: "uint w \<le> 255" if "w AND NOT 0xFF = 0" for w :: u32 using that by (simp only: byte_range_iff)
  show "fits 6 x \<Longrightarrow> uint (expand6 x) \<le> 255"
    by (rule b, rule word32_eqI) (simp add: expand6_def upt_32 bitwise fits_bits)
  show "fits 7 x \<Longrightarrow> uint (expand7 x) \<le> 255"
    by (rule b, rule word32_eqI) (simp add: expand7_def upt_32 bitwise fits_bits)
qed

lemma plane_channel_word:
  fixes c h v :: u32
  assumes "uint c \<le> 255" "uint h \<le> 255" "uint v \<le> 255" "k < 16"
  shows "signed_drop_bit 2 ((h - c) * of_nat (k div 4) + (v - c) * of_nat (k mod 4) + (push_bit 2 c + 2)) =
    planar_channel (uint c) (uint h) (uint v) (k div 4) (k mod 4)"
proof -
  define X where "X = int (k div 4) * (uint h - uint c) + int (k mod 4) * (uint v - uint c) + 4 * uint c + 2"
  have "k div 4 < 4" "k mod 4 < 4" using assms(4) by auto
  then have "\<bar>int (k div 4) * (uint h - uint c)\<bar> \<le> 3 * 255" "\<bar>int (k mod 4) * (uint v - uint c)\<bar> \<le> 3 * 255"
    using assms(1-3) unfolding abs_mult by (intro mult_mono; simp add: abs_le_iff; smt (verit) uint_nonnegative)+
  then have X: "\<bar>X\<bar> \<le> 3000" using assms(1) uint_nonnegative [of c] unfolding X_def by linarith
  have small: "sint (word_of_int x :: u32) = x" if "\<bar>x\<bar> \<le> 3000" for x
    using that by (simp add: signed_of_int signed_take_bit_int_eq_self)
  have "(h - c) * of_nat (k div 4) + (v - c) * of_nat (k mod 4) + (push_bit 2 c + 2) = word_of_int X"
    unfolding X_def by (simp add: push_bit_eq_mult mult.commute)
  moreover have "\<bar>drop_bit 2 X\<bar> \<le> 3000" using X by (simp add: drop_bit_eq_div)
  ultimately have "sint (signed_drop_bit 2 ((h - c) * of_nat (k div 4) + (v - c) * of_nat (k mod 4) + (push_bit 2 c + 2))) =
      sint (word_of_int (drop_bit 2 X) :: u32)"
    by (simp add: sint_signed_drop_bit_eq small [OF X] small)
  then show ?thesis unfolding planar_channel_def X_def by (rule signed_word_eqI)
qed

lemma sum_of_squares_zero:
  assumes "\<And>k. k < n \<Longrightarrow> 0 \<le> f k \<and> f k < 2 ^ 32" "n \<le> 16"
  shows "fold (\<lambda>k e. e + word_of_int (f k)) [0..<n] (0 :: u64) = 0 \<longleftrightarrow> (\<forall>k < n. f k = 0)"
proof -
  define S where "S = (\<Sum>k < n. f k)"
  have "fold (\<lambda>k e. e + word_of_int (f k)) [0..<m] (0 :: u64) = word_of_int (\<Sum>k < m. f k)" for m
    by (induction m) simp_all
  then have "fold (\<lambda>k e. e + word_of_int (f k)) [0..<n] (0 :: u64) = word_of_int S" by (simp only: S_def)
  moreover have "(\<Sum>k < n. f k) \<le> (\<Sum>k < n. 2 ^ 32)" using assms(1) by (intro sum_mono) (simp add: less_imp_le)
  then have "0 \<le> S \<and> S < 2 ^ 64" unfolding S_def using assms by (auto intro: sum_nonneg)
  then have "uint (word_of_int S :: u64) = S" by (simp add: unsigned_of_int take_bit_int_eq_self)
  then have "(word_of_int S :: u64) = 0 \<longleftrightarrow> S = 0" by (metis unsigned_0 of_int_0)
  moreover have "S = 0 \<longleftrightarrow> (\<forall>k < n. f k = 0)" unfolding S_def using assms(1) by (subst sum_nonneg_eq_0_iff) auto
  ultimately show ?thesis by simp
qed

lemma plane_dif_square: "0 \<le> plane_dif src cs k * plane_dif src cs k \<and> plane_dif src cs k * plane_dif src cs k < 2 ^ 32"
proof -
  have b: "- 255 \<le> uint a - uint b \<and> uint a - uint b \<le> 255" for a b :: u8
    using uint_byte_le [of a] uint_byte_le [of b] uint_nonnegative [of a] uint_nonnegative [of b] by linarith
  have "\<bar>x * 38 + y * 76 + z * 14\<bar> \<le> 32640" if "- 255 \<le> x \<and> x \<le> 255" "- 255 \<le> y \<and> y \<le> 255" "- 255 \<le> z \<and> z \<le> 255" for x y z :: int
    using that by linarith
  from this [OF b b b] have "\<bar>plane_dif src cs k\<bar> \<le> 32640" unfolding plane_dif_def Let_def .
  then have "\<bar>plane_dif src cs k\<bar> * \<bar>plane_dif src cs k\<bar> \<le> 32640 * 32640" by (intro mult_mono) simp_all
  then show ?thesis by simp
qed

lemma plane_error_zero:
  assumes "coeffs_fit cs"
  shows "plane_error src cs = 0 \<longleftrightarrow> (\<forall>k < 16. plane_dif src cs k = 0)"
proof -
  obtain coR coG coB chR chG chB cvR cvG cvB where cs: "cs = ((coR, coG, coB), (chR, chG, chB), (cvR, cvG, cvB))"
    by (metis prod_cases3)
  have fit: "fits 6 coR" "fits 7 coG" "fits 6 coB" "fits 6 chR" "fits 7 chG" "fits 6 chB" "fits 6 cvR" "fits 7 cvG" "fits 6 cvB"
    using assms by (simp_all add: coeffs_fit_def cs)
  have w: "drop_bit 4 x OR push_bit 2 x = expand6 x" "drop_bit 6 x OR push_bit 1 x = expand7 x" for x
    by (simp_all add: expand6_def expand7_def or.commute)
  note chan = plane_channel_word [OF expand_small(1) expand_small(1) expand_small(1), OF fit(1,4,7)]
    plane_channel_word [OF expand_small(2) expand_small(2) expand_small(2), OF fit(2,5,8)]
    plane_channel_word [OF expand_small(1) expand_small(1) expand_small(1), OF fit(3,6,9)]
  have e: "plane_error src cs = fold (\<lambda>k e. e + word_of_int (plane_dif src cs k * plane_dif src cs k)) [0..<16] 0"
    unfolding plane_error_def cs prod.case Let_def w
    by (rule fold_cong) (simp_all add: plane_dif_def planar_pixel_def plane_of_def clamped_bytes chan Let_def del: upt_Suc upt_rec_numeral)
  from sum_of_squares_zero [of 16, OF plane_dif_square] show ?thesis unfolding e by simp
qed

text \<open>C26: Which kind of block the ETC2 compressor writes, and what it shows.  The plane through the quantised colours:
  without the heuristics; with them, when the range of luma is at most 7, or at most 22 with its extremes in
  opposite corners, or when the weighted sum of the differences between the plane and the pixels is 0
  everywhere.  Otherwise, when the range of luma is above 96, the T or H block of the search if its error is not
  above that of the best ETC1 block, and the colours of the ETC1 encoder if it is.  Otherwise those colours if their error
  is below the largest one, and else the zero word.\<close>

theorem etc2_block_kinds:
  "let l = CalculateLuma src; contrast = uint (l_max l) - uint (l_min l);
      corners = (minIdx l, maxIdx l) \<in> {(0, 15), (15, 0), (3, 12), (12, 3)};
      exact = \<forall>k < 16. plane_dif src (plane_coeffs src) k = 0;
      th = th_result src l pix0; block = etc2_block src useHeuristics pix0
    in if \<not> useHeuristics \<or> contrast \<le> 7 \<or> contrast \<le> 22 \<and> corners \<or> exact then shows_plane src block
      else if 96 < contrast then (if snd th \<le> etc1_error src then block = fst th else shows_etc1 src block)
      else if etc1_error src < ucast MaxError then shows_etc1 src block else block = 0"
proof -
  define l where "l = CalculateLuma src"
  define d where "d = uint (l_max l) - uint (l_min l)"
  define corners where "corners \<longleftrightarrow> (minIdx l, maxIdx l) \<in> {(0, 15), (15, 0), (3, 12), (12, 3)}"
  have d0: "0 \<le> d" using CalculateLuma_inv [of src] by (auto simp: d_def l_def luma_inv_def word_le_def)
  have mode: "etc2_mode src True = (if d \<le> 7 \<or> d \<le> 22 \<and> corners then ModePlanar else if 96 < d then ModeTH else ModeUndecided)"
    unfolding etc2_mode_def SelectModeETC2_def Let_def l_def [symmetric] luma_range_def [symmetric] d_def [symmetric]
      corners_def [symmetric] luma_compare [OF d0] by auto
  show ?thesis
    unfolding Let_def l_def [symmetric] d_def [symmetric] corners_def [symmetric] plane_error_zero [OF plane_coeffs_fit, symmetric]
    using shows_plane_Planar [of src] shows_etc1_part [of src] d0
    by (cases useHeuristics) (auto simp: etc2_block_cases mode Let_def l_def [symmetric] not_le)
qed

lemma etc2_block_kinds_witness:
  "shows_plane grey_block (etc2_block grey_block True 0) \<and> shows_plane ramp_block (etc2_block ramp_block False 0)"
proof
  have "uint (l_max (CalculateLuma grey_block)) - uint (l_min (CalculateLuma grey_block)) \<le> 7" by code_simp
  then show "shows_plane grey_block (etc2_block grey_block True 0)"
    using etc2_block_kinds [of grey_block 0 True] by (simp only: Let_def if_True simp_thms)
  show "shows_plane ramp_block (etc2_block ramp_block False 0)"
    using etc2_block_kinds [of ramp_block 0 False] by (simp only: Let_def if_True simp_thms)
qed

text \<open>Without the heuristics the scalar compressor never tries ETC1, T or H: the error of the plane is
  only computed with them, stays 0 otherwise, and an error of 0 ends the search.\<close>

theorem etc2_without_heuristics_planar:
  "etc2_block src False pix0 = plane_block (plane_coeffs src)"
  by (simp add: etc2_block_cases)

text \<open>In low-contrast blocks (a range of luma of at most 7) the compressor writes the plane, whatever
  the pixels are.\<close>

theorem etc2_low_contrast_planar:
  assumes "uint (l_max (CalculateLuma src)) - uint (l_min (CalculateLuma src)) \<le> 7"
  shows "shows_plane src (ProcessRGB_ETC2_error src True pix0)"
proof -
  have "0 \<le> uint (l_max (CalculateLuma src)) - uint (l_min (CalculateLuma src))"
    using CalculateLuma_inv [of src] by (auto simp: luma_inv_def word_le_def)
  with luma_compare(1) [OF this] assms have "etc2_mode src True = ModePlanar"
    by (simp add: etc2_mode_def SelectModeETC2_def Let_def flip: luma_range_def)
  then show ?thesis by (simp add: ProcessRGB_ETC2_error_def etc2_block_cases Let_def shows_plane_Planar)
qed

lemma etc2_low_contrast_planar_witness: "shows_plane grey_block (ProcessRGB_ETC2_error grey_block True 0)"
  by (rule etc2_low_contrast_planar) code_simp

end
