(* ===== verification/EacEncode.thy ===== *)
theory EacEncode imports EtcDecode begin

text \<open>
  The EAC alpha compressor \<open>ProcessAlpha_ETC2\<close> of \<open>src/ProcessRGB.cpp\<close> (the scalar path): a solid
  block is its value, any other block is searched over the sixteen modifier tables with a
  multiplier derived from the range of the block.
\<close>

section \<open>The compressor\<close>

definition eac_value :: "int \<Rightarrow> nat \<Rightarrow> int \<Rightarrow> nat \<Rightarrow> u8" where
  "eac_value srcMid r mul j = clampu8 (word_of_int (srcMid + g_alpha ! r ! j * mul))"

definition eac_err :: "u8 \<Rightarrow> int \<Rightarrow> nat \<Rightarrow> int \<Rightarrow> nat \<Rightarrow> int" where
  "eac_err v srcMid r mul j = sq (uint v - uint (eac_value srcMid r mul j))"

text \<open>The index of one pixel and its error: index 0 is kept when it is exact.\<close>

definition eac_index :: "u8 \<Rightarrow> int \<Rightarrow> nat \<Rightarrow> int \<Rightarrow> nat \<times> int" where
  "eac_index v srcMid r mul = (let localErr = eac_err v srcMid r mul 0 in
     if localErr \<noteq> 0
     then fold (\<lambda>j (idx, localErr). let errProbe = eac_err v srcMid r mul j in
         if errProbe < localErr then (j, errProbe) else (idx, localErr)) [1..<8] (0, localErr)
     else (0, localErr))"

definition eac_mul :: "int \<Rightarrow> nat \<Rightarrow> int" where
  "eac_mul srcRange r = drop_bit 16 (srcRange * g_alphaRange ! r) + 1"

definition eac_range_err :: "u8 list \<Rightarrow> int \<Rightarrow> int \<Rightarrow> nat \<Rightarrow> int" where
  "eac_range_err src srcRange srcMid r =
     fold (\<lambda>i e. e + snd (eac_index (src ! i) srcMid r (eac_mul srcRange r))) [0..<16] 0"

text \<open>The loop over the tables, which stops at an error of 0; \<open>sel\<close> is uninitialised in the source
  before the first table improves on the largest integer, which it always does.\<close>

fun eac_search :: "(nat \<Rightarrow> int) \<Rightarrow> nat list \<Rightarrow> int \<times> nat \<Rightarrow> int \<times> nat" where
  "eac_search f [] st = st"
| "eac_search f (r # rs) (err, sel) = (let rangeErr = f r in
     if rangeErr < err then if rangeErr = 0 then (rangeErr, r) else eac_search f rs (rangeErr, r)
     else eac_search f rs (err, sel))"

definition eac_minmax :: "u8 list \<Rightarrow> u8 \<times> u8" where
  "eac_minmax src = fold (\<lambda>i (mn, mx).
     if mn > src ! i then (src ! i, mx) else if mx < src ! i then (mn, src ! i) else (mn, mx)) [1..<16]
     (src ! 0, src ! 0)"

definition eac_pack :: "int \<Rightarrow> int \<Rightarrow> nat \<Rightarrow> nat list \<Rightarrow> u64" where
  "eac_pack srcMid selmul sel idx = fold (\<lambda>i d. d OR push_bit (45 - 3 * i) (of_nat (idx ! i))) [0..<16]
     (push_bit 56 (word_of_int srcMid) OR push_bit 52 (word_of_int selmul) OR push_bit 48 (of_nat sel))"

definition eac_choice :: "u8 list \<Rightarrow> int \<times> int \<times> nat \<times> nat list" where
  "eac_choice src = (let
     (mn, mx) = eac_minmax src;
     srcRange = uint mx - uint mn;
     srcMid = uint mn + srcRange div 2;
     (err, sel) = eac_search (eac_range_err src srcRange srcMid) [0..<16] (2147483647, 0);
     selmul = eac_mul srcRange sel
   in (srcMid, selmul, sel, map (\<lambda>i. fst (eac_index (src ! i) srcMid sel selmul)) [0..<16]))"

definition ProcessAlpha_ETC2 :: "u8 list \<Rightarrow> u64" where
  "ProcessAlpha_ETC2 src =
     (if list_all (\<lambda>i. src ! i = src ! 0) [1..<16] then ucast (src ! 0)
      else case eac_choice src of (srcMid, selmul, sel, idx) \<Rightarrow> bswap64 (eac_pack srcMid selmul sel idx))"

section \<open>The search\<close>

lemma eac_err_nonneg: "0 \<le> eac_err v m r mul j"
  by (simp add: eac_err_def sq_def)

lemma eac_err_less: "eac_err v m r mul j \<le> 65025"
proof -
  have "\<bar>uint v - uint (eac_value m r mul j)\<bar> \<le> 255"
    using uint_byte_le [of v] uint_byte_le [of "eac_value m r mul j"] uint_nonnegative [of v]
      uint_nonnegative [of "eac_value m r mul j"] by linarith
  then have "(uint v - uint (eac_value m r mul j))\<^sup>2 \<le> 255\<^sup>2" by (metis abs_le_square_iff abs_numeral power2_abs)
  then show ?thesis by (simp add: eac_err_def sq_def power2_eq_square)
qed

lemma eac_index_best:
  shows "fst (eac_index v m r mul) < 8" "snd (eac_index v m r mul) = eac_err v m r mul (fst (eac_index v m r mul))"
    "j < 8 \<Longrightarrow> snd (eac_index v m r mul) \<le> eac_err v m r mul j"
proof -
  let ?e = "eac_err v m r mul"
  let ?f = "\<lambda>j (idx, localErr). if ?e j < localErr then (j, ?e j) else (idx, localErr)"
  have inv: "(case fold ?f [1..<n] (0, ?e 0) of (idx, err) \<Rightarrow> idx < n \<and> err = ?e idx \<and> (\<forall>j < n. err \<le> ?e j))"
    if "1 \<le> n" for n
    using that
  proof (induction n rule: nat_induct_at_least)
    case (Suc n)
    then show ?case by (auto simp: less_Suc_eq split: prod.splits)
  qed simp
  have "(case eac_index v m r mul of (idx, err) \<Rightarrow> idx < 8 \<and> err = ?e idx \<and> (\<forall>j < 8. err \<le> ?e j))"
    using inv [of 8] eac_err_nonneg [of v m r mul] by (auto simp: eac_index_def Let_def simp del: upt_Suc upt_rec_numeral)
  then show "fst (eac_index v m r mul) < 8" "snd (eac_index v m r mul) = ?e (fst (eac_index v m r mul))"
    "j < 8 \<Longrightarrow> snd (eac_index v m r mul) \<le> ?e j" by (auto split: prod.splits)
qed

lemma eac_search_best:
  assumes "eac_search f rs (err, sel) = (err', sel')" "\<And>r. 0 \<le> f r"
  shows "(err' = err \<and> sel' = sel \<or> sel' \<in> set rs \<and> err' = f sel') \<and> err' \<le> err \<and> (\<forall>r \<in> set rs. err' \<le> f r)"
  using assms
proof (induction rs arbitrary: err sel)
  case (Cons r rs)
  show ?case
  proof (cases "f r < err")
    case True
    show ?thesis
    proof (cases "f r = 0")
      case True
      then show ?thesis using Cons.prems \<open>f r < err\<close> by auto
    next
      case False
      then have "eac_search f rs (f r, r) = (err', sel')" using Cons.prems(1) True by (simp add: Let_def)
      from Cons.IH [OF this Cons.prems(2)] True show ?thesis by auto
    qed
  next
    case False
    then have "eac_search f rs (err, sel) = (err', sel')" using Cons.prems(1) by (simp add: Let_def)
    from Cons.IH [OF this Cons.prems(2)] False show ?thesis by auto
  qed
qed simp

lemma eac_range_err_sum:
  "eac_range_err src rng m r = (\<Sum>i < 16. snd (eac_index (src ! i) m r (eac_mul rng r)))"
proof -
  have "fold (\<lambda>i e. e + g i) [0..<n] 0 = (\<Sum>i < n. g i)" for g :: "nat \<Rightarrow> int" and n
    by (induction n) simp_all
  then show ?thesis by (simp add: eac_range_err_def)
qed

lemma eac_range_err_bounds: "0 \<le> eac_range_err src rng m r" "eac_range_err src rng m r \<le> 1040400"
proof -
  show "0 \<le> eac_range_err src rng m r"
    unfolding eac_range_err_sum by (intro sum_nonneg) (simp add: eac_index_best(2) eac_err_nonneg)
  have "eac_range_err src rng m r \<le> (\<Sum>i < (16 :: nat). 65025)"
    unfolding eac_range_err_sum by (intro sum_mono) (simp add: eac_index_best(2) eac_err_less)
  then show "eac_range_err src rng m r \<le> 1040400" by simp
qed


section \<open>The packed block\<close>

lemma eac_minmax_bounds:
  assumes "eac_minmax src = (mn, mx)"
  shows "mn \<le> mx" "i < 16 \<Longrightarrow> mn \<le> src ! i" "i < 16 \<Longrightarrow> src ! i \<le> mx"
proof -
  let ?f = "\<lambda>i (mn, mx). if mn > src ! i then (src ! i, mx) else if mx < src ! i then (mn, src ! i) else (mn, mx)"
  have "(case fold ?f [1..<n] (src ! 0, src ! 0) of (mn, mx) \<Rightarrow> mn \<le> mx \<and> (\<forall>i < n. mn \<le> src ! i \<and> src ! i \<le> mx))"
    if "1 \<le> n" for n
    using that
  proof (induction n rule: nat_induct_at_least)
    case (Suc n)
    then show ?case by (auto simp: less_Suc_eq split: prod.splits)
  qed simp
  from this [of 16] assms show "mn \<le> mx" "i < 16 \<Longrightarrow> mn \<le> src ! i" "i < 16 \<Longrightarrow> src ! i \<le> mx"
    by (auto simp: eac_minmax_def simp del: upt_Suc upt_rec_numeral)
qed

text \<open>The multiplier fits its four bits for every table and every range of bytes.\<close>

lemma eac_mul_range:
  assumes "0 \<le> rng" "rng \<le> 255" "r < 16"
  shows "1 \<le> eac_mul rng r" "eac_mul rng r \<le> 15"
proof -
  have "list_all (\<lambda>r. 0 \<le> g_alphaRange ! r \<and> g_alphaRange ! r \<le> 3655) [0..<16]" by code_simp
  from upt_allD [OF this assms(3)] have g: "0 \<le> g_alphaRange ! r" "g_alphaRange ! r \<le> 3655" by auto
  have "rng * g_alphaRange ! r \<le> 255 * 3655" using assms(1,2) g by (intro mult_mono) auto
  then have "rng * g_alphaRange ! r div 65536 \<le> 255 * 3655 div 65536" by (intro zdiv_mono1) simp_all
  moreover have "0 \<le> rng * g_alphaRange ! r div 65536" using assms(1) g by (simp add: pos_imp_zdiv_nonneg_iff)
  ultimately show "1 \<le> eac_mul rng r" "eac_mul rng r \<le> 15" by (simp_all add: eac_mul_def drop_bit_eq_div)
qed

lemma nat_bits_below:
  assumes "m < 2 ^ k" "k \<le> n"
  shows "\<not> bit (of_nat m :: 'a::len word) n"
proof -
  have "m < 2 ^ n" by (rule less_le_trans [OF assms(1) power_increasing [OF assms(2)]]) simp
  then show ?thesis by (simp add: bit_of_nat_iff bit_nat_def)
qed

lemma bit_eac_pack:
  assumes "m < 256" "s < 16" "sel < 16" "\<forall>i < 16. idx ! i < 8" "n < 64"
  shows "bit (eac_pack (int m) (int s) sel idx) n \<longleftrightarrow>
    (if 56 \<le> n then bit (of_nat m :: u64) (n - 56) else if 52 \<le> n then bit (of_nat s :: u64) (n - 52)
     else if 48 \<le> n then bit (of_nat sel :: u64) (n - 48)
     else bit (of_nat (idx ! (15 - n div 3)) :: u64) (n mod 3))"
proof -
  have hm: "\<not> bit (of_nat m :: u64) k" if "8 \<le> k" for k using nat_bits_below [of m 8 k] assms(1) that by simp
  have hs: "\<not> bit (of_nat s :: u64) k" if "4 \<le> k" for k using nat_bits_below [of s 4 k] assms(2) that by simp
  have hl: "\<not> bit (of_nat sel :: u64) k" if "4 \<le> k" for k using nat_bits_below [of sel 4 k] assms(3) that by simp
  have hi: "\<not> bit (of_nat (idx ! i) :: u64) k" if "3 \<le> k" "i < 16" for k i
    using nat_bits_below [of "idx ! i" 3 k] assms(4) that by simp
  have field: "(\<exists>i \<in> set [0..<16]. bit (push_bit (45 - 3 * i) (of_nat (idx ! i) :: u64)) n) \<longleftrightarrow>
      n < 48 \<and> bit (of_nat (idx ! (15 - n div 3)) :: u64) (n mod 3)"
  proof
    assume "\<exists>i \<in> set [0..<16]. bit (push_bit (45 - 3 * i) (of_nat (idx ! i) :: u64)) n"
    then obtain i where i: "i < 16" "45 - 3 * i \<le> n" "bit (of_nat (idx ! i) :: u64) (n - (45 - 3 * i))"
      by (auto simp: bit_push_bit_iff)
    have d: "n - (45 - 3 * i) < 3" using hi [OF _ i(1), of "n - (45 - 3 * i)"] i(3) by (meson not_le)
    then have "n = 3 * (15 - i) + (n - (45 - 3 * i))" using i(1,2) by simp
    moreover have "(3 * (15 - i) + (n - (45 - 3 * i))) div 3 = 15 - i" "(3 * (15 - i) + (n - (45 - 3 * i))) mod 3 = n - (45 - 3 * i)"
      using d by simp_all
    ultimately have "n div 3 = 15 - i" "n mod 3 = n - (45 - 3 * i)" by simp_all
    moreover have "n < 48" using d i(1) by simp
    ultimately show "n < 48 \<and> bit (of_nat (idx ! (15 - n div 3)) :: u64) (n mod 3)" using i by simp
  next
    assume n: "n < 48 \<and> bit (of_nat (idx ! (15 - n div 3)) :: u64) (n mod 3)"
    then have "n < 48" by blast
    then have q: "n div 3 < 16" by simp
    then have "45 - 3 * (15 - n div 3) = 3 * (n div 3)" by simp
    then have "bit (push_bit (45 - 3 * (15 - n div 3)) (of_nat (idx ! (15 - n div 3)) :: u64)) n"
      using n assms(5) by (simp add: bit_push_bit_iff minus_mult_div_eq_mod)
    then show "\<exists>i \<in> set [0..<16]. bit (push_bit (45 - 3 * i) (of_nat (idx ! i) :: u64)) n" by force
  qed
  have top: "(word_of_int (int m) :: u64) = of_nat m" "(word_of_int (int s) :: u64) = of_nat s" by simp_all
  have "bit (eac_pack (int m) (int s) sel idx) n \<longleftrightarrow>
      56 \<le> n \<and> bit (of_nat m :: u64) (n - 56) \<or> 52 \<le> n \<and> bit (of_nat s :: u64) (n - 52) \<or>
      48 \<le> n \<and> bit (of_nat sel :: u64) (n - 48) \<or> n < 48 \<and> bit (of_nat (idx ! (15 - n div 3)) :: u64) (n mod 3)"
    unfolding eac_pack_def bit_fold_or field top using assms(5)
    by (auto simp add: bit_or_iff bit_push_bit_iff simp del: bit_of_nat_iff)
  moreover have "56 \<le> n \<Longrightarrow> \<not> bit (of_nat s :: u64) (n - 52)" by (rule hs) simp
  moreover have "52 \<le> n \<Longrightarrow> \<not> bit (of_nat sel :: u64) (n - 48)" by (rule hl) simp
  ultimately show ?thesis by (cases "56 \<le> n"; cases "52 \<le> n"; cases "48 \<le> n") simp_all
qed


lemma bswap64_bswap64: "bswap64 (bswap64 x) = x"
proof -
  have "(ucast (bswap64 y) :: u32) = bswap32 (ucast (drop_bit 32 y))"
    "(ucast (drop_bit 32 (bswap64 y)) :: u32) = bswap32 (ucast y)" for y
    by (rule word32_eqI; simp add: upt_32 bswap64_def bitwise)+
  moreover have "bswap32 (bswap32 w) = w" for w
    by (rule word32_eqI) (simp add: upt_32 bit_bswap32)
  moreover have "push_bit 32 (ucast (ucast x :: u32)) OR ucast (ucast (drop_bit 32 x) :: u32) =
      push_bit 32 (ucast (ucast x :: u32)) OR (ucast (ucast (drop_bit 32 x) :: u32) :: u64)" ..
  ultimately have "bswap64 (bswap64 x) = push_bit 32 (ucast (ucast (drop_bit 32 x) :: u32)) OR ucast (ucast x :: u32)"
    by (simp add: bswap64_def [of "bswap64 x"])
  also have "\<dots> = x" by (rule word64_eqI) (simp add: upt_64 bitwise)
  finally show ?thesis .
qed

lemma eac_pack_pixel:
  assumes fit: "m < 256" "s < 16" "sel < 16" "\<forall>i < 16. idx ! i < 8" and ij: "i < 4" "j < 4"
  shows "eac_alpha (eac_pack (int m) (int s) sel idx) i j = eac_value (int m) sel (int s) (idx ! (4 * i + j))"
proof -
  let ?d = "eac_pack (int m) (int s) sel idx"
  note bits = bit_eac_pack [OF fit]
  have field: "drop_bit k ?d AND mask w = of_nat v"
    if v: "v < 2 ^ w" "k + w \<le> 64" and b: "\<And>n. n < w \<Longrightarrow> bit ?d (k + n) = bit (of_nat v :: u64) n" for k w v
  proof (rule bit_word_eqI)
    fix n assume "n < LENGTH(64)"
    show "bit (drop_bit k ?d AND mask w) n = bit (of_nat v :: u64) n"
    proof (cases "n < w")
      case True
      then show ?thesis using b [OF True] that(2) by (simp add: bit_and_iff bit_drop_bit_eq bit_mask_iff del: bit_of_nat_iff)
    next
      case False
      then show ?thesis using nat_bits_below [OF v(1), of n] by (simp add: bit_and_iff bit_mask_iff del: bit_of_nat_iff)
    qed
  qed
  have base: "drop_bit 56 ?d = of_nat m"
  proof -
    have "drop_bit 56 ?d = drop_bit 56 ?d AND mask 8"
      by (rule bit_word_eqI) (auto simp: bit_and_iff bit_drop_bit_eq bit_mask_iff dest: bit_imp_le_length)
    also have "\<dots> = of_nat m" using fit(1) by (intro field) (simp_all add: bits del: bit_of_nat_iff)
    finally show ?thesis .
  qed
  have mul: "drop_bit 52 ?d AND mask 4 = of_nat s"
    using fit(2) by (intro field) (simp_all add: bits del: bit_of_nat_iff)
  have tab: "drop_bit 48 ?d AND mask 4 = of_nat sel"
    using fit(3) by (intro field) (simp_all add: bits del: bit_of_nat_iff)
  have sel: "drop_bit (45 - j * 3 - i * 12) ?d AND mask 3 = of_nat (idx ! (4 * i + j))"
  proof (rule field)
    show "idx ! (4 * i + j) < 2 ^ 3" using fit(4) ij by simp
    show "45 - j * 3 - i * 12 + 3 \<le> 64" by simp
    fix n :: nat assume n: "n < 3"
    have pos: "45 - j * 3 - i * 12 + n = 3 * (15 - (4 * i + j)) + n" using ij by simp
    then have "(45 - j * 3 - i * 12 + n) div 3 = 15 - (4 * i + j)" "(45 - j * 3 - i * 12 + n) mod 3 = n"
      using n by simp_all
    moreover have "45 - j * 3 - i * 12 + n < 48" "15 - (15 - (4 * i + j)) = 4 * i + j" using n ij by simp_all
    ultimately show "bit ?d (45 - j * 3 - i * 12 + n) = bit (of_nat (idx ! (4 * i + j)) :: u64) n"
      by (simp add: bits del: bit_of_nat_iff)
  qed
  have masks: "(0xF :: u64) = mask 4" "(0x7 :: u64) = mask 3" by (simp_all add: mask_eq_exp_minus_1)
  have small: "unat (of_nat m :: u64) = m" "unat (of_nat s :: u64) = s" "unat (of_nat sel :: u64) = sel"
    "unat (of_nat (idx ! (4 * i + j)) :: u64) = idx ! (4 * i + j)"
    using fit(1-3) fit(4) [rule_format, of "4 * i + j"] ij by (simp_all add: unsigned_of_nat take_bit_nat_eq_self)
  have "uint (of_nat m :: u64) = int m" "uint (of_nat s :: u64) = int s"
    using small(1,2) by (metis uint_nat)+
  then show ?thesis
    unfolding eac_alpha_def Let_def masks base mul tab sel small eac_value_def by simp
qed


section \<open>What the compressor promises\<close>

text \<open>The byte the decoder shows for pixel \<open>n\<close> (columns first).\<close>

definition eac_shown :: "u8 list \<Rightarrow> nat \<Rightarrow> u8" where
  "eac_shown src n = (case eac_choice src of (srcMid, selmul, sel, idx) \<Rightarrow> eac_value srcMid sel selmul (idx ! n))"

definition not_solid :: "u8 list \<Rightarrow> bool" where
  "not_solid src \<longleftrightarrow> \<not> list_all (\<lambda>i. src ! i = src ! 0) [1..<16]"

lemma eac_choice_fits:
  assumes "eac_choice src = (m, s, sel, idx)"
  obtains rng where "0 \<le> m" "m \<le> 255" "s = eac_mul rng sel" "1 \<le> s" "s \<le> 15" "sel < 16"
    "idx = map (\<lambda>i. fst (eac_index (src ! i) m sel s)) [0..<16]"
    "rng = uint (snd (eac_minmax src)) - uint (fst (eac_minmax src))"
    "m = uint (fst (eac_minmax src)) + rng div 2"
    "\<And>r. r < 16 \<Longrightarrow> eac_range_err src rng m sel \<le> eac_range_err src rng m r"
proof -
  obtain mn mx where mm: "eac_minmax src = (mn, mx)" by force
  define rng where "rng = uint mx - uint mn"
  obtain err where search: "eac_search (eac_range_err src rng m) [0..<16] (2147483647, 0) = (err, sel)"
      and m: "m = uint mn + rng div 2" and s: "s = eac_mul rng sel"
      and idx: "idx = map (\<lambda>i. fst (eac_index (src ! i) m sel s)) [0..<16]"
    using assms by (auto simp: eac_choice_def mm rng_def Let_def simp del: upt_Suc upt_rec_numeral split: prod.splits)
  have le: "uint mn \<le> uint mx" using eac_minmax_bounds(1) [OF mm] by (simp add: word_le_def)
  have rng: "0 \<le> rng" "rng \<le> 255"
    using le uint_byte_le [of mx] uint_nonnegative [of mn] unfolding rng_def by linarith+
  have "m \<le> uint mx" unfolding m using le by (simp add: rng_def)
  then have mb: "0 \<le> m" "m \<le> 255" using rng(1) uint_byte_le [of mx] by (auto simp: m)
  note best = eac_search_best [OF search eac_range_err_bounds(1)]
  have "err \<le> eac_range_err src rng m 0" using best by simp
  then have "err \<le> 1040400" using eac_range_err_bounds(2) [of src rng m 0] by simp
  then have "sel \<in> set [0..<16]" "err = eac_range_err src rng m sel" using best by auto
  moreover from this have "1 \<le> s" "s \<le> 15" using eac_mul_range [OF rng] by (simp_all add: s)
  ultimately show ?thesis using that [of rng] mb s idx best m rng_def mm by auto
qed

lemma eac_choice_decodes:
  assumes "eac_choice src = (m, s, sel, idx)" "i < 4" "j < 4"
  shows "eac_alpha (eac_pack m s sel idx) i j = eac_value m sel s (idx ! (4 * i + j))"
proof -
  obtain rng where c: "0 \<le> m" "m \<le> 255" "1 \<le> s" "s \<le> 15" "sel < 16"
      "idx = map (\<lambda>i. fst (eac_index (src ! i) m sel s)) [0..<16]"
    using eac_choice_fits [OF assms(1)] by metis
  have "\<forall>i < 16. idx ! i < 8" by (simp add: c(6) eac_index_best(1) del: upt_Suc)
  then show ?thesis
    using eac_pack_pixel [of "nat m" "nat s" sel idx i j] c(1-5) assms(2,3) by simp
qed

text \<open>C6: The alpha channel round trip: the decoder shows, at every pixel, the modifier that the encoder
  chose applied to the middle of the range; a solid block shows its value.\<close>

theorem eac_roundtrip:
  assumes "i < 4" "j < 4"
  shows "eac_alpha (bswap64 (ProcessAlpha_ETC2 src)) i j =
    (if not_solid src then eac_shown src (4 * i + j) else src ! (4 * i + j))"
proof (cases "not_solid src")
  case True
  obtain m s sel idx where c: "eac_choice src = (m, s, sel, idx)" by (metis prod.exhaust)
  then show ?thesis
    using True eac_choice_decodes [OF c assms]
    by (simp add: ProcessAlpha_ETC2_def not_solid_def eac_shown_def bswap64_bswap64 del: upt_Suc upt_rec_numeral)
next
  case False
  let ?v = "src ! 0"
  have same: "src ! (4 * i + j) = ?v"
    using False assms by (cases "4 * i + j = 0") (auto simp: not_solid_def list_all_iff)
  have "bswap64 (ucast ?v) = push_bit 56 (ucast ?v)"
    by (rule word64_eqI) (simp add: upt_64 bswap64_def bswap32_def bitwise)
  moreover have "drop_bit 56 (push_bit 56 (ucast ?v) :: u64) = ucast ?v"
    by (rule word64_eqI) (simp add: upt_64 bitwise)
  moreover have "drop_bit 52 (push_bit 56 (ucast ?v) :: u64) AND 0xF = 0"
    by (rule word64_eqI) (simp add: upt_64 bitwise)
  moreover have "clampu8 (word_of_int (uint (ucast ?v :: u64))) = ?v"
  proof -
    have "word_of_int (uint (ucast ?v :: u64)) = (ucast ?v :: u32)" by (rule word32_eqI) (simp add: upt_32 bitwise)
    moreover have "(ucast ?v :: u32) AND NOT 0xFF = 0" by (rule word32_eqI) (simp add: upt_32 bitwise)
    moreover have "(ucast (ucast ?v :: u32) :: u8) = ?v" by (rule byte_eqI) (simp add: upt_8 bitwise)
    ultimately show ?thesis by (simp add: clampu8_def)
  qed
  ultimately show ?thesis
    using False same by (simp add: ProcessAlpha_ETC2_def not_solid_def eac_alpha_def Let_def)
qed


lemma eac_roundtrip_witness:
  "eac_alpha (bswap64 (ProcessAlpha_ETC2 (map (\<lambda>n. of_nat (16 * n)) [0..<16]))) 1 2 =
    (if not_solid (map (\<lambda>n. of_nat (16 * n)) [0..<16]) then eac_shown (map (\<lambda>n. of_nat (16 * n)) [0..<16]) (4 * 1 + 2)
     else map (\<lambda>n. of_nat (16 * n)) [0..<16] ! (4 * 1 + 2))"
  by (rule eac_roundtrip) simp_all

definition eac_span :: "u8 list \<Rightarrow> int" where
  "eac_span src = uint (snd (eac_minmax src)) - uint (fst (eac_minmax src))"

definition eac_mid :: "u8 list \<Rightarrow> int" where
  "eac_mid src = uint (fst (eac_minmax src)) + eac_span src div 2"

text \<open>C23: The alpha search is exhaustive: no table (with the multiplier the encoder gives it) and no
  choice of indices has a smaller squared error than the block that is written.\<close>

theorem eac_search_optimal:
  assumes r: "r < 16" and s: "\<And>n. n < 16 \<Longrightarrow> s n < 8"
  shows "(\<Sum>n < 16. sq (uint (src ! n) - uint (eac_shown src n)))
    \<le> (\<Sum>n < 16. sq (uint (src ! n) - uint (eac_value (eac_mid src) r (eac_mul (eac_span src) r) (s n))))"
proof -
  obtain m sm sel idx where c: "eac_choice src = (m, sm, sel, idx)" by (metis prod.exhaust)
  from eac_choice_fits [OF c] have f: "sm = eac_mul (eac_span src) sel" "m = eac_mid src"
      "idx = map (\<lambda>i. fst (eac_index (src ! i) m sel sm)) [0..<16]"
      "eac_range_err src (eac_span src) m sel \<le> eac_range_err src (eac_span src) m r"
    using r unfolding eac_mid_def eac_span_def by metis+
  have "(\<Sum>n < 16. sq (uint (src ! n) - uint (eac_shown src n))) =
      (\<Sum>n < 16. snd (eac_index (src ! n) m sel sm))"
    by (intro sum.cong) (simp_all add: eac_shown_def c f(3) eac_index_best(2) eac_err_def del: upt_Suc)
  also have "\<dots> = eac_range_err src (eac_span src) m sel" by (simp add: eac_range_err_sum f(1))
  also have "\<dots> \<le> eac_range_err src (eac_span src) m r" by (rule f(4))
  also have "\<dots> \<le> (\<Sum>n < 16. eac_err (src ! n) m r (eac_mul (eac_span src) r) (s n))"
    unfolding eac_range_err_sum using s by (intro sum_mono eac_index_best(3)) simp
  finally show ?thesis by (simp add: eac_err_def f(2))
qed

definition alpha_block :: "u8 list" where
  "alpha_block = [0, 255, 3, 4, 5, 6, 7, 8, 9, 10, 11, 12, 13, 14, 15, 16]"

lemma eac_search_optimal_witness:
  "(\<Sum>n < 16. sq (uint (alpha_block ! n) - uint (eac_shown alpha_block n)))
    \<le> (\<Sum>n < 16. sq (uint (alpha_block ! n) -
         uint (eac_value (eac_mid alpha_block) 3 (eac_mul (eac_span alpha_block) 3) 5)))"
  using eac_search_optimal [of 3 "\<lambda>_. 5" alpha_block] by (simp del: sum.lessThan_Suc)

end
