(* ===== verification/Compress.thy ===== *)
theory Compress imports BlockLoop Dither Etc2Encode EacEncode begin

text \<open>
  The loops of \<open>src/ProcessRGB.cpp\<close> that cut an image into blocks of 4 x 4 pixels, read each block
  column by column and hand it to a block compressor: \<open>CompressEtc1Alpha\<close>, \<open>CompressEtc2Alpha\<close>,
  \<open>CompressEtc1Rgb\<close>, \<open>CompressEtc1RgbDither\<close>, \<open>CompressEtc2Rgb\<close>, \<open>CompressEtc2Rgba\<close>, and the
  variants that also report the blocks with a high error.

  The image is the list of its pixels, \<open>src\<close> is an index into it, and the 64-bit words written
  through \<open>dst\<close> are collected in a list.  The argument of type \<open>simd\<close> says which branch of
  \<open>#ifdef __SSE4_1__\<close> and \<open>#ifdef __AVX2__\<close> in the loop is compiled.  The block compressors that the loops call
  are compiled in several forms as well: they are an argument of the loops, of type \<open>block_encoders\<close>, and
  \<open>scalar_encoders\<close> are the ones of the build without vector instructions.
\<close>

datatype simd = Scalar | SSE41 | AVX2

text \<open>\<open>ProcessRGB\<close> or \<open>ProcessRGB_AVX2\<close>, \<open>ProcessRGB_ETC2\<close> and \<open>ProcessAlpha_ETC2\<close> of a build.  The number is the index
  of the word of the block in the output: \<open>pix0\<close> gives, for each of them, the value of the pixel indices that
  \<open>compressBlockTH\<close> leaves uninitialised.\<close>

record block_encoders =
  code_etc1 :: "u8 list \<Rightarrow> u64"
  code_etc2 :: "nat \<Rightarrow> u8 list \<Rightarrow> bool \<Rightarrow> u64"
  code_eac :: "u8 list \<Rightarrow> u64"

definition scalar_encoders :: "(nat \<Rightarrow> u32) \<Rightarrow> block_encoders" where
  "scalar_encoders pix0 = \<lparr>code_etc1 = ProcessRGB, code_etc2 = (\<lambda>k src h. ProcessRGB_ETC2 src h (pix0 k)),
     code_eac = ProcessAlpha_ETC2\<rparr>"

section \<open>Reading a block\<close>

text \<open>The scalar loop reads one column of four pixels per iteration, stepping down by a row, and ends
  on the first pixel of the next column.\<close>

definition gather_scalar :: "(u32 \<Rightarrow> 'a) \<Rightarrow> u32 list \<Rightarrow> nat \<Rightarrow> nat \<Rightarrow> 'a list \<times> nat" where
  "gather_scalar f src width p = fold (\<lambda>x (buf, p). let
       buf = buf @ [f (src ! p)]; p = p + width;
       buf = buf @ [f (src ! p)]; p = p + width;
       buf = buf @ [f (src ! p)]; p = p + width;
       buf = buf @ [f (src ! p)]
     in (buf, p + 1 - width * 3)) [0..<4] ([], p)"

definition alpha_grey :: "u32 \<Rightarrow> u32" where
  "alpha_grey v = (let a = drop_bit 24 v in a OR push_bit 8 a OR push_bit 16 a)"

definition alpha_byte :: "u32 \<Rightarrow> u8" where
  "alpha_byte v = ucast (drop_bit 24 v)"

text \<open>The vector branches load four rows and transpose them.\<close>

definition load_columns :: "u32 list \<Rightarrow> nat \<Rightarrow> nat \<Rightarrow> m128 list" where
  "load_columns src width p = transpose4 [loadu128 src (p + width * 0), loadu128 src (p + width * 1),
     loadu128 src (p + width * 2), loadu128 src (p + width * 3)]"

definition gather_sse :: "u32 list \<Rightarrow> nat \<Rightarrow> nat \<Rightarrow> u32 list \<times> nat" where
  "gather_sse src width p = (concat (load_columns src width p), p + 4)"

definition gather_alpha_sse :: "u32 list \<Rightarrow> nat \<Rightarrow> nat \<Rightarrow> u32 list \<times> nat" where
  "gather_alpha_sse src width p = (let sel = [0x03030303, 0x07070707, 0x0b0b0b0b, 0x0f0f0f0f] in
     (concat (map (\<lambda>c. shuffle_epi8 c sel) (load_columns src width p)), p + 4))"

text \<open>The alpha bytes of the four columns, collected in one register; \<open>shuffle_epi32 a z y x w\<close> is
  \<open>_mm_shuffle_epi32(a, _MM_SHUFFLE(z, y, x, w))\<close>.\<close>

definition shuffle_epi32 :: "m128 \<Rightarrow> nat \<Rightarrow> nat \<Rightarrow> nat \<Rightarrow> nat \<Rightarrow> m128" where
  "shuffle_epi32 a z y x w = [a ! w, a ! x, a ! y, a ! z]"

definition alpha_register :: "m128 list \<Rightarrow> m128" where
  "alpha_register c = (let
     sel = [0x0f0b0703, -1, -1, -1];
     a0 = shuffle_epi8 (c ! 0) sel;
     a1 = shuffle_epi8 (c ! 1) (shuffle_epi32 sel 3 3 0 3);
     a2 = shuffle_epi8 (c ! 2) (shuffle_epi32 sel 3 0 3 3);
     a3 = shuffle_epi8 (c ! 3) (shuffle_epi32 sel 0 3 3 3)
   in or_si128 (or_si128 a0 a1) (or_si128 a2 a3))"

definition gather_rgba_sse :: "u32 list \<Rightarrow> nat \<Rightarrow> nat \<Rightarrow> (u32 list \<times> u8 list) \<times> nat" where
  "gather_rgba_sse src width p = (let c = load_columns src width p in
     ((concat c, bytes_of (alpha_register c)), p + 4))"

definition gather_rgba_scalar :: "u32 list \<Rightarrow> nat \<Rightarrow> nat \<Rightarrow> (u32 list \<times> u8 list) \<times> nat" where
  "gather_rgba_scalar src width p = (case gather_scalar (\<lambda>v. (v, alpha_byte v)) src width p of
     (buf, p) \<Rightarrow> ((map fst buf, map snd buf), p))"

definition gather_rgb :: "simd \<Rightarrow> u32 list \<Rightarrow> nat \<Rightarrow> nat \<Rightarrow> u32 list \<times> nat" where
  "gather_rgb simd src width p = (if simd = Scalar then gather_scalar id src width p else gather_sse src width p)"

definition gather_alpha :: "simd \<Rightarrow> u32 list \<Rightarrow> nat \<Rightarrow> nat \<Rightarrow> u32 list \<times> nat" where
  "gather_alpha simd src width p =
     (if simd = Scalar then gather_scalar alpha_grey src width p else gather_alpha_sse src width p)"

definition gather_rgba :: "simd \<Rightarrow> u32 list \<Rightarrow> nat \<Rightarrow> nat \<Rightarrow> (u32 list \<times> u8 list) \<times> nat" where
  "gather_rgba simd src width p =
     (if simd = Scalar then gather_rgba_scalar src width p else gather_rgba_sse src width p)"

section \<open>The loops\<close>

definition CompressEtc1Alpha :: "simd \<Rightarrow> block_encoders \<Rightarrow> u32 list \<Rightarrow> u32 \<Rightarrow> nat \<Rightarrow> u64 list" where
  "CompressEtc1Alpha simd be src blocks width =
     block_loop (gather_alpha simd src width) width (\<lambda>buf dst. dst @ [code_etc1 be (bytes_of buf)]) blocks []"

definition CompressEtc2Alpha :: "simd \<Rightarrow> block_encoders \<Rightarrow> u32 list \<Rightarrow> u32 \<Rightarrow> nat \<Rightarrow> bool \<Rightarrow> u64 list" where
  "CompressEtc2Alpha simd be src blocks width useHeuristics =
     block_loop (gather_alpha simd src width) width
       (\<lambda>buf dst. dst @ [code_etc2 be (length dst) (bytes_of buf) useHeuristics]) blocks []"

definition CompressEtc1Rgb :: "simd \<Rightarrow> block_encoders \<Rightarrow> u32 list \<Rightarrow> u32 \<Rightarrow> nat \<Rightarrow> u64 list" where
  "CompressEtc1Rgb simd be src blocks width =
     block_loop (gather_rgb simd src width) width (\<lambda>buf dst. dst @ [code_etc1 be (bytes_of buf)]) blocks []"

text \<open>The scalar branch of the next loop does not dither.\<close>

definition dither_block :: "simd \<Rightarrow> u32 list \<Rightarrow> u8 list" where
  "dither_block simd buf = (case simd of
       Scalar \<Rightarrow> bytes_of buf
     | SSE41 \<Rightarrow> Dither (bytes_of buf)
     | AVX2 \<Rightarrow> DitherAvx2 (take 4 buf) (take 4 (drop 4 buf)) (take 4 (drop 8 buf)) (take 4 (drop 12 buf)))"

definition CompressEtc1RgbDither :: "simd \<Rightarrow> block_encoders \<Rightarrow> u32 list \<Rightarrow> u32 \<Rightarrow> nat \<Rightarrow> u64 list" where
  "CompressEtc1RgbDither simd be src blocks width =
     block_loop (gather_rgb simd src width) width (\<lambda>buf dst. dst @ [code_etc1 be (dither_block simd buf)]) blocks []"

definition CompressEtc2Rgb :: "simd \<Rightarrow> block_encoders \<Rightarrow> u32 list \<Rightarrow> u32 \<Rightarrow> nat \<Rightarrow> bool \<Rightarrow> u64 list" where
  "CompressEtc2Rgb simd be src blocks width useHeuristics =
     block_loop (gather_rgb simd src width) width
       (\<lambda>buf dst. dst @ [code_etc2 be (length dst) (bytes_of buf) useHeuristics]) blocks []"

text \<open>The alpha word of a block comes before its colour word.\<close>

definition CompressEtc2Rgba :: "simd \<Rightarrow> block_encoders \<Rightarrow> u32 list \<Rightarrow> u32 \<Rightarrow> nat \<Rightarrow> bool \<Rightarrow> u64 list" where
  "CompressEtc2Rgba simd be src blocks width useHeuristics =
     block_loop (gather_rgba simd src width) width
       (\<lambda>(rgba, alpha) dst. let dst = dst @ [code_eac be alpha]
          in dst @ [code_etc2 be (length dst) (bytes_of rgba) useHeuristics]) blocks []"

section \<open>Reporting the blocks with a high error\<close>

text \<open>\<open>PixBlock\<close>: where the block was written (an index of \<open>dst\<close>), its error and its colours.\<close>

record PixBlock =
  address :: nat
  pix_error :: u64
  bgrData :: "u8 list"

text \<open>The rows of the block, bottom row first.\<close>

definition block_rows :: "u32 list \<Rightarrow> u32 list" where
  "block_rows buf = fst (fold (\<lambda>i (srcBuffer, idx). (srcBuffer[idx + 0 := buf ! (i + 0), idx + 1 := buf ! (i + 4),
       idx + 2 := buf ! (i + 8), idx + 3 := buf ! (i + 12)], idx - 4)) [0..<4] (replicate 16 0, 12))"

definition divRGBData :: "u8 list \<Rightarrow> u8 list" where
  "divRGBData src = fst (fold (\<lambda>i (dst, p). let
       b = src ! p; p = p + 1;
       g = src ! p; p = p + 1;
       r = src ! p; p = p + 1;
       p = p + 1
     in (dst[3 * i + 0 := b, 3 * i + 1 := g, 3 * i + 2 := r], p)) [0..<16] (replicate 48 0, 0))"

definition divRGBAData :: "u8 list \<Rightarrow> u8 list" where
  "divRGBAData src = fst (fold (\<lambda>i (dst, p). let
       b = src ! p; p = p + 1;
       g = src ! p; p = p + 1;
       r = src ! p; p = p + 1;
       p = p + 1
     in (dst[3 * i + 0 := b, 3 * i + 1 := g, 3 * i + 2 := r], p)) [0..<16] (replicate 48 0, 0))"

text \<open>The second overload of \<open>ProcessRGB_ETC2\<close>, with its results \<open>isHighError\<close> and \<open>errorValue\<close>, is
  an argument here: only its AVX2 form, which is not modelled, sets them.  The scalar form is
  \<open>scalar_error_encoder\<close>.\<close>

type_synonym error_encoder = "nat \<Rightarrow> u8 list \<Rightarrow> bool \<Rightarrow> u64 \<times> bool \<times> u64"

definition scalar_error_encoder :: "(nat \<Rightarrow> u32) \<Rightarrow> error_encoder" where
  "scalar_error_encoder pix0 k src useHeuristics = (ProcessRGB_ETC2_error src useHeuristics (pix0 k), False, 0)"

text \<open>With the vector of an \<open>ErrorBlockData\<close>, which grows.\<close>

definition emit_pipe :: "error_encoder \<Rightarrow> bool \<Rightarrow> u32 list \<Rightarrow> u64 list \<times> PixBlock list \<Rightarrow> u64 list \<times> PixBlock list" where
  "emit_pipe enc useHeuristics buf st = (case st of (dst, pipe) \<Rightarrow>
     case enc (length dst) (bytes_of buf) useHeuristics of (v, isHighError, errorValue) \<Rightarrow>
     (dst @ [v],
      if isHighError then pipe @ [\<lparr>address = length dst, pix_error = errorValue,
        bgrData = divRGBData (bytes_of (block_rows buf))\<rparr>] else pipe))"

definition CompressEtc2Rgb_pipe :: "simd \<Rightarrow> error_encoder \<Rightarrow> u32 list \<Rightarrow> PixBlock list \<Rightarrow> u32 \<Rightarrow> nat \<Rightarrow> bool \<Rightarrow>
    u64 list \<times> PixBlock list" where
  "CompressEtc2Rgb_pipe simd enc src pipeline blocks width useHeuristics =
     block_loop (gather_rgb simd src width) width (emit_pipe enc useHeuristics) blocks ([], pipeline)"

text \<open>With an array of \<open>PixBlock\<close> and the number of its entries in use.  A store past the end of
  the array is undefined in the source: the result is then \<open>None\<close>.\<close>

type_synonym pix_array = "PixBlock list \<times> nat"

definition store_pix :: "PixBlock \<Rightarrow> pix_array \<Rightarrow> pix_array option" where
  "store_pix pb st = (case st of (pipeline, pipeSize) \<Rightarrow>
     if pipeSize < length pipeline then Some (pipeline[pipeSize := pb], pipeSize + 1) else None)"

definition emit_array :: "error_encoder \<Rightarrow> bool \<Rightarrow> u32 list \<Rightarrow> u64 list \<times> pix_array option \<Rightarrow> u64 list \<times> pix_array option" where
  "emit_array enc useHeuristics buf st = (case st of (dst, pipe) \<Rightarrow>
     case enc (length dst) (bytes_of buf) useHeuristics of (v, isHighError, errorValue) \<Rightarrow>
     (dst @ [v],
      if isHighError then Option.bind pipe (store_pix \<lparr>address = length dst, pix_error = errorValue,
        bgrData = divRGBData (bytes_of (block_rows buf))\<rparr>) else pipe))"

definition CompressEtc2Rgb_array :: "simd \<Rightarrow> error_encoder \<Rightarrow> u32 list \<Rightarrow> pix_array \<Rightarrow> u32 \<Rightarrow> nat \<Rightarrow> bool \<Rightarrow>
    u64 list \<times> pix_array option" where
  "CompressEtc2Rgb_array simd enc src pipeline blocks width useHeuristics =
     block_loop (gather_rgb simd src width) width (emit_array enc useHeuristics) blocks ([], Some pipeline)"

definition emit_rgba_array :: "(u8 list \<Rightarrow> u64) \<Rightarrow> error_encoder \<Rightarrow> bool \<Rightarrow> u32 list \<times> u8 list \<Rightarrow> u64 list \<times> pix_array option \<Rightarrow>
    u64 list \<times> pix_array option" where
  "emit_rgba_array eac enc useHeuristics b st = (case b of (rgba, alpha) \<Rightarrow> case st of (dst, pipe) \<Rightarrow>
     let dst = dst @ [eac alpha] in
     case enc (length dst) (bytes_of rgba) useHeuristics of (v, isHighError, errorValue) \<Rightarrow>
     (dst @ [v],
      if isHighError then Option.bind pipe (store_pix \<lparr>address = length dst, pix_error = errorValue,
        bgrData = divRGBAData (bytes_of (block_rows rgba))\<rparr>) else pipe))"

definition CompressEtc2Rgba_array :: "simd \<Rightarrow> (u8 list \<Rightarrow> u64) \<Rightarrow> error_encoder \<Rightarrow> u32 list \<Rightarrow> pix_array \<Rightarrow> u32 \<Rightarrow> nat \<Rightarrow> bool \<Rightarrow>
    u64 list \<times> pix_array option" where
  "CompressEtc2Rgba_array simd eac enc src pipeline blocks width useHeuristics =
     block_loop (gather_rgba simd src width) width (emit_rgba_array eac enc useHeuristics) blocks ([], Some pipeline)"

section \<open>What the readers read\<close>

lemma gather_scalar_reads: "gather_scalar f src width p = (block_at f src width p, p + 4)"
proof -
  have "(let
       buf = buf @ [f (src ! p)]; p = p + width;
       buf = buf @ [f (src ! p)]; p = p + width;
       buf = buf @ [f (src ! p)]; p = p + width;
       buf = buf @ [f (src ! p)]
     in (buf, p + 1 - width * 3)) =
     (buf @ [f (src ! (p + width * 0)), f (src ! (p + width * 1)), f (src ! (p + width * 2)), f (src ! (p + width * 3))], p + 1)"
    for buf p
    by (simp add: Let_def mult_2_right numeral_3_eq_3 add.assoc)
  note step = this [unfolded Let_def]
  show ?thesis
    unfolding gather_scalar_def Let_def
    unfolding step by (simp add: upt_4 block_at_def upt_16) (intro conjI arg_cong [of _ _ "\<lambda>q. f (src ! q)"]; simp)
qed

lemma load_columns_eq:
  "load_columns src width p = map (\<lambda>i. map (\<lambda>j. src ! (p + width * j + i)) [0..<4]) [0..<4]"
  by (simp add: load_columns_def transpose4_def loadu128_def upt_4 add.assoc)

lemma gather_sse_reads: "gather_sse src width p = (block_at id src width p, p + 4)"
  by (simp add: gather_sse_def load_columns_eq block_at_def upt_4 upt_16)

text \<open>The vector branch repeats the alpha byte in all four bytes, the scalar one in three.\<close>

definition alpha_grey4 :: "u32 \<Rightarrow> u32" where
  "alpha_grey4 v = word_of_bytes (replicate 4 (alpha_byte v))"

lemma shuffle_alpha:
  "shuffle_epi8 [a, b, c, d] [0x03030303, 0x07070707, 0x0b0b0b0b, 0x0f0f0f0f] =
    [alpha_grey4 a, alpha_grey4 b, alpha_grey4 c, alpha_grey4 d]"
  by (simp add: shuffle_epi8_def bytes_of_def words_of_def alpha_grey4_def alpha_byte_def replicate_4 upt_4 Let_def)

lemma gather_alpha_sse_reads: "gather_alpha_sse src width p = (block_at alpha_grey4 src width p, p + 4)"
  by (simp add: gather_alpha_sse_def load_columns_eq block_at_def upt_4 upt_16 shuffle_alpha)

lemma bytes_of_single: "bytes_of [word_of_bytes [a, b, c, d]] = [a, b, c, d]"
  using word_bytes_of_word [of a b c d] by (simp add: bytes_of_def)

lemma shuffle_masks:
  "shuffle_epi32 [0x0f0b0703, -1, -1, -1] 3 3 0 3 = [-1, 0x0f0b0703, -1, -1]"
  "shuffle_epi32 [0x0f0b0703, -1, -1, -1] 3 0 3 3 = [-1, -1, 0x0f0b0703, -1]"
  "shuffle_epi32 [0x0f0b0703, -1, -1, -1] 0 3 3 3 = [-1, -1, -1, 0x0f0b0703]"
  by (simp_all add: shuffle_epi32_def)

lemma mask_bytes: "word_bytes (-1) = [255, 255, 255, 255]" "word_bytes 0x0f0b0703 = [3, 7, 11, 15]"
  by code_simp+

lemma zero_word_bytes: "word_of_bytes [0, 0, 0, 0] = 0"
  by (simp add: word_of_bytes_def)

definition alphas :: "u32 list \<Rightarrow> u32" where
  "alphas c = word_of_bytes (map alpha_byte c)"

lemma shuffle_alpha_lane:
  "shuffle_epi8 [a, b, c, d] [0x0f0b0703, -1, -1, -1] = [alphas [a, b, c, d], 0, 0, 0]"
  "shuffle_epi8 [a, b, c, d] [-1, 0x0f0b0703, -1, -1] = [0, alphas [a, b, c, d], 0, 0]"
  "shuffle_epi8 [a, b, c, d] [-1, -1, 0x0f0b0703, -1] = [0, 0, alphas [a, b, c, d], 0]"
  "shuffle_epi8 [a, b, c, d] [-1, -1, -1, 0x0f0b0703] = [0, 0, 0, alphas [a, b, c, d]]"
  unfolding shuffle_epi8_def bytes_of_def list.map mask_bytes
  by (simp_all add: words_of_def alphas_def alpha_byte_def upt_4 Let_def zero_word_bytes)

lemma alpha_register_eq:
  assumes "length c0 = 4" "length c1 = 4" "length c2 = 4" "length c3 = 4"
  shows "bytes_of (alpha_register [c0, c1, c2, c3]) = map alpha_byte (concat [c0, c1, c2, c3])"
proof -
  have r: "alpha_register [c0, c1, c2, c3] = [alphas c0, alphas c1, alphas c2, alphas c3]"
    using length_4_cases [OF assms(1)] length_4_cases [OF assms(2)] length_4_cases [OF assms(3)] length_4_cases [OF assms(4)]
    by (elim exE) (simp add: alpha_register_def Let_def shuffle_masks shuffle_alpha_lane or_si128_def)
  have b: "word_bytes (alphas c) = map alpha_byte c" if "length c = 4" for c
    using length_4_cases [OF that] word_bytes_of_word by (auto simp: alphas_def)
  show ?thesis unfolding r bytes_of_def using assms by (simp add: b del: word_bytes_4)
qed

definition rgba_at :: "u32 list \<Rightarrow> nat \<Rightarrow> nat \<Rightarrow> u32 list \<times> u8 list" where
  "rgba_at src width p = (block_at id src width p, block_at alpha_byte src width p)"

lemma gather_rgba_reads: "gather_rgba simd src width p = (rgba_at src width p, p + 4)"
proof (cases "simd = Scalar")
  case True
  then show ?thesis
    by (simp add: gather_rgba_def gather_rgba_scalar_def gather_scalar_reads rgba_at_def block_at_def comp_def del: upt_Suc upt_rec_numeral)
next
  case False
  have "bytes_of (alpha_register (load_columns src width p)) = map alpha_byte (concat (load_columns src width p))"
    unfolding load_columns_eq upt_4 list.map by (rule alpha_register_eq) simp_all
  then show ?thesis
    using False gather_sse_reads [of src width p]
    by (simp add: gather_rgba_def gather_rgba_sse_def gather_sse_def rgba_at_def block_at_def comp_def Let_def del: upt_Suc upt_rec_numeral)
qed

lemma gather_rgb_reads: "gather_rgb simd src width p = (block_at id src width p, p + 4)"
  by (simp add: gather_rgb_def gather_scalar_reads gather_sse_reads)

definition grey_word :: "simd \<Rightarrow> u32 \<Rightarrow> u32" where
  "grey_word simd = (if simd = Scalar then alpha_grey else alpha_grey4)"

lemma gather_alpha_reads: "gather_alpha simd src width p = (block_at (grey_word simd) src width p, p + 4)"
  by (simp add: gather_alpha_def gather_scalar_reads gather_alpha_sse_reads grey_word_def)

interpretation rgb: block_reader "gather_rgb simd src width" "block_at id src width" for simd src width
  by unfold_locales (rule gather_rgb_reads)

interpretation alpha: block_reader "gather_alpha simd src width" "block_at (grey_word simd) src width" for simd src width
  by unfold_locales (rule gather_alpha_reads)

interpretation rgba: block_reader "gather_rgba simd src width" "rgba_at src width" for simd src width
  by unfold_locales (rule gather_rgba_reads)

section \<open>What the loops write\<close>

lemma CompressEtc1Rgb_blocks:
  assumes "width = 4 * n" "0 < n"
  shows "CompressEtc1Rgb simd be src blocks width =
    map (\<lambda>k. code_etc1 be (bytes_of (image_block id src width k))) [0..<loop_count blocks]"
  unfolding CompressEtc1Rgb_def rgb.block_loop_fold [OF assms] image_block_def by (rule fold_append_map)

lemma CompressEtc1Alpha_blocks:
  assumes "width = 4 * n" "0 < n"
  shows "CompressEtc1Alpha simd be src blocks width =
    map (\<lambda>k. code_etc1 be (bytes_of (image_block (grey_word simd) src width k))) [0..<loop_count blocks]"
  unfolding CompressEtc1Alpha_def alpha.block_loop_fold [OF assms] image_block_def by (rule fold_append_map)

lemma CompressEtc2Alpha_blocks:
  assumes "width = 4 * n" "0 < n"
  shows "CompressEtc2Alpha simd be src blocks width useHeuristics =
    map (\<lambda>k. code_etc2 be k (bytes_of (image_block (grey_word simd) src width k)) useHeuristics) [0..<loop_count blocks]"
  unfolding CompressEtc2Alpha_def alpha.block_loop_fold [OF assms] image_block_def by (rule fold_append_map)

lemma CompressEtc1RgbDither_blocks:
  assumes "width = 4 * n" "0 < n"
  shows "CompressEtc1RgbDither simd be src blocks width =
    map (\<lambda>k. code_etc1 be (dither_block simd (image_block id src width k))) [0..<loop_count blocks]"
  unfolding CompressEtc1RgbDither_def rgb.block_loop_fold [OF assms] image_block_def by (rule fold_append_map)

lemma CompressEtc2Rgb_blocks:
  assumes "width = 4 * n" "0 < n"
  shows "CompressEtc2Rgb simd be src blocks width useHeuristics =
    map (\<lambda>k. code_etc2 be k (bytes_of (image_block id src width k)) useHeuristics) [0..<loop_count blocks]"
  unfolding CompressEtc2Rgb_def rgb.block_loop_fold [OF assms] image_block_def by (rule fold_append_map)

lemma CompressEtc2Rgba_blocks:
  assumes "width = 4 * n" "0 < n"
  shows "CompressEtc2Rgba simd be src blocks width useHeuristics = concat (map (\<lambda>k.
     [code_eac be (image_block alpha_byte src width k),
      code_etc2 be (2 * k + 1) (bytes_of (image_block id src width k)) useHeuristics]) [0..<loop_count blocks])"
  unfolding CompressEtc2Rgba_def rgba.block_loop_fold [OF assms] image_block_def rgba_at_def prod.case
  by (rule fold_append2_map)

end
