(* ===== verification/CompressImage.thy ===== *)
theory CompressImage imports Compress begin

text \<open>
  What the block loops of \<open>Compress\<close> promise about whole images: the pixels the decoder shows for a
  compressed image, the agreement of the scalar and the vector branches, and the contents of the
  lists of blocks with a high error.
\<close>

section \<open>The compressor only looks at the colours\<close>

definition same_colours :: "u8 list \<Rightarrow> u8 list \<Rightarrow> bool" where
  "same_colours s t \<longleftrightarrow> (\<forall>i < 16. \<forall>c < 3. s ! (4 * i + c) = t ! (4 * i + c))"

lemma quadrant_sums_same:
  assumes "same_colours s t" "c < 3"
  shows "quadrant_sums s c = quadrant_sums t c"
proof -
  have "s ! (4 * i + c) = t ! (4 * i + c)" if "i < 16" for i
    using assms that by (simp add: same_colours_def)
  from this [of 0] this [of 1] this [of 2] this [of 3] this [of 4] this [of 5] this [of 6] this [of 7]
    this [of 8] this [of 9] this [of 10] this [of 11] this [of 12] this [of 13] this [of 14] this [of 15]
  show ?thesis by (simp add: quadrant_sums_eq Let_def)
qed

lemma PrepareAverages_same:
  assumes "same_colours s t"
  shows "PrepareAverages s = PrepareAverages t"
proof -
  have "Average s = Average t"
    using quadrant_sums_same [OF assms] by (simp add: Average_def)
  moreover have "CalcErrorBlock s = CalcErrorBlock t"
    using quadrant_sums_same [OF assms] by (simp add: CalcErrorBlock_def)
  ultimately show ?thesis by (simp add: PrepareAverages_def)
qed

lemma FindBestFit_same:
  assumes "same_colours s t"
  shows "FindBestFit a ids s = FindBestFit a ids t"
proof -
  have step: "fit_step a ids s i st = fit_step a ids t i st" if "i \<in> set [0..<16]" for i st
  proof -
    have "s ! (4 * i + c) = t ! (4 * i + c)" if "c < 3" for c
      using assms that \<open>i \<in> set [0..<16]\<close> by (simp add: same_colours_def del: upt_Suc upt_rec_numeral)
    from this [of 0] this [of 1] this [of 2] have "pixel_diff (a ! b) s i = pixel_diff (a ! b) t i" for b
      by (simp add: pixel_diff_def)
    then show ?thesis by (simp add: fit_step_def)
  qed
  show ?thesis unfolding FindBestFit_def by (rule fold_cong) (intro refl ext step | assumption)+
qed

lemma ProcessRGB_same:
  assumes "same_colours s t" "CheckSolid s = CheckSolid t"
  shows "ProcessRGB s = ProcessRGB t"
  unfolding ProcessRGB_def assms(2) PrepareAverages_same [OF assms(1)] FindBestFit_same [OF assms(1)] ..

text \<open>\<open>CheckSolid\<close> agrees when the fourth byte is the same in all pixels, or follows the others.\<close>

lemma CheckSolid_same:
  assumes "same_colours s t" "solid s \<longleftrightarrow> solid t"
  shows "CheckSolid s = CheckSolid t"
proof -
  have "s ! c = t ! c" if "c < 3" for c
    using assms(1) that unfolding same_colours_def by (metis add_0 mult_0_right zero_less_numeral)
  from this [of 0] this [of 1] this [of 2] show ?thesis using assms(2) unfolding CheckSolid_def some_pixel_differs by simp
qed

lemma solid_bytes_of:
  assumes "length ws = 16"
  shows "solid (bytes_of ws) \<longleftrightarrow> (\<forall>i < 16. ws ! i = ws ! 0)"
proof -
  have "take 4 (drop (4 * i) (bytes_of ws)) = take 4 (bytes_of ws) \<longleftrightarrow> ws ! i = ws ! 0" if "i < 16" for i
    using take_drop_bytes_of [of i ws] take_drop_bytes_of [of 0 ws] that assms
    by (simp del: word_bytes_4) (metis word_of_bytes_bytes)
  then show ?thesis by (auto simp: solid_def)
qed

lemma same_colours_bytes_of:
  assumes "length v = 16" "length w = 16" "\<And>i. i < 16 \<Longrightarrow> v ! i AND 0xFFFFFF = w ! i AND 0xFFFFFF"
  shows "same_colours (bytes_of v) (bytes_of w)"
proof -
  have b: "(ucast (drop_bit (8 * c) x) :: u8) = ucast (drop_bit (8 * c) (x AND 0xFFFFFF))" if "c < 3" for c and x :: u32
    using less_3_cases [OF that] by (elim disjE; hypsubst) (rule byte_eqI; simp add: upt_8 bitwise)+
  show ?thesis
    unfolding same_colours_def
  proof (intro allI impI)
    fix i c :: nat assume i: "i < 16" and c: "c < 3"
    then show "bytes_of v ! (4 * i + c) = bytes_of w ! (4 * i + c)"
      using assms b [OF c, of "v ! i"] b [OF c, of "w ! i"] by (simp add: bytes_of_nth)
  qed
qed

section \<open>The branches agree\<close>

lemma grey_same_colours: "same_colours (bytes_of (image_block alpha_grey src width k)) (bytes_of (image_block alpha_grey4 src width k))"
proof (rule same_colours_bytes_of)
  have g: "alpha_grey v AND 0xFFFFFF = alpha_grey4 v AND 0xFFFFFF" for v
    by (rule word32_eqI) (simp add: alpha_grey_def alpha_grey4_def alpha_byte_def word_of_bytes_def replicate_4 Let_def upt_32 bitwise)
  show "image_block alpha_grey src width k ! i AND 0xFFFFFF = image_block alpha_grey4 src width k ! i AND 0xFFFFFF" if "i < 16" for i
    using that by (simp add: image_block_def block_at_def g del: upt_Suc upt_rec_numeral)
qed (simp_all add: image_block_def block_at_def)

lemma grey_solid: "solid (bytes_of (image_block alpha_grey src width k)) \<longleftrightarrow> solid (bytes_of (image_block alpha_grey4 src width k))"
proof -
  have "alpha_grey v = alpha_grey w \<longleftrightarrow> alpha_byte v = alpha_byte w" for v w
  proof
    have "ucast (alpha_grey x) = alpha_byte x" for x
      by (rule byte_eqI) (simp add: alpha_grey_def alpha_byte_def Let_def upt_8 bitwise)
    then show "alpha_byte v = alpha_byte w" if "alpha_grey v = alpha_grey w" using that by metis
    have "alpha_grey x = ucast (alpha_byte x) OR push_bit 8 (ucast (alpha_byte x)) OR push_bit 16 (ucast (alpha_byte x))" for x
      by (rule word32_eqI) (simp add: alpha_grey_def alpha_byte_def Let_def upt_32 bitwise)
    then show "alpha_grey v = alpha_grey w" if "alpha_byte v = alpha_byte w" using that by simp
  qed
  moreover have "alpha_grey4 v = alpha_grey4 w \<longleftrightarrow> alpha_byte v = alpha_byte w" for v w
    using word_bytes_of_word unfolding alpha_grey4_def replicate_4 by (metis list.inject)
  ultimately show ?thesis
    by (subst (1 2) solid_bytes_of) (simp_all add: image_block_def block_at_def del: upt_Suc upt_rec_numeral)
qed

text \<open>C31: The copying of the blocks does not depend on the branch of the loop that is compiled: with the same block
  compressors, whatever they are, the loops over the colours and over colours and alpha write the same words, since the
  vector branches transpose the rows into the columns that the scalar loop collects and gather the same alpha
  bytes.  The loops over alpha alone hand on pixels that differ in the fourth byte, which the vector branches fill
  and the scalar one clears; they write the same words with block compressors that look at the colours
  and at whether all pixels are the same.  The scalar \<open>ProcessRGB\<close> is one of these.\<close>

theorem vector_branches_agree:
  assumes "width = 4 * n" "0 < n"
  shows "CompressEtc1Rgb simd be src blocks width = CompressEtc1Rgb Scalar be src blocks width \<and>
    CompressEtc2Rgb simd be src blocks width h = CompressEtc2Rgb Scalar be src blocks width h \<and>
    CompressEtc2Rgba simd be src blocks width h = CompressEtc2Rgba Scalar be src blocks width h \<and>
    ((\<forall>s t. same_colours s t \<and> (solid s \<longleftrightarrow> solid t) \<longrightarrow> code_etc1 be s = code_etc1 be t) \<longrightarrow>
      CompressEtc1Alpha simd be src blocks width = CompressEtc1Alpha Scalar be src blocks width) \<and>
    ((\<forall>s t k. same_colours s t \<and> (solid s \<longleftrightarrow> solid t) \<longrightarrow> code_etc2 be k s h = code_etc2 be k t h) \<longrightarrow>
      CompressEtc2Alpha simd be src blocks width h = CompressEtc2Alpha Scalar be src blocks width h) \<and>
    (same_colours s t \<and> (solid s \<longleftrightarrow> solid t) \<longrightarrow> ProcessRGB s = ProcessRGB t)"
proof -
  let ?s = "\<lambda>k. bytes_of (image_block (grey_word simd) src width k)" and ?t = "\<lambda>k. bytes_of (image_block (grey_word Scalar) src width k)"
  have g: "same_colours (?s k) (?t k) \<and> (solid (?s k) \<longleftrightarrow> solid (?t k))" for k
    using grey_same_colours [of src width k] grey_solid [of src width k] by (auto simp: grey_word_def same_colours_def)
  have "same_colours s t \<and> (solid s \<longleftrightarrow> solid t) \<longrightarrow> ProcessRGB s = ProcessRGB t" using ProcessRGB_same CheckSolid_same by blast
  then show ?thesis
    using g by (auto simp: CompressEtc1Rgb_blocks [OF assms] CompressEtc2Rgb_blocks [OF assms] CompressEtc2Rgba_blocks [OF assms]
        CompressEtc1Alpha_blocks [OF assms] CompressEtc2Alpha_blocks [OF assms])
qed

text \<open>Block compressors that show the colours of the first pixel.\<close>

definition first_colour :: "u8 list \<Rightarrow> u64" where
  "first_colour s = ucast (s ! 0) OR push_bit 8 (ucast (s ! 1)) OR push_bit 16 (ucast (s ! 2))"

lemma first_colour_same:
  assumes "same_colours s t"
  shows "first_colour s = first_colour t"
proof -
  have "s ! c = t ! c" if "c < 3" for c using assms that unfolding same_colours_def by (metis add_0 mult_0_right zero_less_numeral)
  from this [of 0] this [of 1] this [of 2] show ?thesis by (simp add: first_colour_def)
qed

lemma vector_branches_agree_witness:
  "CompressEtc1Rgb AVX2 (scalar_encoders (\<lambda>_. 0)) (replicate 64 7) 4 8 = CompressEtc1Rgb Scalar (scalar_encoders (\<lambda>_. 0)) (replicate 64 7) 4 8 \<and>
   CompressEtc1Alpha AVX2 (scalar_encoders (\<lambda>_. 0)) (replicate 64 7) 4 8 = CompressEtc1Alpha Scalar (scalar_encoders (\<lambda>_. 0)) (replicate 64 7) 4 8 \<and>
   (let be = \<lparr>code_etc1 = first_colour, code_etc2 = (\<lambda>k s h. first_colour s), code_eac = (\<lambda>_. 0)\<rparr> in
    CompressEtc2Alpha SSE41 be (replicate 64 7) 4 8 True = CompressEtc2Alpha Scalar be (replicate 64 7) 4 8 True)"
  using vector_branches_agree [of 8 2 AVX2 "scalar_encoders (\<lambda>_. 0)" "replicate 64 7" 4 True]
    vector_branches_agree [of 8 2 SSE41 "\<lparr>code_etc1 = first_colour, code_etc2 = (\<lambda>k s h. first_colour s), code_eac = (\<lambda>_. 0)\<rparr>" "replicate 64 7" 4 True]
    first_colour_same
  by (simp add: scalar_encoders_def Let_def)

text \<open>Compiled without SSE, \<open>CompressEtc1RgbDither\<close> does not dither: it is \<open>CompressEtc1Rgb\<close>.\<close>

theorem scalar_dither_is_plain: "CompressEtc1RgbDither Scalar be src blocks width = CompressEtc1Rgb Scalar be src blocks width"
  by (simp add: CompressEtc1RgbDither_def CompressEtc1Rgb_def dither_block_def)

lemma DitherAvx2_eq: "length buf = 16 \<Longrightarrow>
    DitherAvx2 (take 4 buf) (take 4 (drop 4 buf)) (take 4 (drop 8 buf)) (take 4 (drop 12 buf)) = Dither_AVX2 (bytes_of buf)"
  using DitherAvx2_registers [of "take 4 buf" "take 4 (drop 4 buf)" "take 4 (drop 8 buf)" "take 4 (drop 12 buf)"]
    append_take_drop_id [of 4 buf] append_take_drop_id [of 4 "drop 4 buf"] append_take_drop_id [of 4 "drop 8 buf"] by simp

lemma solid_colours:
  assumes "length s = 64" "\<forall>i < 16. s ! (4 * i + 3) = a"
  shows "solid s \<longleftrightarrow> (\<forall>i < 16. \<forall>c < 3. s ! (4 * i + c) = s ! c)"
proof -
  have "take 4 (drop (4 * i) s) = take 4 s \<longleftrightarrow> (\<forall>c < 3. s ! (4 * i + c) = s ! c)" if "i < 16" for i
  proof -
    have "s ! (4 * i + 3) = s ! 3" using assms(2) that by (metis add_0 mult_0_right zero_less_numeral)
    moreover have "take 4 (drop (4 * i) s) = take 4 s \<longleftrightarrow> (\<forall>c < 4. s ! (4 * i + c) = s ! c)"
      using that assms(1) by (simp add: list_eq_iff_nth_eq)
    moreover have "(\<forall>c < 4. P c) \<longleftrightarrow> (\<forall>c < 3. P c) \<and> P 3" for P :: "nat \<Rightarrow> bool"
      unfolding bounded_all_upt upt_4 upt_3 by simp
    ultimately show ?thesis by simp
  qed
  then show ?thesis by (auto simp: solid_def)
qed

text \<open>The two dithering branches of the block loop, SSE4.1 with \<open>Dither\<close> and AVX2 with
  \<open>DitherAvx2\<close>, write the same block when the alpha bytes of its pixels are all the same.\<close>

theorem dither_loops_agree:
  assumes "length buf = 16" "\<forall>i < 16. alpha_byte (buf ! i) = a"
  shows "ProcessRGB (dither_block AVX2 buf) = ProcessRGB (dither_block SSE41 buf)"
proof -
  let ?s = "Dither_AVX2 (bytes_of buf)" and ?t = "Dither (bytes_of buf)"
  have len: "length (bytes_of buf) = 64" using assms(1) by simp
  have same: "same_colours ?s ?t"
    by (simp add: same_colours_def Dither_nth [OF len] Dither_AVX2_nth [OF len])
  have l: "length ?s = 64" "length ?t = 64"
    using len by (simp_all add: length_Dither Dither_AVX2_def Let_def subs_epu8_def adds_epu8_def BayerAdd0_def BayerAdd1_def
        BayerSub0_def BayerSub1_def length_bayer_lanes del: upt_Suc upt_rec_numeral)
  have "bytes_of buf ! (4 * i + 3) = a" if "i < 16" for i
    using bytes_of_nth [of i buf 3] assms that by (simp add: alpha_byte_def)
  then have f: "\<forall>i < 16. ?s ! (4 * i + 3) = a" "\<forall>i < 16. ?t ! (4 * i + 3) = 0"
    by (simp_all add: Dither_alpha [OF len] Dither_AVX2_nth [OF len])
  have "?s ! c = ?t ! c" if "c < 3" for c
    using same that unfolding same_colours_def by (metis add_0 mult_0_right zero_less_numeral)
  then have "solid ?s \<longleftrightarrow> solid ?t"
    using same unfolding solid_colours [OF l(1) f(1)] solid_colours [OF l(2) f(2)] by (simp add: same_colours_def)
  then show ?thesis
    using ProcessRGB_same [OF same CheckSolid_same [OF same]] by (simp add: dither_block_def DitherAvx2_eq [OF assms(1)])
qed

lemma dither_loops_agree_witness:
  "ProcessRGB (dither_block AVX2 (map (\<lambda>k. 0xFF000000 + of_nat k * 0x0A0A0A) [0..<16])) =
   ProcessRGB (dither_block SSE41 (map (\<lambda>k. 0xFF000000 + of_nat k * 0x0A0A0A) [0..<16]))"
proof (rule dither_loops_agree)
  show "\<forall>i < 16. alpha_byte (map (\<lambda>k. 0xFF000000 + of_nat k * 0x0A0A0A) [0..<16] ! i) = 0xFF"
    unfolding bounded_all_upt upt_16 by (simp add: alpha_byte_def) 
qed simp

section \<open>The image that is shown\<close>

text \<open>C2: Compressing an image and decoding it, in any of the builds: pixel \<open>(x, y)\<close> of the result is pixel
  \<open>(x mod 4, y mod 4)\<close> of what the block compressor wrote for the block in which the original pixel \<open>(x, y)\<close> was
  put, at that place, for ETC1, ETC2 and ETC2 with alpha.  In the scalar build the block compressors are
  \<open>ProcessRGB\<close>, \<open>ProcessRGB_ETC2\<close> and \<open>ProcessAlpha_ETC2\<close>.\<close>

theorem compressed_image_decoded:
  assumes "w = 4 * n" "h = 4 * m" "0 < n" "0 < m" "n * m < 2 ^ 32" "x < w" "y < h" "length dst = w * h"
  shows "let k = y div 4 * (w div 4) + x div 4; i = x mod 4; j = y mod 4;
      b = image_block id src w k; a = image_block alpha_byte src w k; blocks = of_nat (n * m)
    in (b ! (4 * i + j), a ! (4 * i + j)) = (src ! (y * w + x), alpha_byte (src ! (y * w + x))) \<and>
      DecodeRGB (CompressEtc1Rgb simd be src blocks w) w h dst ! (y * w + x) = etc_opaque (code_etc1 be (bytes_of b)) i j \<and>
      DecodeRGB (CompressEtc2Rgb simd be src blocks w hs) w h dst ! (y * w + x) =
        etc_opaque (code_etc2 be k (bytes_of b) hs) i j \<and>
      DecodeRGBA (CompressEtc2Rgba simd be src blocks w hs) w h dst ! (y * w + x) =
        etc_eac (code_etc2 be (2 * k + 1) (bytes_of b) hs) (code_eac be a) i j"
proof -
  define k where "k = y div 4 * (w div 4) + x div 4"
  have k: "k < loop_count (of_nat (n * m))"
    unfolding k_def by (rule pixel_block_visited [OF assms(1,2,5,6,7)])
  note px = image_block_pixel [OF assms(1,6), of _ src y, folded k_def]
  note dec = etc_rgb.decode_blocks_places(2) [OF assms(1,2,8,6,7), folded DecodeRGB_def k_def]
    etc_rgba.decode_blocks_places(2) [OF assms(1,2,8,6,7), folded DecodeRGBA_def k_def]
  show ?thesis
    unfolding k_def [symmetric] Let_def dec CompressEtc1Rgb_blocks [OF assms(1,3)] CompressEtc2Rgb_blocks [OF assms(1,3)]
      CompressEtc2Rgba_blocks [OF assms(1,3)] px
    unfolding concat_pairs_nth [OF k, THEN conjunct1] concat_pairs_nth [OF k, THEN conjunct2]
    using k by (simp only: nth_map length_map length_upt minus_nat.diff_0 nth_upt add_0 simp_thms id_apply)
qed

lemma compressed_image_decoded_witness:
  "let k = 5 div 4 * (8 div 4) + 6 div 4; i = 6 mod 4; j = 5 mod 4; src = replicate 64 0xFF336699;
      b = image_block id src 8 k; a = image_block alpha_byte src 8 k; blocks = of_nat (2 * 2)
    in (b ! (4 * i + j), a ! (4 * i + j)) = (src ! (5 * 8 + 6), alpha_byte (src ! (5 * 8 + 6))) \<and>
      DecodeRGB (CompressEtc1Rgb Scalar (scalar_encoders (\<lambda>_. 0)) src blocks 8) 8 8 (replicate 64 0) ! (5 * 8 + 6) = etc_opaque (ProcessRGB (bytes_of b)) i j \<and>
      DecodeRGB (CompressEtc2Rgb Scalar (scalar_encoders (\<lambda>_. 0)) src blocks 8 True) 8 8 (replicate 64 0) ! (5 * 8 + 6) =
        etc_opaque (ProcessRGB_ETC2 (bytes_of b) True 0) i j \<and>
      DecodeRGBA (CompressEtc2Rgba Scalar (scalar_encoders (\<lambda>_. 0)) src blocks 8 True) 8 8 (replicate 64 0) ! (5 * 8 + 6) =
        etc_eac (ProcessRGB_ETC2 (bytes_of b) True 0) (ProcessAlpha_ETC2 a) i j"
  unfolding Let_def
  by (rule compressed_image_decoded [unfolded Let_def, where n = 2 and m = 2 and be = "scalar_encoders (\<lambda>_. 0)",
        unfolded scalar_encoders_def block_encoders.simps, folded scalar_encoders_def])
    (simp_all only: length_replicate, simp_all)

section \<open>The reported blocks\<close>

definition report :: "error_encoder \<Rightarrow> bool \<Rightarrow> u32 list \<Rightarrow> nat \<Rightarrow> PixBlock list" where
  "report enc h buf k = (case enc k (bytes_of buf) h of (v, isHighError, errorValue) \<Rightarrow>
     if isHighError then [\<lparr>address = k, pix_error = errorValue, bgrData = divRGBData (bytes_of (block_rows buf))\<rparr>] else [])"

definition reported :: "error_encoder \<Rightarrow> bool \<Rightarrow> u32 list \<Rightarrow> nat \<Rightarrow> nat \<Rightarrow> PixBlock list" where
  "reported enc h src width m = concat (map (\<lambda>k. report enc h (image_block id src width k) k) [0..<m])"

lemma emit_pipe_report:
  "emit_pipe enc h buf (dst, pipe) = (dst @ [fst (enc (length dst) (bytes_of buf) h)], pipe @ report enc h buf (length dst))"
  by (simp add: emit_pipe_def report_def split: prod.splits)

lemma fold_emit_pipe:
  "fold (\<lambda>k. emit_pipe enc h (image_block id src width k)) [0..<m] ([], pipe) =
     (map (\<lambda>k. fst (enc k (bytes_of (image_block id src width k)) h)) [0..<m], pipe @ reported enc h src width m)"
  by (induction m) (simp_all add: emit_pipe_report reported_def id_def)

text \<open>The twelve bytes of row \<open>r\<close> of a reported block are the colours of row \<open>3 - r\<close> of the image
  block: the block is turned upside down for the GPU.\<close>

lemma block_rows_nth:
  assumes "r < 4" "c < 4"
  shows "block_rows buf ! (4 * r + c) = buf ! (4 * c + (3 - r))"
  using less_4_cases [OF assms(1)] less_4_cases [OF assms(2)]
  by (elim disjE) (simp_all add: block_rows_def upt_4 replicate_16 Suc_Suc_0_is_2)

lemma length_block_rows: "length (block_rows buf) = 16"
  by (simp add: block_rows_def upt_4)

lemma divRGBData_nth:
  assumes "i < 16" "c < 3"
  shows "divRGBData src ! (3 * i + c) = src ! (4 * i + c)"
proof -
  have inv: "snd (fold f [0..<m] (replicate 48 0, 0)) = 4 * m \<and> length (fst (fold f [0..<m] (replicate 48 0, 0))) = 48 \<and>
      (\<forall>i < m. \<forall>c < 3. fst (fold f [0..<m] (replicate 48 0, 0)) ! (3 * i + c) = src ! (4 * i + c))"
    if "m \<le> 16" "f = (\<lambda>i (dst, p). (dst[3 * i + 0 := src ! p, 3 * i + 1 := src ! (p + 1), 3 * i + 2 := src ! (p + 1 + 1)], p + 1 + 1 + 1 + 1))"
    for m f
    using that(1)
  proof (induction m)
    case (Suc m)
    obtain dst p where st: "fold f [0..<m] (replicate 48 0, 0) = (dst, p)" by force
    with Suc have p: "p = 4 * m" "length dst = 48" and old: "\<And>i c. i < m \<Longrightarrow> c < 3 \<Longrightarrow> dst ! (3 * i + c) = src ! (4 * i + c)"
      by auto
    let ?d = "dst[3 * m + 0 := src ! p, 3 * m + 1 := src ! (p + 1), 3 * m + 2 := src ! (p + 1 + 1)]"
    have "fold f [0..<Suc m] (replicate 48 0, 0) = (?d, 4 * Suc m)"
      using st p by (simp add: that(2))
    moreover have "?d ! (3 * i + c) = src ! (4 * i + c)" if "i < Suc m" "c < 3" for i c
    proof (cases "i = m")
      case True
      then show ?thesis using less_3_cases [OF that(2)] Suc.prems p by auto
    next
      case False
      then have "i < m" "3 * i + c < 3 * m" using that by auto
      then show ?thesis using old [OF \<open>i < m\<close> that(2)] by (simp add: nth_list_update_neq)
    qed
    ultimately show ?case using p by simp
  qed simp
  show ?thesis
    using inv [OF order_refl refl] assms unfolding divRGBData_def Let_def by blast
qed

lemma reported_pixel:
  assumes "r < 4" "c < 4" "ch < 3" "width = 4 * n" "length b = 16"
  shows "divRGBData (bytes_of (block_rows b)) ! (3 * (4 * r + c) + ch) = ucast (drop_bit (8 * ch) (b ! (4 * c + (3 - r))))"
proof -
  have "4 * r + c < 16" using assms by simp
  moreover have "bytes_of (block_rows b) ! (4 * (4 * r + c) + ch) = ucast (drop_bit (8 * ch) (block_rows b ! (4 * r + c)))"
    using calculation assms(3) by (intro bytes_of_nth) (simp_all add: length_block_rows)
  ultimately show ?thesis by (simp only: divRGBData_nth assms(3) block_rows_nth [OF assms(1,2)])
qed

definition store_all :: "PixBlock list \<Rightarrow> pix_array option \<Rightarrow> pix_array option" where
  "store_all = fold (\<lambda>pb st. Option.bind st (store_pix pb))"

lemma store_all_append: "store_all (xs @ ys) st = store_all ys (store_all xs st)"
  by (simp add: store_all_def)

lemma store_all_None: "store_all pbs None = None"
  by (induction pbs) (simp_all add: store_all_def)

lemma store_all_result:
  "sz \<le> length arr \<Longrightarrow> store_all pbs (Some (arr, sz)) =
     (if sz + length pbs \<le> length arr
      then Some (take sz arr @ pbs @ drop (sz + length pbs) arr, sz + length pbs) else None)"
proof (induction pbs arbitrary: arr sz)
  case (Cons pb pbs)
  have step: "store_all (pb # pbs) (Some (arr, sz)) = store_all pbs (store_pix pb (arr, sz))"
    by (simp add: store_all_def)
  show ?case
  proof (cases "sz < length arr")
    case True
    have "take (sz + 1) (arr[sz := pb]) = take sz arr @ [pb]"
      using True by (simp add: upd_conv_take_nth_drop min_absorb2)
    moreover have "store_all (pb # pbs) (Some (arr, sz)) = store_all pbs (Some (arr[sz := pb], sz + 1))"
      using True by (simp add: step store_pix_def)
    ultimately show ?thesis using Cons.IH [of "sz + 1" "arr[sz := pb]"] True by simp
  next
    case False
    then show ?thesis by (simp add: step store_pix_def store_all_None)
  qed
qed (simp add: store_all_def)

lemma emit_array_report:
  "emit_array enc h buf (dst, st) = (dst @ [fst (enc (length dst) (bytes_of buf) h)], store_all (report enc h buf (length dst)) st)"
  by (simp add: emit_array_def report_def store_all_def split: prod.splits)

lemma fold_emit_array:
  "fold (\<lambda>k. emit_array enc h (image_block id src width k)) [0..<m] ([], st) =
     (map (\<lambda>k. fst (enc k (bytes_of (image_block id src width k)) h)) [0..<m], store_all (reported enc h src width m) st)"
  by (induction m) (simp_all add: emit_array_report reported_def store_all_append id_def, simp add: store_all_def)

lemma report_length: "length (report enc h buf k) \<le> 1"
  by (simp add: report_def split: prod.splits)

lemma reported_length: "length (reported enc h src width m) \<le> m"
proof (induction m)
  case (Suc m)
  then show ?case
    using report_length [of enc h "image_block id src width m" m] by (simp add: reported_def id_def)
qed (simp add: reported_def)

lemma reported_addresses:
  "map address (reported enc h src width m) = filter (\<lambda>k. fst (snd (enc k (bytes_of (image_block id src width k)) h))) [0..<m]"
  by (induction m) (simp_all add: reported_def report_def id_def split: prod.splits)

text \<open>Block \<open>k\<close> of the image as it is reported.\<close>

definition report_of :: "error_encoder \<Rightarrow> bool \<Rightarrow> u32 list \<Rightarrow> nat \<Rightarrow> nat \<Rightarrow> PixBlock" where
  "report_of enc h src width k = \<lparr>address = k, pix_error = snd (snd (enc k (bytes_of (image_block id src width k)) h)),
     bgrData = divRGBData (bytes_of (block_rows (image_block id src width k)))\<rparr>"

lemma reported_map:
  "reported enc h src width m = map (report_of enc h src width) (filter (\<lambda>k. fst (snd (enc k (bytes_of (image_block id src width k)) h))) [0..<m])"
  by (induction m) (simp_all add: reported_def report_def report_of_def id_def split: prod.splits)

text \<open>C20: The error pass writes what its encoder makes of each block of the image, in order, and appends to the list one
  report for each block that the encoder flagged, in the order of the image, and nothing else.  A report has
  the place at which the block was written, the error that the encoder gave, and the colours of
  the block: entry \<open>3 (4 r + c) + ch\<close> is channel \<open>ch\<close> of the pixel in column \<open>c\<close> and row \<open>3 - r\<close>.\<close>

theorem error_blocks_reported:
  assumes "width = 4 * n" "0 < n"
  shows "let N = loop_count blocks; b = image_block id src width; flagged = filter (\<lambda>k. fst (snd (enc k (bytes_of (b k)) h))) [0..<N] in
    case CompressEtc2Rgb_pipe simd enc src pipe blocks width h of (dst, pipe') \<Rightarrow>
      dst = map (\<lambda>k. fst (enc k (bytes_of (b k)) h)) [0..<N] \<and>
      take (length pipe) pipe' = pipe \<and> length pipe' = length pipe + length flagged \<and>
      (\<forall>i < length flagged. let pb = pipe' ! (length pipe + i); k = flagged ! i in
        address pb = k \<and> pix_error pb = snd (snd (enc k (bytes_of (b k)) h)) \<and>
        (\<forall>r < 4. \<forall>c < 4. \<forall>ch < 3. bgrData pb ! (3 * (4 * r + c) + ch) = ucast (drop_bit (8 * ch) (b k ! (4 * c + (3 - r))))))"
proof -
  have len: "length (image_block id src width k) = 16" for k by (simp add: image_block_def block_at_def)
  have "divRGBData (bytes_of (block_rows (image_block id src width k))) ! (12 * r + 3 * c + ch) =
      ucast (drop_bit (8 * ch) (image_block id src width k ! (4 * c + 3 - r)))" if "r < 4" "c < 4" "ch < 3" for k r c ch
    using reported_pixel [OF that assms(1) len, of k] that by (simp add: algebra_simps)
  then show ?thesis
    unfolding CompressEtc2Rgb_pipe_def rgb.block_loop_fold [OF assms] image_block_def [symmetric] fold_emit_pipe reported_map
    by (auto simp: Let_def report_of_def)
qed

definition flag_odd :: error_encoder where
  "flag_odd k b h = (5, odd k, 9)"

definition spare :: "nat \<Rightarrow> PixBlock list" where
  "spare n = replicate n \<lparr>address = 0, pix_error = 0, bgrData = []\<rparr>"

lemma error_blocks_reported_witness:
  "case CompressEtc2Rgb_pipe Scalar flag_odd (replicate 32 7) [] 2 8 True of (dst, pipe') \<Rightarrow>
     dst = [5, 5] \<and> map address pipe' = [1] \<and> map pix_error pipe' = [9]"
proof -
  have "loop_count 2 = 2" by (simp add: loop_count_def)
  then show ?thesis
    using error_blocks_reported [where width = 8 and n = 2 and blocks = 2 and src = "replicate 32 7" and enc = flag_odd and h = True
        and simd = Scalar and pipe = "[]"]
    by (auto simp: Let_def flag_odd_def upt_2 length_Suc_conv split: prod.splits)
qed

text \<open>The colours of a reported block, for the GPU: byte \<open>3 (4 r + c) + ch\<close> is channel \<open>ch\<close> of
  the pixel in column \<open>c\<close> and row \<open>3 - r\<close> of the image block: the rows are turned upside down.\<close>

theorem reported_colours:
  assumes "width = 4 * n" "0 < n" "r < 4" "c < 4" "ch < 3"
  shows "divRGBData (bytes_of (block_rows (image_block id src width (by * n + bx mod n)))) ! (3 * (4 * r + c) + ch) =
    ucast (drop_bit (8 * ch) (src ! ((4 * by + (3 - r)) * width + (4 * (bx mod n) + c))))"
proof -
  let ?x = "4 * (bx mod n) + c" and ?y = "4 * by + (3 - r)"
  have "bx mod n < n" using assms(2) by simp
  then have x: "?x < width" using assms(1,4) by simp
  have d: "?x div 4 = bx mod n" "?y div 4 = by" "?x mod 4 = c" "width div 4 = n"
    using assms by simp_all
  have "(4 * by + k) mod 4 = k" if "k < 4" for k :: nat using that by simp
  from this [of "3 - r"] have e: "?y mod 4 = 3 - r" by simp
  have l: "length (image_block id src width k) = 16" for k by (simp add: image_block_def block_at_def)
  show ?thesis
    unfolding reported_pixel [OF assms(3-5,1) l] using image_block_pixel [OF assms(1) x, of id src ?y]
    by (simp only: d e id_apply)
qed

lemma reported_colours_witness:
  "divRGBData (bytes_of (block_rows (image_block id (replicate 64 0x102030) 8 (1 * 2 + 1 mod 2)))) ! (3 * (4 * 0 + 2) + 1) =
    ucast (drop_bit (8 * 1) (replicate 64 (0x102030 :: u32) ! ((4 * 1 + (3 - 0)) * 8 + (4 * (1 mod 2) + 2))))"
  by (rule reported_colours) simp_all

text \<open>C21: The variants that store the reported blocks in an array implement the one with the growing
  list: while the array is large enough they put the same blocks behind the ones in use; they
  store past its end exactly when there are more.\<close>

theorem error_array_refines_pipe:
  assumes "width = 4 * n" "0 < n" "sz \<le> length arr"
  shows "CompressEtc2Rgb_array simd enc src (arr, sz) blocks width h =
    (case CompressEtc2Rgb_pipe simd enc src (take sz arr) blocks width h of (dst, pipe) \<Rightarrow>
      (dst, if length pipe \<le> length arr then Some (pipe @ drop (length pipe) arr, length pipe) else None))"
  unfolding CompressEtc2Rgb_pipe_def CompressEtc2Rgb_array_def rgb.block_loop_fold [OF assms(1,2)]
    image_block_def [symmetric] fold_emit_pipe fold_emit_array store_all_result [OF assms(3)]
  using assms(3) by (simp add: min_absorb2)

lemma error_array_refines_pipe_witness:
  "CompressEtc2Rgb_array Scalar flag_odd (replicate 32 7) (spare 3, 0) 2 8 True =
    (case CompressEtc2Rgb_pipe Scalar flag_odd (replicate 32 7) (take 0 (spare 3)) 2 8 True of (dst, pipe) \<Rightarrow>
      (dst, if length pipe \<le> length (spare 3) then Some (pipe @ drop (length pipe) (spare 3), length pipe) else None))"
  by (rule error_array_refines_pipe [where width = 8 and n = 2]) (simp_all add: spare_def)

text \<open>C32: An array with as many free entries as there are blocks never overflows.\<close>

theorem error_array_bound:
  assumes "width = 4 * n" "0 < n" "sz + loop_count blocks \<le> length arr"
  shows "snd (CompressEtc2Rgb_array simd enc src (arr, sz) blocks width h) \<noteq> None"
proof -
  have "sz + length (reported enc h src width (loop_count blocks)) \<le> length arr"
    using reported_length [of enc h src width "loop_count blocks"] assms(3) by simp
  then show ?thesis
    unfolding CompressEtc2Rgb_array_def rgb.block_loop_fold [OF assms(1,2)] image_block_def [symmetric] fold_emit_array
    using assms(3) by (simp add: store_all_result)
qed

lemma error_array_bound_witness:
  "snd (CompressEtc2Rgb_array Scalar flag_odd (replicate 32 7) (spare 3, 1) 2 8 True) \<noteq> None"
  by (rule error_array_bound [where width = 8 and n = 2]) (simp_all add: loop_count_def spare_def)

text \<open>With an alpha plane every block takes two words, and the reported place is the second.\<close>

definition rgba_report :: "error_encoder \<Rightarrow> bool \<Rightarrow> u32 list \<Rightarrow> nat \<Rightarrow> nat \<Rightarrow> PixBlock list" where
  "rgba_report enc h src width m = concat (map (\<lambda>k. report enc h (image_block id src width k) (2 * k + 1)) [0..<m])"

lemma emit_rgba_array_report:
  "emit_rgba_array eac enc h (rgba, al) (dst, st) =
     (dst @ [eac al, fst (enc (Suc (length dst)) (bytes_of rgba) h)],
      store_all (report enc h rgba (Suc (length dst))) st)"
  by (simp add: emit_rgba_array_def report_def store_all_def divRGBAData_def divRGBData_def Let_def split: prod.splits)

definition rgba_words :: "(u8 list \<Rightarrow> u64) \<Rightarrow> error_encoder \<Rightarrow> bool \<Rightarrow> u32 list \<Rightarrow> nat \<Rightarrow> nat \<Rightarrow> u64 list" where
  "rgba_words eac enc h src width m = concat (map (\<lambda>k. [eac (image_block alpha_byte src width k),
     fst (enc (2 * k + 1) (bytes_of (image_block id src width k)) h)]) [0..<m])"

lemma length_rgba_words: "length (rgba_words eac enc h src width m) = 2 * m"
  by (induction m) (simp_all add: rgba_words_def)

lemma fold_emit_rgba_array:
  "fold (\<lambda>k. emit_rgba_array eac enc h (image_block id src width k, image_block alpha_byte src width k)) [0..<m] ([], st) =
     (rgba_words eac enc h src width m, store_all (rgba_report enc h src width m) st)"
proof (induction m)
  case 0
  show ?case by (simp add: rgba_words_def rgba_report_def store_all_def)
next
  case (Suc m)
  have "rgba_words eac enc h src width (Suc m) = rgba_words eac enc h src width m @
     [eac (image_block alpha_byte src width m), fst (enc (Suc (2 * m)) (bytes_of (image_block id src width m)) h)]"
    by (simp add: rgba_words_def)
  moreover have "rgba_report enc h src width (Suc m) =
     rgba_report enc h src width m @ report enc h (image_block id src width m) (Suc (2 * m))"
    by (simp add: rgba_report_def)
  ultimately show ?case
    using Suc by (simp add: emit_rgba_array_report store_all_append length_rgba_words id_def)
qed

text \<open>The error pass with an alpha plane: the alpha word and the colour word of every block in turn,
  and an array of reported blocks that are found at the odd places.\<close>

theorem rgba_error_pass:
  assumes "width = 4 * n" "0 < n" "sz + length (rgba_report enc h src width (loop_count blocks)) \<le> length arr"
  shows "CompressEtc2Rgba_array simd eac enc src (arr, sz) blocks width h =
    (rgba_words eac enc h src width (loop_count blocks),
     let pbs = rgba_report enc h src width (loop_count blocks) in
     Some (take sz arr @ pbs @ drop (sz + length pbs) arr, sz + length pbs))"
proof -
  have "sz \<le> length arr" using assms(3) by simp
  then show ?thesis
    unfolding CompressEtc2Rgba_array_def rgba.block_loop_fold [OF assms(1,2)] rgba_at_def image_block_def [symmetric]
      fold_emit_rgba_array using assms(3) by (simp add: store_all_result Let_def)
qed

lemma rgba_error_pass_witness:
  "CompressEtc2Rgba_array Scalar ProcessAlpha_ETC2 flag_odd (replicate 32 7) (spare 2, 0) 2 8 True =
    (rgba_words ProcessAlpha_ETC2 flag_odd True (replicate 32 7) 8 (loop_count 2),
     let pbs = rgba_report flag_odd True (replicate 32 7) 8 (loop_count 2) in
     Some (take 0 (spare 2) @ pbs @ drop (0 + length pbs) (spare 2), 0 + length pbs))"
proof (rule rgba_error_pass [where width = 8 and n = 2])
  have "loop_count 2 = 2" by (simp add: loop_count_def)
  then show "0 + length (rgba_report flag_odd True (replicate 32 7) 8 (loop_count 2)) \<le> length (spare 2)"
    by (simp add: rgba_report_def report_def flag_odd_def upt_2 spare_def)
qed simp_all

end
