(* ===== verification/Container.thy ===== *)
theory Container imports BlockFile CompressImage DxtRoundTrip begin

text \<open>
  \<open>Process\<close>, \<open>ProcessRGBA\<close> and \<open>Decode\<close> of \<open>src/BlockData.cpp\<close>: the dispatch to the compressors, which write
  their words into the file, and to the decoders.  The branch \<open>simd\<close> of the ETC loops and their block compressors
  \<open>be\<close> are those of a build; the DXT loops are the ones of the build without vector instructions.
\<close>

datatype Channels = RGB | Alpha

section \<open>Compressing and decoding\<close>

text \<open>A read past the end of the image and a store past the end of the file are undefined: \<open>None\<close>.\<close>

definition Process :: "simd \<Rightarrow> block_encoders \<Rightarrow> u32 list \<Rightarrow> u32 \<Rightarrow> nat \<Rightarrow> nat \<Rightarrow> Channels \<Rightarrow> bool \<Rightarrow> bool \<Rightarrow> block_data \<Rightarrow>
    block_data option" where
  "Process simd be src blocks offset width type dither useHeuristics bd = (
     if \<not> reads_within src width blocks then None
     else if type = Alpha then
       if m_type bd \<noteq> Etc1 then put_words offset (CompressEtc2Alpha simd be src blocks width useHeuristics) bd
       else put_words offset (CompressEtc1Alpha simd be src blocks width) bd
     else case m_type bd of
       Etc1 \<Rightarrow>
         if dither then put_words offset (CompressEtc1RgbDither simd be src blocks width) bd
         else put_words offset (CompressEtc1Rgb simd be src blocks width) bd
     | Etc2_RGB \<Rightarrow> put_words offset (CompressEtc2Rgb simd be src blocks width useHeuristics) bd
     | Dxt1 \<Rightarrow>
         if dither then put_words offset (CompressDxt1Dither src blocks width) bd
         else put_words offset (CompressDxt1 src blocks width) bd
     | _ \<Rightarrow> None)"

definition ProcessRGBA :: "simd \<Rightarrow> block_encoders \<Rightarrow> u32 list \<Rightarrow> u32 \<Rightarrow> nat \<Rightarrow> nat \<Rightarrow> bool \<Rightarrow> block_data \<Rightarrow> block_data option" where
  "ProcessRGBA simd be src blocks offset width useHeuristics bd = (
     if \<not> reads_within src width blocks then None
     else case m_type bd of
       Etc2_RGBA \<Rightarrow> put_words (offset * 2) (CompressEtc2Rgba simd be src blocks width useHeuristics) bd
     | Dxt5 \<Rightarrow> put_words (offset * 2) (CompressDxt5 src blocks width) bd
     | _ \<Rightarrow> None)"

text \<open>With the blocks of high error reported: the addresses become places in the data of the file.  The vector
  of an \<open>ErrorBlockData\<close> grows, an array is filled from its entry \<open>pipeSize\<close> on.\<close>

definition relocate :: "nat \<Rightarrow> PixBlock list \<Rightarrow> PixBlock list" where
  "relocate dst = map (\<lambda>p. p\<lparr>address := dst + address p\<rparr>)"

definition Process_pipe :: "simd \<Rightarrow> block_encoders \<Rightarrow> error_encoder \<Rightarrow> u32 list \<Rightarrow> u32 \<Rightarrow> PixBlock list \<Rightarrow> nat \<Rightarrow> nat \<Rightarrow> Channels \<Rightarrow>
    bool \<Rightarrow> bool \<Rightarrow> block_data \<Rightarrow> (block_data \<times> PixBlock list) option" where
  "Process_pipe simd be enc src blocks pipeline offset width type dither useHeuristics bd = (
     if \<not> reads_within src width blocks then None
     else if type \<noteq> Alpha \<and> m_type bd = Etc2_RGB then
       case CompressEtc2Rgb_pipe simd enc src pipeline blocks width useHeuristics of (ws, pipe) \<Rightarrow> do {
         bd \<leftarrow> put_words offset ws bd;
         Some (bd, take (length pipeline) pipe @ relocate offset (drop (length pipeline) pipe))
       }
     else map_option (\<lambda>bd. (bd, pipeline)) (Process simd be src blocks offset width type dither useHeuristics bd))"

definition relocate_array :: "nat \<Rightarrow> nat \<Rightarrow> pix_array \<Rightarrow> pix_array" where
  "relocate_array dst n pa = (case pa of (pipeline, pipeSize) \<Rightarrow>
     (take n pipeline @ relocate dst (take (pipeSize - n) (drop n pipeline)) @ drop pipeSize pipeline, pipeSize))"

definition Process_array :: "simd \<Rightarrow> block_encoders \<Rightarrow> error_encoder \<Rightarrow> u32 list \<Rightarrow> u32 \<Rightarrow> pix_array \<Rightarrow> nat \<Rightarrow> nat \<Rightarrow> Channels \<Rightarrow>
    bool \<Rightarrow> bool \<Rightarrow> block_data \<Rightarrow> (block_data \<times> pix_array) option" where
  "Process_array simd be enc src blocks pipeline offset width type dither useHeuristics bd = (
     if \<not> reads_within src width blocks then None
     else if type \<noteq> Alpha \<and> m_type bd = Etc2_RGB then
       case CompressEtc2Rgb_array simd enc src pipeline blocks width useHeuristics of (ws, pipe) \<Rightarrow> do {
         pipe \<leftarrow> pipe;
         bd \<leftarrow> put_words offset ws bd;
         Some (bd, relocate_array offset (snd pipeline) pipe)
       }
     else map_option (\<lambda>bd. (bd, pipeline)) (Process simd be src blocks offset width type dither useHeuristics bd))"

definition ProcessRGBA_array :: "simd \<Rightarrow> block_encoders \<Rightarrow> error_encoder \<Rightarrow> u32 list \<Rightarrow> u32 \<Rightarrow> pix_array \<Rightarrow> nat \<Rightarrow> nat \<Rightarrow> bool \<Rightarrow> block_data \<Rightarrow>
    (block_data \<times> pix_array) option" where
  "ProcessRGBA_array simd be enc src blocks pipeline offset width useHeuristics bd = (
     if \<not> reads_within src width blocks then None
     else case m_type bd of
       Etc2_RGBA \<Rightarrow> (case CompressEtc2Rgba_array simd (code_eac be) enc src pipeline blocks width useHeuristics of (ws, pipe) \<Rightarrow> do {
         pipe \<leftarrow> pipe;
         bd \<leftarrow> put_words (offset * 2) ws bd;
         Some (bd, relocate_array (offset * 2) (snd pipeline) pipe)
       })
     | Dxt5 \<Rightarrow> map_option (\<lambda>bd. (bd, pipeline)) (put_words (offset * 2) (CompressDxt5 src blocks width) bd)
     | _ \<Rightarrow> None)"

text \<open>The decoders fill a new bitmap, whose contents \<open>ret\<close> are arbitrary before.\<close>

definition Decode :: "u32 list \<Rightarrow> block_data \<Rightarrow> u32 list option" where
  "Decode ret bd = (case m_size bd of (x, y) \<Rightarrow>
     if x < 0 \<or> y < 0 then None
     else let w = nat x; h = nat y; n = (w div 4) * (h div 4); src = (\<lambda>n. load64 (m_dataOffset bd) n (m_data bd)) in
       case m_type bd of
         Etc1 \<Rightarrow> map_option (\<lambda>s. DecodeRGB s w h ret) (src n)
       | Etc2_RGB \<Rightarrow> map_option (\<lambda>s. DecodeRGB s w h ret) (src n)
       | Etc2_RGBA \<Rightarrow> map_option (\<lambda>s. DecodeRGBA s w h ret) (src (2 * n))
       | Dxt1 \<Rightarrow> map_option (\<lambda>s. DecodeDxt1 s w h ret) (src n)
       | Dxt5 \<Rightarrow> map_option (\<lambda>s. DecodeDxt5 s w h ret) (src (2 * n)))"

section \<open>What is written\<close>

text \<open>The words of block \<open>k\<close>; none for the types that \<open>Process\<close> and \<open>ProcessRGBA\<close> do not take.\<close>

definition block_words :: "simd \<Rightarrow> block_encoders \<Rightarrow> u32 list \<Rightarrow> nat \<Rightarrow> Channels \<Rightarrow> bool \<Rightarrow> bool \<Rightarrow> Type \<Rightarrow> nat \<Rightarrow> u64 list" where
  "block_words simd be src width type dither h ty k = (
     if type = Alpha then
       (if ty \<noteq> Etc1 then [code_etc2 be k (bytes_of (image_block (grey_word simd) src width k)) h]
        else [code_etc1 be (bytes_of (image_block (grey_word simd) src width k))])
     else case ty of
       Etc1 \<Rightarrow> [code_etc1 be (if dither then dither_block simd (image_block id src width k) else bytes_of (image_block id src width k))]
     | Etc2_RGB \<Rightarrow> [code_etc2 be k (bytes_of (image_block id src width k)) h]
     | Dxt1 \<Rightarrow> [fix_indices (ProcessRGB_dxt (if dither then Dither (bytes_of (dxt_block src width k)) else bytes_of (dxt_block src width k)))]
     | _ \<Rightarrow> [])"

definition rgba_block_words :: "block_encoders \<Rightarrow> u32 list \<Rightarrow> nat \<Rightarrow> bool \<Rightarrow> Type \<Rightarrow> nat \<Rightarrow> u64 list" where
  "rgba_block_words be src width h ty k = (case ty of
       Etc2_RGBA \<Rightarrow> [code_eac be (image_block alpha_byte src width k),
         code_etc2 be (2 * k + 1) (bytes_of (image_block id src width k)) h]
     | Dxt5 \<Rightarrow> [ProcessAlpha (fst (split_alpha (dxt_block src width k))),
         fix_indices (ProcessRGB_dxt (bytes_of (snd (split_alpha (dxt_block src width k)))))]
     | _ \<Rightarrow> [])"

definition takes_rgb :: "Channels \<Rightarrow> Type \<Rightarrow> bool" where
  "takes_rgb type ty \<longleftrightarrow> type = Alpha \<or> ty = Etc1 \<or> ty = Etc2_RGB \<or> ty = Dxt1"

definition takes_rgba :: "Type \<Rightarrow> bool" where
  "takes_rgba ty \<longleftrightarrow> ty = Etc2_RGBA \<or> ty = Dxt5"

lemma length_block_words: "takes_rgb type ty \<Longrightarrow> length (block_words simd be src width type dither h ty k) = 1"
  by (cases type; cases ty) (simp_all add: block_words_def takes_rgb_def)

lemma length_rgba_block_words: "takes_rgba ty \<Longrightarrow> length (rgba_block_words be src width h ty k) = 2"
  by (cases ty) (simp_all add: rgba_block_words_def takes_rgba_def)

lemma concat_singles: "concat (map (\<lambda>k. [f k]) xs) = map f xs"
  by (induction xs) simp_all

lemma Process_blocks:
  assumes "width = 4 * n" "0 < n"
  shows "Process simd be src blocks offset width type dither h bd = (if reads_within src width blocks \<and> takes_rgb type (m_type bd)
    then put_words offset (concat (map (block_words simd be src width type dither h (m_type bd)) [0..<loop_count blocks])) bd else None)"
  by (cases type; cases "m_type bd")
    (simp_all add: Process_def takes_rgb_def block_words_def [abs_def] concat_singles CompressEtc1Rgb_blocks [OF assms]
      CompressEtc1Alpha_blocks [OF assms] CompressEtc2Alpha_blocks [OF assms] CompressEtc1RgbDither_blocks [OF assms]
      CompressEtc2Rgb_blocks [OF assms] CompressDxt1_blocks [OF assms] CompressDxt1Dither_blocks [OF assms])

lemma ProcessRGBA_blocks:
  assumes "width = 4 * n" "0 < n"
  shows "ProcessRGBA simd be src blocks offset width h bd = (if reads_within src width blocks \<and> takes_rgba (m_type bd)
    then put_words (2 * offset) (concat (map (rgba_block_words be src width h (m_type bd)) [0..<loop_count blocks])) bd else None)"
  by (cases "m_type bd")
    (simp_all add: ProcessRGBA_def takes_rgba_def rgba_block_words_def [abs_def] CompressEtc2Rgba_blocks [OF assms] CompressDxt5_blocks [OF assms]
      mult.commute [of 2])

lemma length_concat_words:
  "(\<And>k. length (f k) = c) \<Longrightarrow> length (concat (map f [0..<m])) = c * m"
  by (induction m) simp_all

lemma length_file_words:
  "takes_rgb type ty \<Longrightarrow> length (concat (map (block_words simd be src width type dither h ty) [0..<m])) = m"
  using length_concat_words [of "block_words simd be src width type dither h ty" 1 m] by (simp add: length_block_words)

lemma length_rgba_file_words: "takes_rgba ty \<Longrightarrow> length (concat (map (rgba_block_words be src width h ty) [0..<m])) = 2 * m"
  using length_concat_words [of "rgba_block_words be src width h ty" 2 m] by (simp add: length_rgba_block_words)

lemma put_words_fails: "put_words offset ws bd = None \<longleftrightarrow> length (m_data bd) < m_dataOffset bd + 8 * offset + 8 * length ws"
  by (auto simp: put_words_def store64_def split: Option.bind_splits)



end
