(* ===== verification/GpuImage.thy ===== *)
theory GpuImage imports Memory EtcMath begin

text \<open>
  The image in which the blocks of a second compression pass are handed to the encoder on the GPU: the
  tiles that \<open>ProcessWithGPU\<close> lays out (\<open>src/BlockDataGPU.cpp\<close>) and the conversion of
  \<open>CpuImage\<close> (\<open>src/betsy/betsy/CpuImage.cpp\<close>) through FreeImage.  An image is the list of its bytes.
\<close>

text \<open>\<open>int a = std::sqrt(limit)\<close>: the largest integer whose square is not above the argument.\<close>

definition isqrt :: "nat \<Rightarrow> nat" where
  "isqrt n = length (filter (\<lambda>k. k * k \<le> n) [1..<n + 1])"

section \<open>The image\<close>

text \<open>The stores of one block, in order: row \<open>y\<close> of the reported colours goes to row \<open>3 - y\<close> of the tile
  at \<open>(ox, oy)\<close>.\<close>

definition copy_tile :: "nat \<Rightarrow> nat \<times> nat \<Rightarrow> u8 list \<Rightarrow> (nat \<times> u8) list" where
  "copy_tile pitch off bgr = (case off of (ox, oy) \<Rightarrow> concat (map (\<lambda>y. concat (map (\<lambda>x.
     let offset = pitch * (oy + (3 - y)) + 3 * (ox + x) in
     [(offset + 0, bgr ! (3 * (4 * y + x) + 0)),
      (offset + 1, bgr ! (3 * (4 * y + x) + 1)),
      (offset + 2, bgr ! (3 * (4 * y + x) + 2))]) [0..<4])) [0..<4]))"

definition next_tile :: "nat \<Rightarrow> nat \<times> nat \<Rightarrow> nat \<times> nat" where
  "next_tile width off = (case off of (ox, oy) \<Rightarrow> let ox = ox + 4 in if ox \<ge> width then (0, oy + 4) else (ox, oy))"

definition gpu_writes :: "nat \<Rightarrow> u8 list list \<Rightarrow> (nat \<times> u8) list" where
  "gpu_writes width tiles = fst (fold (\<lambda>bgr (ws, off). (ws @ copy_tile (3 * width) off bgr, next_tile width off)) tiles ([], (0, 0)))"

text \<open>The size of the array, the length of a line and the offsets are of type \<open>int\<close>: a size above its range
  is undefined, and so is a store outside of the array: \<open>None\<close>.  Below that size nothing overflows: the width and
  the length of a line are at most the size, and the offsets of the stores are below it.\<close>

definition GpuImage :: "u8 list list \<Rightarrow> nat \<Rightarrow> nat \<Rightarrow> u8 list option" where
  "GpuImage tiles width height = (let n = 3 * width * height; ws = gpu_writes width tiles in
     if n < 2 ^ 31 \<and> list_all (\<lambda>(i, v). i < n) ws then Some (fold (\<lambda>(i, v) img. img[i := v]) ws (replicate n 0)) else None)"

text \<open>\<open>FreeImage_ConvertFromRawBits\<close> for 24 bits per pixel, with \<open>topdown\<close>, as scan lines padded to four
  bytes; and \<open>CpuImage::RGB8toRGBA8\<close>, which writes the line at the bottom first.\<close>

definition ConvertFromRawBits :: "u8 list \<Rightarrow> nat \<Rightarrow> nat \<Rightarrow> nat \<Rightarrow> bool \<Rightarrow> u8 list list" where
  "ConvertFromRawBits bits width height pitch topdown = (let
     dib = map (\<lambda>y. take (3 * width) (drop (pitch * y) bits)) [0..<height]
   in if topdown then rev dib else dib)"

definition line_pitch :: "nat \<Rightarrow> nat" where
  "line_pitch width = (3 * width + 3) div 4 * 4"

definition GetBits :: "nat \<Rightarrow> u8 list list \<Rightarrow> u8 list" where
  "GetBits width dib = concat (map (\<lambda>l. take (line_pitch width) (l @ replicate 3 0)) dib)"

definition RGB8toRGBA8 :: "u8 list \<Rightarrow> nat \<Rightarrow> nat \<Rightarrow> nat \<Rightarrow> u8 list" where
  "RGB8toRGBA8 srcData bytesPerRow imgWidth imgHeight = concat (map (\<lambda>row. let y = imgHeight - row - 1 in
     concat (map (\<lambda>x. let p = bytesPerRow * y + 3 * x; b = srcData ! p; g = srcData ! (p + 1); r = srcData ! (p + 2) in
       [r, g, b, 0xFF]) [0..<imgWidth])) [0..<imgHeight])"

definition CpuImage :: "u8 list \<Rightarrow> nat \<Rightarrow> nat \<Rightarrow> u8 list" where
  "CpuImage bits width height =
     RGB8toRGBA8 (GetBits width (ConvertFromRawBits bits width height (3 * width) True)) (line_pitch width) width height"

section \<open>Square roots and offsets\<close>

lemma isqrt_bounds: "isqrt n * isqrt n \<le> n" "n < (isqrt n + 1) * (isqrt n + 1)"
proof -
  define f where "f m = length (filter (\<lambda>k. k * k \<le> n) [1..<m + 1])" for m
  have "f m * f m \<le> n \<and> (f m = m \<or> n < (f m + 1) * (f m + 1))" for m
  proof (induction m)
    case (Suc m)
    then show ?case
    proof (cases "Suc m * Suc m \<le> n")
      case True
      have "f m = m"
      proof (rule ccontr)
        assume "f m \<noteq> m"
        moreover have "f m \<le> length [1..<m + 1]" unfolding f_def by (rule length_filter_le)
        then have "f m \<le> m" unfolding length_upt by simp
        ultimately have "(f m + 1) * (f m + 1) \<le> Suc m * Suc m" by (intro mult_le_mono) simp_all
        then show False using Suc \<open>f m \<noteq> m\<close> True by linarith
      qed
      then show ?thesis using True by (simp add: f_def)
    next
      case False
      then have "f (Suc m) = f m" by (simp add: f_def)
      then show ?thesis using Suc False by auto
    qed
  qed (simp add: f_def)
  from this [of n] show "isqrt n * isqrt n \<le> n" "n < (isqrt n + 1) * (isqrt n + 1)"
    by (auto simp: f_def isqrt_def)
qed

lemma fold_writes:
  assumes "\<forall>(i, v) \<in> set ws. v = f i" "i < length xs"
  shows "fold (\<lambda>(i, v) img. img[i := v]) ws xs ! i = (if i \<in> fst ` set ws then f i else xs ! i)"
  using assms
proof (induction ws arbitrary: xs)
  case (Cons w ws)
  obtain j v where w: "w = (j, v)" by force
  then show ?case using Cons.prems Cons.IH [of "xs[j := v]"] by (auto simp: nth_list_update)
qed simp

lemma length_fold_writes: "length (fold (\<lambda>(i, v) img. img[i := v]) ws xs) = length xs"
  by (induction ws arbitrary: xs) auto

section \<open>The tiles\<close>

lemma tile_offset:
  assumes "width = 4 * n" "0 < n"
  shows "((\<lambda>(ws, off). (ws @ copy_tile p off bgr, next_tile width off)) (ws, (4 * (k mod n), 4 * (k div n)))) =
    (ws @ copy_tile p (4 * (k mod n), 4 * (k div n)) bgr, (4 * (Suc k mod n), 4 * (Suc k div n)))"
proof (cases "Suc k mod n = 0")
  case True
  then have "Suc (k mod n) = n" "Suc k div n = Suc (k div n)" by (auto simp: mod_Suc div_Suc split: if_splits)
  then show ?thesis using True assms by (simp add: next_tile_def)
next
  case False
  then have "Suc (k mod n) \<noteq> n" "Suc k mod n = Suc (k mod n)" "Suc k div n = k div n"
    by (auto simp: mod_Suc div_Suc split: if_splits)
  moreover have "Suc (k mod n) < n" using calculation(1) assms(2) by (meson Suc_leI linorder_neqE_nat mod_less_divisor not_le)
  ultimately show ?thesis using assms by (simp add: next_tile_def)
qed

lemma gpu_writes_tiles:
  assumes "width = 4 * n" "0 < n"
  shows "gpu_writes width tiles =
    concat (map (\<lambda>k. copy_tile (3 * width) (4 * (k mod n), 4 * (k div n)) (tiles ! k)) [0..<length tiles])"
proof -
  let ?f = "\<lambda>bgr (ws, off). (ws @ copy_tile (3 * width) off bgr, next_tile width off)"
  have "fold ?f tiles ([], (0, 0)) = (concat (map (\<lambda>k. copy_tile (3 * width) (4 * (k mod n), 4 * (k div n)) (tiles ! k)) [0..<length tiles]),
      (4 * (length tiles mod n), 4 * (length tiles div n)))"
  proof (induction tiles rule: rev_induct)
    case (snoc t ts)
    have "concat (map (\<lambda>k. copy_tile (3 * width) (4 * (k mod n), 4 * (k div n)) ((ts @ [t]) ! k)) [0..<length ts]) =
        concat (map (\<lambda>k. copy_tile (3 * width) (4 * (k mod n), 4 * (k div n)) (ts ! k)) [0..<length ts])"
      by (rule arg_cong [where f = concat], rule map_cong) (simp_all add: nth_append)
    then show ?case using tile_offset [OF assms, of "3 * width" t _ "length ts"] by (simp add: snoc)
  qed simp
  then show ?thesis by (simp add: gpu_writes_def)
qed

text \<open>The value that belongs at an offset of the image.\<close>

definition tile_value :: "nat \<Rightarrow> u8 list list \<Rightarrow> nat \<Rightarrow> u8" where
  "tile_value width tiles i = (let row = i div (3 * width); col = i mod (3 * width) div 3 in
     tiles ! (row div 4 * (width div 4) + col div 4) ! (3 * (4 * (3 - row mod 4) + col mod 4) + i mod 3))"

definition tile_index :: "nat \<Rightarrow> nat \<Rightarrow> nat \<Rightarrow> nat \<Rightarrow> nat \<Rightarrow> nat" where
  "tile_index width k y x c = 3 * width * (4 * (k div (width div 4)) + y) + 3 * (4 * (k mod (width div 4)) + x) + c"

lemma copy_tile_writes:
  "set (copy_tile (3 * width) (4 * (k mod n), 4 * (k div n)) bgr) = {(3 * width * (4 * (k div n) + (3 - y)) + 3 * (4 * (k mod n) + x) + c,
     bgr ! (3 * (4 * y + x) + c)) | x y c. x < 4 \<and> y < 4 \<and> c < 3}"
proof -
  have "{0..<3::nat} = {0, 1, 2}" by auto
  have "set (copy_tile (3 * width) (4 * (k mod n), 4 * (k div n)) bgr) = (\<Union>y \<in> {0..<4}. \<Union>x \<in> {0..<4}. \<Union>c \<in> {0, 1, 2}.
      {(3 * width * (4 * (k div n) + (3 - y)) + 3 * (4 * (k mod n) + x) + c, bgr ! (3 * (4 * y + x) + c))})"
    unfolding copy_tile_def prod.case Let_def by (simp del: upt_rec_numeral add: insert_commute)
  then show ?thesis unfolding \<open>{0..<3::nat} = {0, 1, 2}\<close> [symmetric] by fastforce
qed

lemma div_mod_offset:
  fixes w r x c :: nat
  assumes "x < w" "c < 3"
  shows "(3 * w * r + 3 * x + c) div (3 * w) = r" "(3 * w * r + 3 * x + c) mod (3 * w) div 3 = x"
    "(3 * w * r + 3 * x + c) mod 3 = c"
proof -
  have "3 * x + c < 3 * w" using assms by linarith
  then have "(3 * w * r + (3 * x + c)) div (3 * w) = r" "(3 * w * r + (3 * x + c)) mod (3 * w) = 3 * x + c" by simp_all
  moreover have "(3 * x + c) div 3 = x" using assms(2) by simp
  ultimately show "(3 * w * r + 3 * x + c) div (3 * w) = r" "(3 * w * r + 3 * x + c) mod (3 * w) div 3 = x"
    by (simp_all only: add.assoc)
  have "(3 * w * r + 3 * x + c) = 3 * (w * r + x) + c" by simp
  then show "(3 * w * r + 3 * x + c) mod 3 = c" using assms(2) by (simp only: mod_mult_self4) simp
qed

lemma in_tile: "k mod n = q \<Longrightarrow> 0 < n \<Longrightarrow> x < 4 \<Longrightarrow> 4 * q + x < 4 * (n :: nat)"
proof -
  assume "k mod n = q" "0 < n" "x < 4"
  then have "q < n" by auto
  then show ?thesis using \<open>x < 4\<close> by linarith
qed

lemma tile_value_write:
  assumes "width = 4 * n" "0 < n" "x < 4" "y < 4" "c < 3"
  shows "tile_value width tiles (3 * width * (4 * (k div n) + (3 - y)) + 3 * (4 * (k mod n) + x) + c) = tiles ! k ! (3 * (4 * y + x) + c)"
proof -
  have lt: "4 * (k mod n) + x < width" using in_tile [OF refl assms(2,3), of k] assms(1) by simp
  have dm: "(4 * q + z) div 4 = q" "(4 * q + z) mod 4 = z" if "z < 4" for q z :: nat using that by simp_all
  have "3 - y < 4" by simp
  note dm = dm [OF assms(3)] dm [OF this]
  have d: "(4 * (k div n) + (3 - y)) div 4 = k div n" "(4 * (k div n) + (3 - y)) mod 4 = 3 - y"
    "(4 * (k mod n) + x) div 4 = k mod n" "(4 * (k mod n) + x) mod 4 = x" "width div 4 = n"
    using assms(1) by (simp_all only: dm)
  have "3 - (3 - y) = y" "k div n * n + k mod n = k" using assms(4) by auto
  then show ?thesis unfolding tile_value_def Let_def div_mod_offset [OF lt assms(5)] d by simp
qed

lemma gpu_writes_set:
  assumes "width = 4 * n" "0 < n"
  shows "(i, v) \<in> set (gpu_writes width tiles) \<longleftrightarrow> (\<exists>k x y c. k < length tiles \<and> x < 4 \<and> y < 4 \<and> c < 3 \<and>
    i = 3 * width * (4 * (k div n) + (3 - y)) + 3 * (4 * (k mod n) + x) + c \<and> v = tiles ! k ! (3 * (4 * y + x) + c))"
proof -
  have "(i, v) \<in> set (gpu_writes width tiles) \<longleftrightarrow>
      (\<exists>k < length tiles. (i, v) \<in> set (copy_tile (3 * width) (4 * (k mod n), 4 * (k div n)) (tiles ! k)))"
    unfolding gpu_writes_tiles [OF assms] by (auto simp: Bex_def)
  then show ?thesis unfolding copy_tile_writes by blast
qed

lemma gpu_writes_values:
  assumes "width = 4 * n" "0 < n"
  shows "\<forall>(i, v) \<in> set (gpu_writes width tiles). v = tile_value width tiles i"
  using tile_value_write [OF assms] gpu_writes_set [OF assms] by fastforce

lemma gpu_writes_bound:
  assumes "width = 4 * n" "0 < n" "length tiles \<le> n * m"
  shows "list_all (\<lambda>(i, v). i < 3 * width * (4 * m)) (gpu_writes width tiles)"
proof -
  have "3 * width * (4 * (k div n) + (3 - y)) + 3 * (4 * (k mod n) + x) + c < 3 * width * (4 * m)"
    if "k < length tiles" "x < 4" "y < 4" "c < 3" for k x y c
  proof -
    have "k < m * n" using that(1) assms(3) by (simp add: mult.commute)
    then have "k div n < m" by (rule less_mult_imp_div_less)
    then have "4 * (k div n) + (3 - y) + 1 \<le> 4 * m" by linarith
    then have "3 * width * (4 * (k div n) + (3 - y) + 1) \<le> 3 * width * (4 * m)" by (intro mult_le_mono2)
    moreover have "3 * (4 * (k mod n) + x + 1) \<le> 3 * width"
      using in_tile [OF refl assms(2) that(2), of k] assms(1) by (intro mult_le_mono2) simp
    ultimately show ?thesis using that(4) by (simp add: algebra_simps)
  qed
  then show ?thesis using gpu_writes_set [OF assms(1,2)] unfolding list_all_iff by fastforce
qed

lemma gpu_writes_offsets:
  assumes "width = 4 * n" "0 < n" "k < length tiles" "y < 4" "x < 4" "c < 3"
  shows "tile_index width k y x c \<in> fst ` set (gpu_writes width tiles)"
proof -
  have "width div 4 = n" "3 - (3 - y) = y" "3 - y < 4" using assms by auto
  then have "(tile_index width k y x c, tiles ! k ! (3 * (4 * (3 - y) + x) + c)) \<in> set (gpu_writes width tiles)"
    unfolding gpu_writes_set [OF assms(1,2)] tile_index_def using assms(3,5,6) by (intro exI [of _ k] exI [of _ x] exI [of _ "3 - y"] exI [of _ c]) simp
  then show ?thesis by force
qed

text \<open>Every store is inside of the image, and the tile of block \<open>k\<close> shows its rows upside down.\<close>

lemma GpuImage_tiles:
  assumes "width = 4 * n" "0 < n" "length tiles \<le> n * m" "3 * width * (4 * m) < 2 ^ 31"
  shows "\<exists>img. GpuImage tiles width (4 * m) = Some img \<and> length img = 3 * width * (4 * m) \<and>
    (\<forall>k < length tiles. \<forall>y < 4. \<forall>x < 4. \<forall>c < 3. img ! tile_index width k y x c = tiles ! k ! (3 * (4 * (3 - y) + x) + c))"
proof -
  let ?N = "3 * width * (4 * m)" and ?ws = "gpu_writes width tiles"
  let ?img = "fold (\<lambda>(i, v) img. img[i := v]) ?ws (replicate ?N 0)"
  have len: "length ?img = ?N" by (simp only: length_fold_writes length_replicate)
  have some: "GpuImage tiles width (4 * m) = Some ?img"
    using gpu_writes_bound [OF assms(1-3)] assms(4) by (simp add: GpuImage_def Let_def)
  have "?img ! tile_index width k y x c = tiles ! k ! (3 * (4 * (3 - y) + x) + c)"
    if "k < length tiles" "y < 4" "x < 4" "c < 3" for k y x c
  proof -
    note off = gpu_writes_offsets [OF assms(1,2) that]
    have "tile_index width k y x c < ?N" using gpu_writes_bound [OF assms(1-3)] off by (auto simp: list_all_iff)
    then have "?img ! tile_index width k y x c = tile_value width tiles (tile_index width k y x c)"
      using fold_writes [OF gpu_writes_values [OF assms(1,2)]] off by simp
    also have "\<dots> = tiles ! k ! (3 * (4 * (3 - y) + x) + c)"
    proof -
      have "3 - (3 - y) = y" "width div 4 = n" "3 - y < 4" using that(2) assms(1) by auto
      then show ?thesis
        using tile_value_write [OF assms(1,2) that(3), of "3 - y" c tiles k] that(4) by (simp add: tile_index_def)
    qed
    finally show ?thesis .
  qed
  then show ?thesis using some len by blast
qed

section \<open>The image that the encoder sees\<close>

lemma length_concat_map: "(\<And>k. k < n \<Longrightarrow> length (f k) = m) \<Longrightarrow> length (concat (map f [0..<n])) = m * n"
  by (induction n) simp_all

lemma take_drop_concat:
  assumes "\<And>k. k < n \<Longrightarrow> length (f k) = m" "k < n"
  shows "take m (drop (m * k) (concat (map f [0..<n]))) = f k"
proof -
  have "m * k + m \<le> m * n" using assms(2) mult_le_mono2 [of "Suc k" n m] by simp
  then have len: "length (take m (drop (m * k) (concat (map f [0..<n])))) = m"
    using length_concat_map [of n f m] assms(1) by simp
  show ?thesis
  proof (rule nth_equalityI)
    show "length (take m (drop (m * k) (concat (map f [0..<n])))) = length (f k)" using len assms by simp
    fix i assume "i < length (take m (drop (m * k) (concat (map f [0..<n]))))"
    then have "i < m" using len by simp
    then show "take m (drop (m * k) (concat (map f [0..<n]))) ! i = f k ! i"
      using concat_map_nth [of n f m i k] length_concat_map [of n f m] assms \<open>m * k + m \<le> m * n\<close> by simp
  qed
qed

lemma GetBits_nth:
  assumes "length dib = h" "\<forall>l \<in> set dib. length l = 3 * w" "y < h" "i < 3 * w"
  shows "GetBits w dib ! (line_pitch w * y + i) = dib ! y ! i"
proof -
  have p: "3 * w \<le> line_pitch w" "line_pitch w \<le> 3 * w + 3" unfolding line_pitch_def by presburger+
  let ?f = "\<lambda>y. take (line_pitch w) (dib ! y @ replicate 3 0)"
  have "map (\<lambda>l. take (line_pitch w) (l @ replicate 3 0)) dib = map ?f [0..<h]"
    by (rule nth_equalityI) (simp_all add: assms(1))
  then have g: "GetBits w dib = concat (map ?f [0..<h])" by (simp only: GetBits_def)
  have len: "length (?f y) = line_pitch w" if "y < h" for y
    using assms(1,2) that p by (simp add: nth_mem)
  have i: "i < line_pitch w" using assms(4) p by linarith
  have "GetBits w dib ! (line_pitch w * y + i) = ?f y ! i"
    unfolding g by (rule concat_map_nth [OF len i assms(3)])
  then show ?thesis using assms p by (simp add: nth_append nth_mem)
qed

definition rgba_pixel :: "u8 list \<Rightarrow> nat \<Rightarrow> u8 list" where
  "rgba_pixel src p = [src ! (p + 2), src ! (p + 1), src ! p, 0xFF]"

lemma length_rgba_pixel: "length (rgba_pixel src p) = 4"
  by (simp add: rgba_pixel_def)

lemma CpuImage_rows:
  "CpuImage img w h = concat (map (\<lambda>row. concat (map (\<lambda>x. rgba_pixel (GetBits w (ConvertFromRawBits img w h (3 * w) True))
     (line_pitch w * (h - row - 1) + 3 * x)) [0..<w])) [0..<h])"
  by (simp add: CpuImage_def RGB8toRGBA8_def rgba_pixel_def Let_def)

lemma length_CpuImage: "length (CpuImage img w h) = 4 * (w * h)"
  using length_concat_map [of h _ "4 * w", OF length_concat_map [OF length_rgba_pixel]] by (simp add: CpuImage_rows mult.assoc)

text \<open>The conversion turns the image over twice: pixel \<open>(x, y)\<close> stays at its place, as RGBA.\<close>

lemma CpuImage_pixel:
  assumes "length img = 3 * w * h" "y < h" "x < w" "c < 4"
  shows "CpuImage img w h ! (4 * (w * y + x) + c) =
      [img ! (3 * w * y + 3 * x + 2), img ! (3 * w * y + 3 * x + 1), img ! (3 * w * y + 3 * x), 0xFF] ! c"
proof -
  let ?dib = "ConvertFromRawBits img w h (3 * w) True"
  let ?src = "GetBits w ?dib" and ?p = "line_pitch w"
  let ?px = "\<lambda>y x. rgba_pixel ?src (?p * y + 3 * x)"
  have i: "4 * x + c < 4 * w" using assms(3,4) by linarith
  have "CpuImage img w h ! (4 * w * y + (4 * x + c)) = concat (map (?px (h - y - 1)) [0..<w]) ! (4 * x + c)"
    unfolding CpuImage_rows by (rule concat_map_nth [OF length_concat_map [OF length_rgba_pixel] i assms(2)])
  also have "\<dots> = ?px (h - y - 1) x ! c" by (rule concat_map_nth [OF length_rgba_pixel assms(4,3)])
  finally have e: "CpuImage img w h ! (4 * (w * y + x) + c) = ?px (h - y - 1) x ! c" by (simp add: algebra_simps)
  have dib: "length ?dib = h" "\<forall>l \<in> set ?dib. length l = 3 * w"
  proof -
    show "length ?dib = h" by (simp add: ConvertFromRawBits_def)
    have "3 * w * y + 3 * w \<le> 3 * w * h" if "y < h" for y
      using mult_le_mono2 [of "Suc y" h "3 * w"] that by simp
    then show "\<forall>l \<in> set ?dib. length l = 3 * w" using assms(1) by (fastforce simp: ConvertFromRawBits_def min_def)
  qed
  have line: "?dib ! (h - y - 1) ! i = img ! (3 * w * y + i)" if "i < 3 * w" for i
  proof -
    have "h - Suc (h - y - 1) = y" using assms(2) by simp
    moreover have "3 * w * y + 3 * w \<le> 3 * w * h" using mult_le_mono2 [of "Suc y" h "3 * w"] assms(2) by simp
    ultimately show ?thesis using assms(1,2) that by (simp add: ConvertFromRawBits_def rev_nth)
  qed
  have "?src ! (?p * (h - y - 1) + i) = img ! (3 * w * y + i)" if "i < 3 * w" for i
    using GetBits_nth [OF dib, of "h - y - 1" i] line [OF that] assms(2) that by simp
  from this [of "3 * x"] this [of "3 * x + 1"] this [of "3 * x + 2"]
  show "CpuImage img w h ! (4 * (w * y + x) + c) =
      [img ! (3 * w * y + 3 * x + 2), img ! (3 * w * y + 3 * x + 1), img ! (3 * w * y + 3 * x), 0xFF] ! c"
    unfolding e rgba_pixel_def using assms(3) by (simp add: add.assoc)
qed

text \<open>The 16 pixels of tile \<open>k\<close> of an RGBA image, row by row, and those of a reported block, right side up.\<close>

definition tile_of :: "u8 list \<Rightarrow> nat \<Rightarrow> nat \<Rightarrow> u8 list" where
  "tile_of data width k = map (\<lambda>j. let y = j div 16; i = j mod 16 in
     data ! (4 * (width * (4 * (k div (width div 4)) + y) + 4 * (k mod (width div 4))) + i)) [0..<64]"

definition upright :: "u8 list \<Rightarrow> u8 list" where
  "upright bgr = map (\<lambda>j. let y = j div 16; x = j mod 16 div 4; p = 3 * (4 * (3 - y) + x) in
     [bgr ! (p + 2), bgr ! (p + 1), bgr ! p, 0xFF] ! (j mod 4)) [0..<64]"

lemma tile_of_image:
  assumes "width = 4 * n" "0 < n" "length tiles \<le> n * m" "GpuImage tiles width (4 * m) = Some img" "k < length tiles"
  shows "tile_of (CpuImage img width (4 * m)) width k = upright (tiles ! k)"
proof (rule nth_equalityI)
  show "length (tile_of (CpuImage img width (4 * m)) width k) = length (upright (tiles ! k))"
    by (simp add: tile_of_def upright_def)
  fix j assume "j < length (tile_of (CpuImage img width (4 * m)) width k)"
  then have j: "j < 64" by (simp add: tile_of_def)
  have small: "3 * width * (4 * m) < 2 ^ 31" using assms(4) by (auto simp: GpuImage_def Let_def split: if_splits)
  obtain img' where "GpuImage tiles width (4 * m) = Some img'" and len': "length img' = 3 * width * (4 * m)"
    and tiles: "\<forall>k < length tiles. \<forall>y < 4. \<forall>x < 4. \<forall>c < 3. img' ! tile_index width k y x c = tiles ! k ! (3 * (4 * (3 - y) + x) + c)"
    using GpuImage_tiles [OF assms(1-3) small] by blast
  then have i: "img' = img" using assms(4) by simp
  note len = len' [unfolded i]
  have img: "img ! tile_index width k y x c = tiles ! k ! (3 * (4 * (3 - y) + x) + c)" if "y < 4" "x < 4" "c < 3" for y x c
    using tiles [unfolded i] assms(5) that by blast
  define y x c where "y = j div 16" and "x = j mod 16 div 4" and "c = j mod 4"
  define Y X where "Y = 4 * (k div n) + y" and "X = 4 * (k mod n) + x"
  have b: "y < 4" "x < 4" "c < 4" using j by (simp_all add: y_def x_def c_def less_mult_imp_div_less)
  have jm: "j mod 16 = 4 * x + c" 
    using mult_div_mod_eq [of 4 "j mod 16"] mod_mod_cancel [of 4 16 j] by (simp add: x_def c_def)
  have wn: "width div 4 = n" using assms(1) by simp
  have "k < m * n" using assms(3,5) by (simp add: mult.commute)
  then have "k div n < m" by (rule less_mult_imp_div_less)
  then have Y: "Y < 4 * m" using b(1) by (simp add: Y_def)
  have X: "X < width" using in_tile [OF refl assms(2) b(2), of k] assms(1) by (simp add: X_def)
  have at: "4 * (width * (4 * (k div n) + y) + 4 * (k mod n)) + (4 * x + c) = 4 * (width * Y + X) + c"
    by (simp add: Y_def X_def)
  have ti: "tile_index width k y x c' = 3 * width * Y + 3 * X + c'" for c'
    by (simp add: tile_index_def wn Y_def X_def)
  have "tile_of (CpuImage img width (4 * m)) width k ! j = CpuImage img width (4 * m) ! (4 * (width * Y + X) + c)"
    using j by (simp only: tile_of_def Let_def wn jm y_def [symmetric] at nth_map length_upt nth_upt add_0 minus_nat.diff_0)
  also have "\<dots> = [img ! (3 * width * Y + 3 * X + 2), img ! (3 * width * Y + 3 * X + 1), img ! (3 * width * Y + 3 * X), 0xFF] ! c"
    by (rule CpuImage_pixel [OF len Y X b(3)])
  also have "\<dots> = [tiles ! k ! (3 * (4 * (3 - y) + x) + 2), tiles ! k ! (3 * (4 * (3 - y) + x) + 1), tiles ! k ! (3 * (4 * (3 - y) + x)), 0xFF] ! c"
    using img [OF b(1,2), of 0] img [OF b(1,2), of 1] img [OF b(1,2), of 2] unfolding ti by simp
  also have "\<dots> = upright (tiles ! k) ! j"
    using j by (simp only: upright_def Let_def y_def x_def c_def nth_map length_upt nth_upt add_0 minus_nat.diff_0)
  finally show "tile_of (CpuImage img width (4 * m)) width k ! j = upright (tiles ! k) ! j" .
qed

end
