(* ===== verification/GpuPass.thy ===== *)
theory GpuPass imports GpuImage Etc2Planar CompressImage "HOL-Library.Multiset" begin

text \<open>
  The second pass over the blocks with a high error (\<open>src/BlockDataGPU.cpp\<close>, \<open>ProcessWithGPU\<close> with the
  array of reported blocks): the worst ones are laid out as the tiles of an image, the image goes to the
  encoder on the GPU (\<open>src/betsy\<close>) and the blocks that come back replace the ones in the file.  The
  shaders are a parameter \<open>encode\<close> of the model, and so is \<open>std::sort\<close>.  The file is the list of its
  64-bit words; the address of a block is an index into it.
\<close>

section \<open>Which blocks\<close>

text \<open>\<open>uint64_t limit = pipeSize * quality\<close>: a product of floats.\<close>

definition gpu_limit :: "int \<Rightarrow> rat \<Rightarrow> int" where
  "gpu_limit pipeSize quality = int_of_float (fmul (float_of_int pipeSize) quality)"

text \<open>The quality of the three modes of the program.\<close>

definition mode_quality :: "bool \<Rightarrow> bool \<Rightarrow> rat" where
  "mode_quality modeFast modeNormal = (if modeFast then rnd (1 / 10) else if modeNormal then rnd (4 / 10) else 1)"

text \<open>The contract of \<open>std::sort\<close> with the comparison \<open>cmp\<close>: a permutation in decreasing order of error;
  the order of equal errors is not specified.\<close>

definition cmp :: "PixBlock \<Rightarrow> PixBlock \<Rightarrow> bool" where
  "cmp a b \<longleftrightarrow> pix_error a > pix_error b"

definition sorts :: "(PixBlock list \<Rightarrow> PixBlock list) \<Rightarrow> bool" where
  "sorts srt \<longleftrightarrow> (\<forall>xs. mset (srt xs) = mset xs \<and> sorted_wrt (\<lambda>a b. \<not> cmp b a) (srt xs))"

section \<open>Back into the file\<close>

text \<open>\<open>EncoderETC2::saveToOffset\<close>: the index bytes are swapped and swapped back.\<close>

definition saveToOffset :: "u8 list \<Rightarrow> u64" where
  "saveToOffset result = (let final_data =
     push_bit 0 (ucast (result ! 0)) OR push_bit 8 (ucast (result ! 1)) OR push_bit 16 (ucast (result ! 2)) OR
     push_bit 24 (ucast (result ! 3)) OR push_bit 56 (ucast (result ! 4)) OR push_bit 48 (ucast (result ! 5)) OR
     push_bit 40 (ucast (result ! 6)) OR push_bit 32 (ucast (result ! 7))
   in FixByteOrder final_data)"

definition store_block :: "nat \<Rightarrow> u64 \<Rightarrow> u64 list \<Rightarrow> u64 list option" where
  "store_block dst v file = (if dst < length file then Some (file[dst := v]) else None)"

definition save_all :: "PixBlock list \<Rightarrow> u8 list \<Rightarrow> u64 list \<Rightarrow> u64 list option" where
  "save_all buf result file = fold (\<lambda>i m. Option.bind m (store_block (address (buf ! i)) (saveToOffset (drop (8 * i) result))))
     [0..<length buf] (Some file)"

text \<open>The number \<open>pipeSize\<close> of reported blocks is an \<open>int\<close>, and to copy more of them than there are is
  undefined.\<close>

definition ProcessWithGPU :: "(PixBlock list \<Rightarrow> PixBlock list) \<Rightarrow> (u8 list \<Rightarrow> nat \<Rightarrow> nat \<Rightarrow> u8 list) \<Rightarrow> PixBlock list \<Rightarrow> rat \<Rightarrow>
    u64 list \<Rightarrow> u64 list option" where
  "ProcessWithGPU srt encode pipeline quality file = (let
     limit = nat (gpu_limit (int (length pipeline)) quality);
     pipeline = (if quality < 1 then srt pipeline else pipeline)
   in if length pipeline \<ge> 2 ^ 31 \<or> limit > length pipeline then None
      else let
        buf = take limit pipeline;
        a = isqrt limit;
        gpuImageWidth = a * 4 + 4;
        gpuImageHeight = a * 4 + 4
      in Option.bind (GpuImage (map bgrData buf) gpuImageWidth gpuImageHeight) (\<lambda>img.
        save_all buf (encode (CpuImage img gpuImageWidth gpuImageHeight) gpuImageWidth gpuImageHeight) file))"

section \<open>The encoder and the file\<close>

text \<open>What is expected of the encoder: eight bytes per tile, which depend on the pixels of the tile only.\<close>

definition encodes_tiles :: "(u8 list \<Rightarrow> nat \<Rightarrow> nat \<Rightarrow> u8 list) \<Rightarrow> (u8 list \<Rightarrow> u8 list) \<Rightarrow> bool" where
  "encodes_tiles encode blk \<longleftrightarrow> (\<forall>data width height. 4 dvd width \<and> 4 dvd height \<and> length data = 4 * (width * height) \<longrightarrow>
     length (encode data width height) = 8 * ((width div 4) * (height div 4)) \<and>
     (\<forall>k < (width div 4) * (height div 4). take 8 (drop (8 * k) (encode data width height)) = blk (tile_of data width k)))"

lemma saveToOffset_copies: "saveToOffset result = word64_of_bytes result"
  unfolding saveToOffset_def word64_of_bytes_def FixByteOrder_def Let_def
  by (rule word64_eqI) (simp add: upt_64 bitwise)

lemma word64_of_bytes_take: "8 \<le> length r \<Longrightarrow> word64_of_bytes (take 8 r) = word64_of_bytes r"
  by (simp add: word64_of_bytes_def)

lemma save_all_result:
  assumes "\<forall>p \<in> set buf. address p < length file" "distinct (map address buf)"
  shows "\<exists>file'. save_all buf result file = Some file' \<and> length file' = length file \<and>
    (\<forall>i < length buf. file' ! address (buf ! i) = saveToOffset (drop (8 * i) result)) \<and>
    (\<forall>a < length file. a \<notin> address ` set buf \<longrightarrow> file' ! a = file ! a)"
  using assms
proof (induction buf rule: rev_induct)
  case (snoc p ps)
  then obtain f where f: "save_all ps result file = Some f" "length f = length file"
    "\<And>i. i < length ps \<Longrightarrow> f ! address (ps ! i) = saveToOffset (drop (8 * i) result)"
    "\<And>a. a < length file \<Longrightarrow> a \<notin> address ` set ps \<Longrightarrow> f ! a = file ! a" by auto
  let ?f = "f[address p := saveToOffset (drop (8 * length ps) result)]"
  have eq: "fold (\<lambda>i m. Option.bind m (store_block (address ((ps @ [p]) ! i)) (saveToOffset (drop (8 * i) result)))) [0..<length ps] (Some file) =
      save_all ps result file"
    unfolding save_all_def by (rule fold_cong) (simp_all add: nth_append)
  have "save_all (ps @ [p]) result file = Some ?f"
    using snoc.prems(1) f(1,2) eq by (simp add: save_all_def store_block_def)
  moreover have "?f ! address ((ps @ [p]) ! i) = saveToOffset (drop (8 * i) result)" if "i < length (ps @ [p])" for i
  proof (cases "i < length ps")
    case True
    then have "address (ps ! i) \<noteq> address p" using snoc.prems(2) by (metis distinct_append image_eqI list.set_map nth_mem map_append
        disjoint_iff list.map(2) list.set_intros(1))
    then show ?thesis using f(3) [OF True] True by (simp add: nth_append)
  next
    case False
    then have "i = length ps" using that by simp
    then show ?thesis using snoc.prems(1) f(2) by simp
  qed
  moreover have "?f ! a = file ! a" if "a < length file" "a \<notin> address ` set (ps @ [p])" for a
    using f(4) that by auto
  ultimately show ?case using f(2) by auto
qed (simp add: save_all_def)

section \<open>The pass\<close>

lemma selected:
  fixes quality :: rat
  assumes "sorts srt" "limit \<le> length pipeline"
  defines "order \<equiv> (if quality < 1 then srt pipeline else pipeline)"
  shows "mset (take limit order) + mset (drop limit order) = mset pipeline" "length order = length pipeline"
    "quality < 1 \<Longrightarrow> p \<in> set (take limit order) \<Longrightarrow> q \<in> set (drop limit order) \<Longrightarrow> pix_error q \<le> pix_error p"
proof -
  have m: "mset order = mset pipeline" using assms(1) by (simp add: order_def sorts_def)
  then show "mset (take limit order) + mset (drop limit order) = mset pipeline" by (metis append_take_drop_id mset_append)
  show "length order = length pipeline" using m by (metis size_mset)
  assume "quality < 1" "p \<in> set (take limit order)" "q \<in> set (drop limit order)"
  moreover from this have "sorted_wrt (\<lambda>a b. \<not> cmp b a) (take limit order @ drop limit order)"
    using assms(1) by (simp add: order_def sorts_def)
  ultimately have "\<not> cmp q p" unfolding sorted_wrt_append by blast
  then show "pix_error q \<le> pix_error p" by (simp add: cmp_def not_less)
qed

text \<open>The tile of a block comes back as the block that the encoder makes of its colours.\<close>

lemma encoded_tile:
  assumes "encodes_tiles encode blk" "0 < n" "length tiles \<le> n * n" "GpuImage tiles (4 * n) (4 * n) = Some img" "i < length tiles"
  shows "saveToOffset (drop (8 * i) (encode (CpuImage img (4 * n) (4 * n)) (4 * n) (4 * n))) = word64_of_bytes (blk (upright (tiles ! i)))"
proof -
  let ?w = "4 * n"
  let ?result = "encode (CpuImage img ?w ?w) ?w ?w"
  have e: "length ?result = 8 * (n * n)" "\<forall>k < n * n. take 8 (drop (8 * k) ?result) = blk (tile_of (CpuImage img ?w ?w) ?w k)"
    using assms(1) [unfolded encodes_tiles_def, rule_format, of ?w ?w "CpuImage img ?w ?w"] length_CpuImage by simp_all
  have k: "i < n * n" using assms(3,5) by simp
  then have "8 * i + 8 \<le> 8 * (n * n)" by simp
  then have "8 \<le> length (drop (8 * i) ?result)" by (simp add: e(1))
  then have "saveToOffset (drop (8 * i) ?result) = word64_of_bytes (take 8 (drop (8 * i) ?result))"
    by (simp only: saveToOffset_copies word64_of_bytes_take)
  also have "\<dots> = word64_of_bytes (blk (upright (tiles ! i)))"
    using e(2) k tile_of_image [OF refl assms(2,3,4,5)] by simp
  finally show ?thesis .
qed

lemma selected_addresses:
  assumes "mset (take limit order) + mset (drop limit order) = mset pipeline" "distinct (map address pipeline)"
  shows "set (take limit order) \<subseteq> set pipeline" and "distinct (map address (take limit order))"
proof -
  show "set (take limit order) \<subseteq> set pipeline"
    using assms(1) by (metis mset_subset_eq_add_left set_mset_mono set_mset_mset)
  have "mset (map address order) = mset (map address pipeline)"
    using assms(1) by (metis append_take_drop_id mset_append mset_map)
  then have "distinct (map address order)" using assms(2) by (metis mset_eq_imp_distinct_iff)
  then show "distinct (map address (take limit order))" by (metis distinct_take take_map)
qed

text \<open>The image of fewer than \<open>6688 ^ 2\<close> blocks is at most \<open>26752\<close> pixels wide, and its size fits into an \<open>int\<close>.\<close>

lemma image_size_small:
  assumes "limit < 6688 ^ 2"
  shows "3 * (4 * (isqrt limit + 1)) * (4 * (isqrt limit + 1)) < 2 ^ 31"
proof -
  have "isqrt limit * isqrt limit < 6688 * 6688" using isqrt_bounds(1) [of limit] assms by (simp add: power2_eq_square)
  then have "isqrt limit < 6688" using mult_le_mono [of 6688 "isqrt limit" 6688 "isqrt limit"] by linarith
  then have "4 * (isqrt limit + 1) \<le> 26752" by simp
  from mult_le_mono [OF mult_le_mono2 [OF this, of 3] this] show ?thesis by simp
qed

lemma image_size_large:
  assumes "6688 ^ 2 \<le> limit"
  shows "2 ^ 31 \<le> 3 * (4 * (isqrt limit + 1)) * (4 * (isqrt limit + 1))"
proof -
  have "6688 * 6688 < (isqrt limit + 1) * (isqrt limit + 1)" using isqrt_bounds(2) [of limit] assms by (simp add: power2_eq_square)
  then have "6688 < isqrt limit + 1" using mult_le_mono [of "isqrt limit + 1" 6688 "isqrt limit + 1" 6688] by linarith
  then have "26756 \<le> 4 * (isqrt limit + 1)" by simp
  from mult_le_mono [OF mult_le_mono2 [OF this, of 3] this] show ?thesis by simp
qed

lemma gpu_pass_result:
  assumes "sorts srt" "encodes_tiles encode blk" "gpu_limit (int (length pipeline)) quality \<le> int (length pipeline)"
    and "distinct (map address pipeline)" "\<forall>p \<in> set pipeline. address p < length file"
    and "length pipeline < 2 ^ 31" "gpu_limit (int (length pipeline)) quality < 6688 ^ 2"
  shows "\<exists>sel rest file'. ProcessWithGPU srt encode pipeline quality file = Some file' \<and>
    mset sel + mset rest = mset pipeline \<and> length sel = nat (gpu_limit (int (length pipeline)) quality) \<and>
    (quality < 1 \<longrightarrow> (\<forall>p \<in> set sel. \<forall>q \<in> set rest. pix_error q \<le> pix_error p)) \<and>
    (\<forall>p \<in> set sel. file' ! address p = word64_of_bytes (blk (upright (bgrData p)))) \<and>
    (\<forall>a < length file. a \<notin> address ` set sel \<longrightarrow> file' ! a = file ! a) \<and> length file' = length file"
proof -
  define limit where "limit = nat (gpu_limit (int (length pipeline)) quality)"
  define order where "order = (if quality < 1 then srt pipeline else pipeline)"
  define buf where "buf = take limit order"
  define n where "n = isqrt limit + 1"
  let ?w = "4 * n" and ?tiles = "map bgrData buf"
  have lim: "limit \<le> length pipeline" using assms(3) by (simp add: limit_def nat_le_iff)
  note sel = selected [OF assms(1) lim, of quality, folded order_def]
  have len: "length buf = limit" using lim sel(2) by (simp add: buf_def)
  have fit: "length ?tiles \<le> n * n" using isqrt_bounds(2) [of limit] by (simp add: len n_def)
  obtain img where img: "GpuImage ?tiles ?w ?w = Some img" "length img = 3 * ?w * ?w"
    using GpuImage_tiles [OF refl _ fit] image_size_small [of limit] assms(7) by (auto simp: n_def limit_def)
  define result where "result = encode (CpuImage img ?w ?w) ?w ?w"
  note sub = selected_addresses [OF sel(1) assms(4), folded buf_def]
  obtain file' where f: "save_all buf result file = Some file'" "length file' = length file"
    "\<forall>i < length buf. file' ! address (buf ! i) = saveToOffset (drop (8 * i) result)"
    "\<forall>a < length file. a \<notin> address ` set buf \<longrightarrow> file' ! a = file ! a"
    using save_all_result [OF _ sub(2), of "file" result] sub(1) assms(5) by blast
  have pass: "ProcessWithGPU srt encode pipeline quality file = Some file'"
  proof -
    have "isqrt limit * 4 + 4 = ?w" by (simp add: n_def)
    then show ?thesis
      using img(1) f(1) lim sel(2) assms(6)
      by (simp add: ProcessWithGPU_def Let_def limit_def [symmetric] order_def [symmetric] buf_def [symmetric] result_def)
  qed
  have taken: "\<forall>p \<in> set buf. file' ! address p = word64_of_bytes (blk (upright (bgrData p)))"
  proof
    fix p assume "p \<in> set buf"
    then obtain i where i: "i < length buf" "p = buf ! i" by (auto simp: in_set_conv_nth)
    have "saveToOffset (drop (8 * i) result) = word64_of_bytes (blk (upright (?tiles ! i)))"
      using encoded_tile [OF assms(2) _ fit img(1), of i] i(1) by (simp add: n_def result_def)
    then show "file' ! address p = word64_of_bytes (blk (upright (bgrData p)))" using f(3) i by simp
  qed
  have worst: "quality < 1 \<longrightarrow> (\<forall>p \<in> set buf. \<forall>q \<in> set (drop limit order). pix_error q \<le> pix_error p)"
    unfolding buf_def using sel(3) by blast
  show ?thesis
    by (intro exI [of _ buf] exI [of _ "drop limit order"] exI [of _ file'] conjI)
      (fact pass sel(1) [folded buf_def] len [unfolded limit_def] worst taken f(2,4))+
qed

text \<open>From \<open>6688 ^ 2\<close> blocks on the size of the image overflows.\<close>

lemma gpu_pass_overflows:
  assumes "6688 ^ 2 \<le> gpu_limit (int (length pipeline)) quality"
  shows "ProcessWithGPU srt encode pipeline quality file = None"
proof -
  have "6688 ^ 2 \<le> nat (gpu_limit (int (length pipeline)) quality)" using assms by simp
  from image_size_large [OF this] show ?thesis
    by (simp add: ProcessWithGPU_def GpuImage_def Let_def algebra_simps)
qed

text \<open>C7: The second pass: when the reports are at least as many as the number of blocks that the quality asks for,
  which is below \<open>6688 ^ 2\<close> so that the size of the image is an \<open>int\<close>, and each of them has a place of its own
  in the file, no store leaves the image or the file; the blocks that are encoded again are among the reported ones, and below full
  quality no block that is left out has a larger error than one that is taken; each of them is replaced in
  the file by what the encoder makes of its own pixels, right side up, and nothing else changes.\<close>

theorem gpu_pass:
  assumes "sorts srt" "encodes_tiles encode blk" "gpu_limit (int (length pipeline)) quality \<le> int (length pipeline)"
    and "distinct (map address pipeline)" "\<forall>p \<in> set pipeline. address p < length file"
    and "length pipeline < 2 ^ 31" "gpu_limit (int (length pipeline)) quality < 6688 ^ 2"
  shows "\<exists>sel rest file'. ProcessWithGPU srt encode pipeline quality file = Some file' \<and>
    mset sel + mset rest = mset pipeline \<and> length sel = nat (gpu_limit (int (length pipeline)) quality) \<and>
    (quality < 1 \<longrightarrow> (\<forall>p \<in> set sel. \<forall>q \<in> set rest. pix_error q \<le> pix_error p)) \<and>
    (\<forall>p \<in> set sel. file' ! address p = word64_of_bytes (blk (upright (bgrData p)))) \<and>
    (\<forall>a < length file. a \<notin> address ` set sel \<longrightarrow> file' ! a = file ! a) \<and> length file' = length file"
  by (rule gpu_pass_result [OF assms])

text \<open>An encoder that keeps the first eight bytes of each tile, and a sort.\<close>

definition tile_encoder :: "u8 list \<Rightarrow> nat \<Rightarrow> nat \<Rightarrow> u8 list" where
  "tile_encoder data width height = concat (map (\<lambda>k. take 8 (tile_of data width k)) [0..<(width div 4) * (height div 4)])"

definition error_sort :: "PixBlock list \<Rightarrow> PixBlock list" where
  "error_sort = sort_key (\<lambda>p. - uint (pix_error p))"

lemma tile_encoder_encodes: "encodes_tiles tile_encoder (take 8)"
proof -
  have l: "length (take 8 (tile_of data width k)) = 8" for data width k by (simp add: tile_of_def)
  have "take 8 (drop (8 * k) (concat (map (\<lambda>k. take 8 (tile_of data width k)) [0..<n]))) = take 8 (tile_of data width k)"
    if "k < n" for data width n k
    by (rule take_drop_concat [OF l that])
  moreover have "length (concat (map (\<lambda>k. take 8 (tile_of data width k)) [0..<n])) = 8 * n" for data width n
    by (rule length_concat_map) (rule l)
  ultimately show ?thesis unfolding encodes_tiles_def tile_encoder_def by simp
qed

lemma error_sort_sorts: "sorts error_sort"
proof -
  have "sorted_wrt (\<lambda>a b. \<not> cmp b a) (error_sort xs)" for xs
  proof -
    have "sorted (map (\<lambda>p. - uint (pix_error p)) (error_sort xs))" by (simp add: error_sort_def)
    then show ?thesis unfolding sorted_wrt_map cmp_def by (rule sorted_wrt_mono_rel [rotated]) (simp add: word_less_def)
  qed
  then show ?thesis by (simp add: sorts_def error_sort_def)
qed

lemma gpu_limit_half: "gpu_limit 2 (1 / 2) = 1"
  by code_simp

lemma gpu_pass_witness:
  "\<exists>sel rest file'. ProcessWithGPU error_sort tile_encoder
      [\<lparr>address = 3, pix_error = 5, bgrData = replicate 48 1\<rparr>, \<lparr>address = 0, pix_error = 9, bgrData = replicate 48 2\<rparr>] (1 / 2) [10, 20, 30, 40] = Some file' \<and>
    mset sel + mset rest = mset [\<lparr>address = 3, pix_error = 5, bgrData = replicate 48 1\<rparr>, \<lparr>address = 0, pix_error = 9, bgrData = replicate 48 2\<rparr>] \<and>
    length sel = 1 \<and> length file' = 4"
  using gpu_pass [OF error_sort_sorts tile_encoder_encodes,
      of "[\<lparr>address = 3, pix_error = 5, bgrData = replicate 48 1\<rparr>, \<lparr>address = 0, pix_error = 9, bgrData = replicate 48 2\<rparr>]" "1 / 2" "[10, 20, 30, 40]"]
  by (force simp: gpu_limit_half)

text \<open>C36: What the encoder sees of a reported block are the pixels of the image, at their places: pixel \<open>(c, r)\<close> of the
  tile has the red, green and blue of pixel \<open>(c, r)\<close> of the block, and is opaque.\<close>

theorem gpu_sees_block:
  assumes "width = 4 * n" "0 < n" "r < 4" "c < 4" "ch < 4"
  shows "upright (divRGBData (bytes_of (block_rows (image_block id src width (by * n + bx mod n))))) ! (4 * (4 * r + c) + ch) =
    (let v = src ! ((4 * by + r) * width + (4 * (bx mod n) + c)) in
     [ucast (drop_bit 16 v), ucast (drop_bit 8 v), ucast v, 0xFF] ! ch)"
proof -
  let ?b = "image_block id src width (by * n + bx mod n)"
  let ?x = "4 * (bx mod n) + c" and ?y = "4 * by + r"
  have "bx mod n < n" using assms(2) by simp
  then have x: "?x < width" using assms(1,4) by simp
  have d: "?x div 4 = bx mod n" "?y div 4 = by" "?x mod 4 = c" "?y mod 4 = r" "width div 4 = n" using assms by simp_all
  have "length ?b = 16" by (simp add: image_block_def block_at_def)
  from reported_pixel [OF _ assms(4) _ assms(1) this, of "3 - r"]
  have p: "divRGBData (bytes_of (block_rows ?b)) ! (3 * (4 * (3 - r) + c) + h) = ucast (drop_bit (8 * h) (src ! (?y * width + ?x)))"
    if "h < 3" for h
    using that assms(3) image_block_pixel [OF assms(1) x, of id src ?y] by (simp only: d) simp
  have j: "4 * (4 * r + c) + ch < 64" "(4 * (4 * r + c) + ch) div 16 = r"
    using assms(3-5) by auto
  have "(4 * q + ch) mod 4 = ch" for q using assms(5) by simp
  note j = j this [of "4 * r + c"]
  have "(4 * (4 * r + c) + ch) mod 16 div 4 = c"
  proof -
    have "4 * (4 * r + c) + ch = 16 * r + (4 * c + ch)" by simp
    then have "(4 * (4 * r + c) + ch) mod 16 = 4 * c + ch" using assms(4,5) by (simp only: mod_mult_self4) simp
    then show ?thesis using assms(5) by simp
  qed
  then show ?thesis
    using p [of 0] p [of 1] p [of 2] j by (simp add: upright_def Let_def del: upt_Suc upt_rec_numeral)
qed

lemma gpu_sees_block_witness:
  "upright (divRGBData (bytes_of (block_rows (image_block id (replicate 64 0x102030) 8 (1 * 2 + 1 mod 2))))) ! (4 * (4 * 3 + 2) + 0) =
    (let v = replicate 64 (0x102030 :: u32) ! ((4 * 1 + 3) * 8 + (4 * (1 mod 2) + 2)) in
     [ucast (drop_bit 16 v), ucast (drop_bit 8 v), ucast v, 0xFF] ! 0)"
  by (rule gpu_sees_block) simp_all

section \<open>How many blocks\<close>

lemma round_even_int: "round_even (of_int k) = k"
  by (simp add: round_even_def)

lemma rnd_int:
  assumes "\<bar>k\<bar> < 2 ^ 24"
  shows "rnd (of_int k) = of_int k"
proof (cases "k = 0")
  case False
  define e where "e = exponent (of_int k)"
  have "pow2 e \<le> \<bar>of_int k\<bar>" unfolding e_def by (rule pow2_exponent) (simp add: False)
  also have "(\<bar>of_int k\<bar> :: rat) = of_int \<bar>k\<bar>" by simp
  also have "\<dots> < of_int (2 ^ 24)" using assms by (simp only: of_int_less_iff)
  also have "\<dots> = pow2 24" by (simp add: pow2_def)
  finally have "pow2 e < pow2 24" .
  then have "e < 24" unfolding pow2_def using power_int_increasing [of 24 e "2 :: rat"] by (cases "e < 24") simp_all
  then have "0 \<le> 23 - e" by simp
  have u: "pow2 (e - 23) * 2 ^ nat (23 - e) = 1"
  proof -
    have "(2 :: rat) ^ nat (23 - e) = 2 powi (23 - e)" using \<open>0 \<le> 23 - e\<close> by (simp add: power_int_def)
    then show ?thesis by (simp add: pow2_def flip: power_int_add)
  qed
  have "of_int k / pow2 (e - 23) = of_int (k * 2 ^ nat (23 - e))"
  proof -
    have "pow2 (e - 23) \<noteq> 0" by (simp add: pow2_def)
    moreover have "of_int k * (pow2 (e - 23) * 2 ^ nat (23 - e)) = of_int k" by (simp only: u mult_1_right)
    ultimately show ?thesis by (simp add: divide_eq_eq mult.commute mult.left_commute)
  qed
  then have "rnd (of_int k) = of_int (k * 2 ^ nat (23 - e)) * pow2 (e - 23)"
    using False by (simp only: rnd_def e_def [symmetric] Let_def round_even_int) simp
  also have "\<dots> = of_int k * (pow2 (e - 23) * 2 ^ nat (23 - e))" by simp
  finally show ?thesis by (simp only: u mult_1_right)
qed (simp add: rnd_def)

lemma mode_quality_small: "modeFast \<or> modeNormal \<Longrightarrow> 0 \<le> mode_quality modeFast modeNormal \<and> mode_quality modeFast modeNormal \<le> 1 / 2"
proof -
  have "0 \<le> rnd (1 / 10) \<and> rnd (1 / 10) \<le> 1 / 2 \<and> 0 \<le> rnd (4 / 10) \<and> rnd (4 / 10) \<le> 1 / 2" by code_simp
  then show "modeFast \<or> modeNormal \<Longrightarrow> ?thesis" by (auto simp: mode_quality_def)
qed

lemma rnd_nonneg: "0 \<le> x \<Longrightarrow> 0 \<le> rnd x"
proof -
  assume x: "0 \<le> x"
  have "0 \<le> x * (1 - 1 / 2 ^ 24)" using x by simp
  with rnd_bounds [OF x] show "0 \<le> rnd x" by (meson order_trans)
qed

text \<open>C37: The number of blocks that are encoded again never exceeds the number of the reported ones in the
  fast and in the normal mode, and it is that number in the best mode for up to \<open>2 ^ 24 - 1\<close> blocks.\<close>

theorem gpu_limit_modes:
  assumes "0 \<le> pipeSize"
  shows "0 \<le> gpu_limit pipeSize (mode_quality modeFast modeNormal) \<and>
    (modeFast \<or> modeNormal \<longrightarrow> gpu_limit pipeSize (mode_quality modeFast modeNormal) \<le> pipeSize) \<and>
    (\<not> modeFast \<and> \<not> modeNormal \<and> pipeSize < 2 ^ 24 \<longrightarrow> gpu_limit pipeSize (mode_quality modeFast modeNormal) = pipeSize)"
proof -
  define q where "q = mode_quality modeFast modeNormal"
  define x where "x = float_of_int pipeSize"
  define y where "y = fmul x q"
  have q0: "0 \<le> q" using mode_quality_small [of modeFast modeNormal] by (cases "modeFast \<or> modeNormal") (auto simp: q_def mode_quality_def)
  have x: "0 \<le> x" "x \<le> of_int pipeSize * (1 + 1 / 2 ^ 24)"
    using rnd_bounds [of "of_int pipeSize"] rnd_nonneg [of "of_int pipeSize"] assms by (simp_all add: x_def float_of_int_def)
  then have y: "0 \<le> y" "y \<le> x * q * (1 + 1 / 2 ^ 24)" using rnd_bounds [of "x * q"] rnd_nonneg [of "x * q"] q0 by (simp_all add: y_def fmul_def)
  have l: "gpu_limit pipeSize q = \<lfloor>y\<rfloor>" using y(1) by (simp add: gpu_limit_def int_of_float_def x_def y_def)
  have "y \<le> of_int pipeSize" if "q \<le> 1 / 2"
  proof -
    have "x * q \<le> of_int pipeSize * (1 + 1 / 2 ^ 24) * (1 / 2)" using x q0 that assms by (intro mult_mono) simp_all
    then have "y \<le> of_int pipeSize * (1 + 1 / 2 ^ 24) * (1 / 2) * (1 + 1 / 2 ^ 24)"
      using y(2) by (meson mult_right_mono order_trans zero_le_divide_1_iff zero_le_numeral zero_le_power add_nonneg_nonneg zero_le_one)
    also have "\<dots> = of_int pipeSize * ((1 + 1 / 2 ^ 24) * (1 / 2) * (1 + 1 / 2 ^ 24))" by simp
    also have "\<dots> \<le> of_int pipeSize * 1" using assms by (intro mult_left_mono) simp_all
    finally show ?thesis by simp
  qed
  then have "modeFast \<or> modeNormal \<Longrightarrow> \<lfloor>y\<rfloor> \<le> pipeSize"
    using mode_quality_small [of modeFast modeNormal] unfolding q_def [symmetric] by (simp add: floor_le_iff)
  moreover have "\<lfloor>y\<rfloor> = pipeSize" if "\<not> modeFast" "\<not> modeNormal" "pipeSize < 2 ^ 24"
  proof -
    have "x = of_int pipeSize" using rnd_int [of pipeSize] assms that(3) by (simp add: x_def float_of_int_def)
    moreover have "q = 1" using that by (simp add: q_def mode_quality_def)
    ultimately have "y = of_int pipeSize" using rnd_int [of pipeSize] assms that(3) by (simp add: y_def fmul_def)
    then show ?thesis by simp
  qed
  moreover have "0 \<le> \<lfloor>y\<rfloor>" using y(1) by simp
  ultimately show ?thesis unfolding q_def [symmetric] l by blast
qed

lemma gpu_limit_modes_witness:
  "gpu_limit 1000 (mode_quality True False) \<le> 1000 \<and> gpu_limit 1000 (mode_quality False False) = 1000"
  using gpu_limit_modes [of 1000 True False] gpu_limit_modes [of 1000 False False] by simp

text \<open>From \<open>2 ^ 24\<close> on a float holds even numbers only, and an odd one is rounded to the multiple of four next to it.\<close>

lemma ilog2_25:
  assumes "2 ^ 24 \<le> N" "N < 2 ^ 25"
  shows "ilog2 N = 24"
proof -
  have b: "0 \<le> ilog2 N" "2 ^ nat (ilog2 N) \<le> N" "N < 2 ^ Suc (nat (ilog2 N))" using ilog2_bounds [of N] assms by simp_all
  have "(2 :: int) ^ nat (ilog2 N) < 2 ^ 25" "(2 :: int) ^ 24 < 2 ^ Suc (nat (ilog2 N))" using b assms by linarith+
  then have "nat (ilog2 N) < 25" "24 < Suc (nat (ilog2 N))" by (meson one_less_numeral_iff power_less_imp_less_exp semiring_norm(76))+
  then show ?thesis using b(1) by simp
qed

lemma rnd_large:
  assumes "2 ^ 24 \<le> N" "N < 2 ^ 25"
  shows "rnd (of_int N) = of_int (2 * round_even (of_int N / 2))"
proof -
  have "\<bar>of_int N :: rat\<bar> = of_int N" using assms(1) by simp
  moreover have "pow2 24 \<le> of_int N" using assms(1) by (simp add: pow2_def)
  moreover have "ilog2 1 = 0" by (simp add: ilog2.simps)
  ultimately have "exponent (of_int N) = 24" by (simp add: exponent_def quotient_of_int ilog2_25 [OF assms])
  then show ?thesis using assms(1) by (simp add: rnd_def pow2_def Let_def)
qed

lemma round_even_half:
  "2 * round_even (of_int N / 2) = (if even N then N else if N mod 4 = 1 then N - 1 else N + 1)"
proof -
  have f: "\<lfloor>of_int N / 2 :: rat\<rfloor> = N div 2" using floor_divide_of_int_eq [of N 2, where 'a = rat] by simp
  have "(of_int N :: rat) = of_int (N div 2) * 2 + of_int (N mod 2)" by (metis div_mult_mod_eq of_int_add of_int_mult of_int_numeral)
  then have d: "of_int N / 2 - of_int (N div 2) = (of_int (N mod 2) / 2 :: rat)" by (simp add: field_simps)
  have "even N \<Longrightarrow> N mod 2 = 0 \<and> 2 * (N div 2) = N" by presburger
  moreover have "odd N \<Longrightarrow> N mod 4 = 1 \<Longrightarrow> N mod 2 = 1 \<and> even (N div 2) \<and> 2 * (N div 2) = N - 1" by presburger
  moreover have "odd N \<Longrightarrow> N mod 4 \<noteq> 1 \<Longrightarrow> N mod 2 = 1 \<and> odd (N div 2) \<and> 2 * (N div 2 + 1) = N + 1" by presburger
  ultimately show ?thesis unfolding round_even_def f d Let_def by auto
qed

lemma gpu_limit_large:
  assumes "2 ^ 24 \<le> N" "N < 2 ^ 25"
  shows "gpu_limit N 1 = (if even N then N else if N mod 4 = 1 then N - 1 else N + 1)"
proof -
  define M where "M = 2 * round_even (of_int N / 2)"
  have M: "M = (if even N then N else if N mod 4 = 1 then N - 1 else N + 1)" unfolding M_def by (rule round_even_half)
  have "odd N \<Longrightarrow> 2 ^ 24 + 1 \<le> N" using assms(1) by (cases "N = 2 ^ 24") auto
  then have r: "even M" "2 ^ 24 \<le> M" "M \<le> 2 ^ 25" using assms by (auto simp: M split: if_splits)
  have x: "rnd (of_int N) = of_int M" unfolding M_def by (rule rnd_large [OF assms])
  have "rnd (of_int M) = of_int M"
  proof (cases "M < 2 ^ 25")
    case True
    then show ?thesis using rnd_large [OF r(2)] round_even_half [of M] r(1) by simp
  next
    case False
    then have "M = 33554432" using r(3) by simp
    moreover have "rnd 33554432 = 33554432" by code_simp
    ultimately show ?thesis by simp
  qed
  then have "gpu_limit N 1 = M" by (simp add: gpu_limit_def float_of_int_def fmul_def x int_of_float_int)
  then show ?thesis by (simp only: M)
qed

lemma best_limit:
  assumes "0 \<le> N" "N < 2 ^ 25"
  shows "gpu_limit N 1 \<le> N + 1" "gpu_limit N 1 \<le> N \<longleftrightarrow> \<not> (2 ^ 24 \<le> N \<and> N mod 4 = 3)"
proof -
  have "gpu_limit N 1 \<le> N + 1 \<and> (gpu_limit N 1 \<le> N \<longleftrightarrow> \<not> (2 ^ 24 \<le> N \<and> N mod 4 = 3))"
  proof (cases "2 ^ 24 \<le> N")
    case True
    have "odd N \<Longrightarrow> N mod 4 \<noteq> 1 \<longleftrightarrow> N mod 4 = 3" "even N \<Longrightarrow> N mod 4 \<noteq> 3" by presburger+
    then show ?thesis using True unfolding gpu_limit_large [OF True assms(2)] by auto
  next
    case False
    then have "rnd (of_int N) = of_int N" using assms(1) by (intro rnd_int) simp
    then have "gpu_limit N 1 = N" by (simp add: gpu_limit_def float_of_int_def fmul_def int_of_float_int)
    then show ?thesis using False by simp
  qed
  then show "gpu_limit N 1 \<le> N + 1" "gpu_limit N 1 \<le> N \<longleftrightarrow> \<not> (2 ^ 24 \<le> N \<and> N mod 4 = 3)" by blast+
qed

text \<open>C38: When the pass is undefined in the best mode, for fewer than \<open>2 ^ 25\<close> reported blocks with places of their
  own in the file: exactly when there are \<open>2 ^ 24\<close> or more of them and their number is three modulo four.  The
  product of floats is then one more than the number of blocks, and the copy reads past the reported ones; in
  every other case the pass succeeds.\<close>

theorem gpu_best_mode_overruns:
  assumes "sorts srt" "encodes_tiles encode blk" "distinct (map address pipeline)" "\<forall>p \<in> set pipeline. address p < length file"
    and "length pipeline < 2 ^ 25"
  shows "ProcessWithGPU srt encode pipeline (mode_quality False False) file = None \<longleftrightarrow>
    2 ^ 24 \<le> length pipeline \<and> length pipeline mod 4 = 3"
proof -
  let ?N = "int (length pipeline)"
  have N: "?N < 2 ^ 25" using assms(5) by simp
  note limit = best_limit [OF _ N]
  have "int (length pipeline mod 4) = ?N mod 4" by (simp add: zmod_int)
  then have three: "?N mod 4 = 3 \<longleftrightarrow> length pipeline mod 4 = 3" by linarith
  have q: "mode_quality False False = 1" by (simp add: mode_quality_def)
  show ?thesis
  proof (cases "gpu_limit ?N 1 \<le> ?N")
    case True
    have "gpu_limit ?N 1 < 6688 ^ 2" using True N by simp
    from gpu_pass_result [OF assms(1,2) _ assms(3,4) _ this] have "ProcessWithGPU srt encode pipeline 1 file \<noteq> None"
      using True assms(5) by auto
    moreover have "\<not> (2 ^ 24 \<le> length pipeline \<and> length pipeline mod 4 = 3)" using True limit(2) three by simp
    ultimately show ?thesis unfolding q by blast
  next
    case False
    then have "length pipeline < nat (gpu_limit ?N 1)" by linarith
    then have "ProcessWithGPU srt encode pipeline 1 file = None" by (simp add: ProcessWithGPU_def Let_def)
    then show ?thesis using False limit(2) three unfolding q by simp
  qed
qed

text \<open>Blocks with the addresses \<open>0\<close>, \<open>1\<close> and so on.\<close>

definition numbered :: "nat \<Rightarrow> PixBlock list" where
  "numbered n = map (\<lambda>k. \<lparr>address = k, pix_error = 0, bgrData = []\<rparr>) [0..<n]"

lemma numbered: "length (numbered n) = n" "distinct (map address (numbered n))" "\<forall>p \<in> set (numbered n). address p < length (replicate n v)"
  by (simp_all add: numbered_def o_def)

lemma gpu_best_mode_overruns_witness:
  "ProcessWithGPU error_sort tile_encoder (numbered (2 ^ 24 + 7)) (mode_quality False False) (replicate (2 ^ 24 + 7) 0) = None \<and>
   ProcessWithGPU error_sort tile_encoder (numbered (2 ^ 24 + 4)) (mode_quality False False) (replicate (2 ^ 24 + 4) 0) \<noteq> None"
  using gpu_best_mode_overruns [OF error_sort_sorts tile_encoder_encodes numbered(2,3), of "2 ^ 24 + 7" 0]
    gpu_best_mode_overruns [OF error_sort_sorts tile_encoder_encodes numbered(2,3), of "2 ^ 24 + 4" 0]
  unfolding numbered(1) by (simp del: replicate.simps)

end
