(* ===== verification/TaskDispatch.thy ===== *)
theory TaskDispatch imports Prelude "HOL-Library.Multiset" begin

text \<open>
  The thread pool of \<open>src/TaskDispatch.cpp\<close>: one client thread queues tasks and waits for them, the
  worker threads take them from the back of \<open>m_queue\<close>.  A step of the relation \<open>pool_step\<close> is one
  critical section of \<open>m_queueLock\<close>, one call of a task outside it, one notification, or one access to
  the atomic \<open>m_exit\<close>; waiting on a condition variable gives up the lock and falls asleep in one step, as the
  standard promises.  \<open>spurious_step\<close> adds the wake-ups without notification that the standard allows.
  \<open>submitted\<close> and \<open>executed\<close> record the tasks passed to \<open>Queue\<close> and those that were executed, in order.
\<close>

section \<open>Threads and state\<close>

text \<open>Where a worker is: before the lock of its loop, asleep on \<open>m_cvWork\<close>, in a task, after the task,
  about to notify \<open>m_cvJobs\<close>, or returned.\<close>

datatype 'f worker = At_lock | Asleep | Running 'f | Finished | Notifying | Returned

text \<open>Where the client is: between calls, about to notify \<open>m_cvWork\<close> at the end of \<open>Queue\<close>; in \<open>Sync\<close> at
  the lock, in a task, asleep on \<open>m_cvJobs\<close> or woken; in the destructor after the write of \<open>m_exit\<close> or
  joining worker \<open>i\<close>; or past it.\<close>

datatype 'f client = Ready | Notify_work | Sync_lock | Sync_task 'f | Sync_asleep | Sync_woken |
  Exiting | Joining nat | Destroyed

datatype 'f call = Queue 'f | Sync | Destroy

record 'f pool =
  m_queue :: "'f list"
  m_exit :: bool
  m_jobs :: nat
  m_workers :: "'f worker list"
  client :: "'f client"
  calls :: "'f call list"
  submitted :: "'f list"
  executed :: "'f list"

text \<open>The constructor, with its assertion that there is at least one worker; the client is one of
  them.\<close>

definition new_pool :: "nat \<Rightarrow> 'f call list \<Rightarrow> 'f pool option" where
  "new_pool workers cs = (if workers \<ge> 1 then
     Some \<lparr>m_queue = [], m_exit = False, m_jobs = 0, m_workers = replicate (workers - 1) At_lock, client = Ready,
       calls = cs, submitted = [], executed = []\<rparr> else None)"

section \<open>Operations\<close>

definition set_worker :: "nat \<Rightarrow> 'f worker \<Rightarrow> 'f pool \<Rightarrow> 'f pool" where
  "set_worker i w s = s\<lparr>m_workers := (m_workers s)[i := w]\<rparr>"

definition pop_back :: "'f pool \<Rightarrow> 'f pool" where
  "pop_back s = s\<lparr>m_queue := butlast (m_queue s)\<rparr>"

text \<open>\<open>Queue\<close>: the task goes to the back; a second task in the queue wakes a worker.\<close>

definition push_task :: "'f \<Rightarrow> 'f pool \<Rightarrow> 'f pool" where
  "push_task f s = (let q = m_queue s @ [f] in
     s\<lparr>m_queue := q, submitted := submitted s @ [f], client := if length q > 1 then Notify_work else Ready\<rparr>)"

text \<open>The head of the worker's loop, under the lock: wait, return, or take a task.\<close>

definition worker_head :: "nat \<Rightarrow> 'f pool \<Rightarrow> 'f pool" where
  "worker_head i s = (
     if m_queue s = [] \<and> \<not> m_exit s then set_worker i Asleep s
     else if m_exit s then set_worker i Returned s
     else set_worker i (Running (last (m_queue s))) ((pop_back s)\<lparr>m_jobs := m_jobs s + 1\<rparr>))"

text \<open>The tail of the loop, under the lock: the last job of an empty queue notifies.\<close>

definition worker_tail :: "nat \<Rightarrow> 'f pool \<Rightarrow> 'f pool" where
  "worker_tail i s = (let s = s\<lparr>m_jobs := m_jobs s - 1\<rparr> in
     set_worker i (if m_jobs s = 0 \<and> m_queue s = [] then Notifying else At_lock) s)"

text \<open>\<open>notify_all\<close> on \<open>m_cvJobs\<close>, where only the client waits, and on \<open>m_cvWork\<close>.\<close>

definition notify_jobs :: "'f pool \<Rightarrow> 'f pool" where
  "notify_jobs s = s\<lparr>client := if client s = Sync_asleep then Sync_woken else client s\<rparr>"

definition wake :: "'f worker \<Rightarrow> 'f worker" where
  "wake w = (if w = Asleep then At_lock else w)"

definition notify_all_work :: "'f pool \<Rightarrow> 'f pool" where
  "notify_all_work s = s\<lparr>m_workers := map wake (m_workers s)\<rparr>"

text \<open>\<open>Sync\<close> under the lock: run what is queued, then wait until no worker is in a task.\<close>

definition wait_jobs :: "'f pool \<Rightarrow> 'f pool" where
  "wait_jobs s = s\<lparr>client := if m_jobs s = 0 then Ready else Sync_asleep\<rparr>"

definition sync_head :: "'f pool \<Rightarrow> 'f pool" where
  "sync_head s = (if m_queue s \<noteq> [] then (pop_back s)\<lparr>client := Sync_task (last (m_queue s))\<rparr> else wait_jobs s)"

section \<open>The step relation\<close>

inductive pool_step :: "'f pool \<Rightarrow> 'f pool \<Rightarrow> bool" where
  queue: "client s = Ready \<Longrightarrow> calls s = Queue f # cs \<Longrightarrow> pool_step s ((push_task f s)\<lparr>calls := cs\<rparr>)"
| notify_one: "client s = Notify_work \<Longrightarrow> i < length (m_workers s) \<Longrightarrow> m_workers s ! i = Asleep \<Longrightarrow>
    pool_step s ((set_worker i At_lock s)\<lparr>client := Ready\<rparr>)"
| notify_none: "client s = Notify_work \<Longrightarrow> Asleep \<notin> set (m_workers s) \<Longrightarrow> pool_step s (s\<lparr>client := Ready\<rparr>)"
| sync: "client s = Ready \<Longrightarrow> calls s = Sync # cs \<Longrightarrow> pool_step s (s\<lparr>client := Sync_lock, calls := cs\<rparr>)"
| sync_locked: "client s = Sync_lock \<Longrightarrow> pool_step s (sync_head s)"
| sync_ran: "client s = Sync_task f \<Longrightarrow> pool_step s (s\<lparr>client := Sync_lock, executed := executed s @ [f]\<rparr>)"
| sync_checks: "client s = Sync_woken \<Longrightarrow> pool_step s (wait_jobs s)"
| destroy: "client s = Ready \<Longrightarrow> calls s = Destroy # cs \<Longrightarrow> pool_step s (s\<lparr>m_exit := True, client := Exiting, calls := cs\<rparr>)"
| destroy_notify: "client s = Exiting \<Longrightarrow> pool_step s ((notify_all_work s)\<lparr>client := Joining 0\<rparr>)"
| join: "client s = Joining i \<Longrightarrow> i < length (m_workers s) \<Longrightarrow> m_workers s ! i = Returned \<Longrightarrow>
    pool_step s (s\<lparr>client := Joining (i + 1)\<rparr>)"
| joined: "client s = Joining i \<Longrightarrow> i = length (m_workers s) \<Longrightarrow> pool_step s (s\<lparr>client := Destroyed\<rparr>)"
| worker_locked: "i < length (m_workers s) \<Longrightarrow> m_workers s ! i = At_lock \<Longrightarrow> pool_step s (worker_head i s)"
| worker_ran: "i < length (m_workers s) \<Longrightarrow> m_workers s ! i = Running f \<Longrightarrow>
    pool_step s ((set_worker i Finished s)\<lparr>executed := executed s @ [f]\<rparr>)"
| worker_finished: "i < length (m_workers s) \<Longrightarrow> m_workers s ! i = Finished \<Longrightarrow> pool_step s (worker_tail i s)"
| worker_notifies: "i < length (m_workers s) \<Longrightarrow> m_workers s ! i = Notifying \<Longrightarrow>
    pool_step s (notify_jobs (set_worker i At_lock s))"

text \<open>A condition variable may wake its waiters without a notification.\<close>

inductive spurious_step :: "'f pool \<Rightarrow> 'f pool \<Rightarrow> bool" where
  wake_worker: "i < length (m_workers s) \<Longrightarrow> m_workers s ! i = Asleep \<Longrightarrow> spurious_step s (set_worker i At_lock s)"
| wake_client: "client s = Sync_asleep \<Longrightarrow> spurious_step s (s\<lparr>client := Sync_woken\<rparr>)"

inductive pool_reachable :: "nat \<Rightarrow> 'f call list \<Rightarrow> 'f pool \<Rightarrow> bool" for workers cs where
  start: "new_pool workers cs = Some s \<Longrightarrow> pool_reachable workers cs s"
| step: "pool_reachable workers cs s \<Longrightarrow> pool_step s t \<Longrightarrow> pool_reachable workers cs t"
| spurious: "pool_reachable workers cs s \<Longrightarrow> spurious_step s t \<Longrightarrow> pool_reachable workers cs t"

inductive_cases pool_stepE: "pool_step s t"
inductive_cases spurious_stepE: "spurious_step s t"

section \<open>The invariant\<close>

text \<open>The tasks that a thread has taken and not finished, and the workers that count as jobs.\<close>

fun hand :: "'f worker \<Rightarrow> 'f multiset" where
  "hand (Running f) = {#f#}"
| "hand _ = {#}"

fun client_hand :: "'f client \<Rightarrow> 'f multiset" where
  "client_hand (Sync_task f) = {#f#}"
| "client_hand _ = {#}"

fun busy :: "'f worker \<Rightarrow> nat" where
  "busy (Running f) = 1"
| "busy Finished = 1"
| "busy _ = 0"

definition in_hand :: "'f pool \<Rightarrow> 'f multiset" where
  "in_hand s = sum_list (map hand (m_workers s)) + client_hand (client s)"

definition exits :: "'f client \<Rightarrow> bool" where
  "exits c \<longleftrightarrow> c = Exiting \<or> (\<exists>i. c = Joining i) \<or> c = Destroyed"

text \<open>\<open>m_jobs\<close> counts the workers that have taken a task; no task is lost or run twice; a waiting
  client has an empty queue, and its wake-up is on the way when there are no jobs; only the destructor
  stops workers, and none sleeps while they are joined.\<close>

definition pool_inv :: "'f pool \<Rightarrow> bool" where
  "pool_inv s \<longleftrightarrow>
     m_jobs s = sum_list (map busy (m_workers s)) \<and>
     mset (submitted s) = mset (executed s) + mset (m_queue s) + in_hand s \<and>
     (client s = Sync_asleep \<or> client s = Sync_woken \<longrightarrow> m_queue s = []) \<and>
     (client s = Sync_asleep \<and> m_jobs s = 0 \<longrightarrow> Notifying \<in> set (m_workers s)) \<and>
     (m_exit s \<longleftrightarrow> exits (client s)) \<and>
     (Returned \<in> set (m_workers s) \<longrightarrow> m_exit s) \<and>
     (\<forall>i. client s = Joining i \<longrightarrow> i \<le> length (m_workers s) \<and> Asleep \<notin> set (m_workers s) \<and>
        (\<forall>j < i. m_workers s ! j = Returned)) \<and>
     (client s = Destroyed \<longrightarrow> (\<forall>j < length (m_workers s). m_workers s ! j = Returned))"

lemma sum_list_upd:
  fixes f :: "'a \<Rightarrow> 'b :: comm_monoid_add"
  shows "i < length xs \<Longrightarrow> sum_list (map f (xs[i := x])) + f (xs ! i) = sum_list (map f xs) + f x"
  by (induction xs arbitrary: i) (auto simp: ac_simps split: nat.splits)

lemma sum_list_upd_nat:
  fixes f :: "'a \<Rightarrow> nat"
  shows "i < length xs \<Longrightarrow> sum_list (map f (xs[i := x])) = sum_list (map f xs) + f x - f (xs ! i)"
  using sum_list_upd [of i xs f x] by simp

lemma sum_list_upd_mset:
  fixes f :: "'a \<Rightarrow> 'b multiset"
  shows "i < length xs \<Longrightarrow> sum_list (map f (xs[i := x])) = sum_list (map f xs) + f x - f (xs ! i)"
  using sum_list_upd [of i xs f x] by (metis add_diff_cancel_right')

lemma in_sum_list: "i < length xs \<Longrightarrow> f (xs ! i) \<le> sum_list (map f xs)" for f :: "'a \<Rightarrow> nat"
  by (simp add: member_le_sum_list)

lemma wake_same [simp]: "Asleep \<noteq> wake w" "hand (wake w) = hand w" "busy (wake w) = busy w" "wake w \<noteq> Asleep"
    "wake w = Notifying \<longleftrightarrow> w = Notifying" "wake w = Returned \<longleftrightarrow> w = Returned"
  by (auto simp: wake_def)

lemma exits_simps [simp]:
  "\<not> exits Ready" "\<not> exits Notify_work" "\<not> exits Sync_lock" "\<not> exits (Sync_task f)" "\<not> exits Sync_asleep"
  "\<not> exits Sync_woken" "exits Exiting" "exits (Joining i)" "exits Destroyed"
  by (simp_all add: exits_def)

lemma mset_pop_back: "q \<noteq> [] \<Longrightarrow> mset q = mset (butlast q) + {#last q#}"
  by (metis append_butlast_last_id mset.simps mset_append union_mset_add_mset_right add_mset_add_single)

lemma in_upd: "i < length ws \<Longrightarrow> ws ! i \<noteq> x \<Longrightarrow> x \<in> set ws \<Longrightarrow> x \<in> set (ws[i := w])"
  by (metis in_set_conv_nth length_list_update nth_list_update_neq)

lemma in_upd_only: "x \<in> set (ws[i := w]) \<Longrightarrow> x \<noteq> w \<Longrightarrow> x \<in> set ws"
  using set_update_subset_insert by fastforce

lemma sum_list_replicate_empty [simp]: "sum_list (replicate n {#}) = {#}"
  by (induction n) simp_all

lemma new_pool_inv: "new_pool workers cs = Some s \<Longrightarrow> pool_inv s"
  by (auto simp: new_pool_def pool_inv_def in_hand_def sum_list_replicate split: if_splits)

lemma pool_invD:
  assumes "pool_inv s"
  shows "m_jobs s = sum_list (map busy (m_workers s))"
    and "mset (submitted s) = mset (executed s) + mset (m_queue s) + in_hand s"
    and "client s = Sync_asleep \<or> client s = Sync_woken \<Longrightarrow> m_queue s = []"
    and "client s = Sync_asleep \<Longrightarrow> m_jobs s = 0 \<Longrightarrow> Notifying \<in> set (m_workers s)"
    and "m_exit s \<longleftrightarrow> exits (client s)"
    and "Returned \<in> set (m_workers s) \<Longrightarrow> m_exit s"
    and "client s = Joining i \<Longrightarrow> i \<le> length (m_workers s) \<and> Asleep \<notin> set (m_workers s) \<and> (\<forall>j < i. m_workers s ! j = Returned)"
    and "client s = Destroyed \<Longrightarrow> j < length (m_workers s) \<Longrightarrow> m_workers s ! j = Returned"
  using assms unfolding pool_inv_def by blast+

text \<open>A worker moves on: the conditions under which the invariant is kept.\<close>

lemma worker_change:
  assumes "pool_inv s" "i < length (m_workers s)" "m_workers s ! i \<noteq> Returned"
    "m_workers t = (m_workers s)[i := w]" "m_exit t = m_exit s" "client t = client s" "submitted t = submitted s"
    "m_jobs t + busy (m_workers s ! i) = m_jobs s + busy w"
    "mset (executed t) + mset (m_queue t) + hand w = mset (executed s) + mset (m_queue s) + hand (m_workers s ! i)"
    "m_queue s = [] \<Longrightarrow> m_queue t = []" "w = Asleep \<Longrightarrow> \<not> m_exit s" "w = Returned \<Longrightarrow> m_exit s"
    "client s = Sync_asleep \<Longrightarrow> m_jobs t = 0 \<Longrightarrow> w = Notifying \<or> m_jobs s = 0 \<and> m_workers s ! i \<noteq> Notifying"
  shows "pool_inv t"
proof -
  note inv = pool_invD [OF assms(1)]
  have jobs: "m_jobs t = sum_list (map busy (m_workers t))"
    using inv(1) assms(8) sum_list_upd [OF assms(2), of busy w] by (simp add: assms(4))
  have tasks: "mset (submitted t) = mset (executed t) + mset (m_queue t) + in_hand t"
  proof -
    have "mset (submitted t) + hand w = mset (executed s) + mset (m_queue s) + client_hand (client s) + (sum_list (map hand (m_workers s)) + hand w)"
      using inv(2) by (simp add: assms(7) in_hand_def ac_simps)
    also have "\<dots> = mset (executed t) + mset (m_queue t) + in_hand t + hand w"
      unfolding sum_list_upd [OF assms(2), symmetric] using assms(9) by (simp add: in_hand_def assms(4,6) ac_simps)
    finally show ?thesis by simp
  qed
  have notified: "client t = Sync_asleep \<and> m_jobs t = 0 \<longrightarrow> Notifying \<in> set (m_workers t)"
  proof (cases "w = Notifying")
    case True
    then show ?thesis using assms(2) by (simp add: assms(4) set_update_memI)
  next
    case False
    then show ?thesis unfolding assms(4,6) using assms(13) inv(4) in_upd [OF assms(2)] by blast
  qed
  have returned: "Returned \<in> set (m_workers t) \<longrightarrow> m_exit t"
    unfolding assms(4,5) using inv(6) assms(12) in_upd_only by metis
  have asleep: "Asleep \<notin> set (m_workers t)" if "client s = Joining j" for j
    unfolding assms(4) using inv(5,7) assms(11) that in_upd_only by (metis exits_simps(8))
  have stay: "m_workers t ! j = Returned" if "j < length (m_workers s)" "m_workers s ! j = Returned" for j
    using that assms(2,3) by (cases "j = i") (auto simp: assms(4))
  have len: "length (m_workers t) = length (m_workers s)" by (simp add: assms(4))
  show ?thesis
    unfolding pool_inv_def
  proof (intro conjI)
    show "client t = Sync_asleep \<or> client t = Sync_woken \<longrightarrow> m_queue t = []" using inv(3) assms(10) unfolding assms(6) by blast
    show "m_exit t \<longleftrightarrow> exits (client t)" unfolding assms(5,6) by (rule inv(5))
    show "\<forall>j. client t = Joining j \<longrightarrow> j \<le> length (m_workers t) \<and> Asleep \<notin> set (m_workers t) \<and> (\<forall>k < j. m_workers t ! k = Returned)"
      unfolding len assms(6) using inv(7) stay asleep by (metis order_less_le_trans)
    show "client t = Destroyed \<longrightarrow> (\<forall>j < length (m_workers t). m_workers t ! j = Returned)"
      unfolding len assms(6) using inv(8) stay by blast
  qed (fact jobs tasks notified returned)+
qed

lemma notify_jobs_inv: "pool_inv s \<Longrightarrow> pool_inv (notify_jobs s)"
  by (auto simp: pool_inv_def notify_jobs_def in_hand_def)

lemma pool_step_inv:
  assumes "pool_step s t" "pool_inv s"
  shows "pool_inv t"
  using assms
proof cases
  case (queue f cs)
  then show ?thesis using assms(2) by (auto simp: pool_inv_def push_task_def in_hand_def Let_def)
next
  case (notify_one i)
  then show ?thesis using assms(2) 
    by (auto simp: pool_inv_def set_worker_def in_hand_def sum_list_upd_nat sum_list_upd_mset dest: in_upd_only)
next
  case notify_none
  then show ?thesis using assms(2) by (auto simp: pool_inv_def in_hand_def)
next
  case (sync cs)
  then show ?thesis using assms(2) by (auto simp: pool_inv_def in_hand_def)
next
  case sync_locked
  then show ?thesis using assms(2)
    by (auto simp: pool_inv_def sync_head_def wait_jobs_def pop_back_def in_hand_def mset_pop_back [of "m_queue s"])
next
  case (sync_ran f)
  then show ?thesis using assms(2) by (auto simp: pool_inv_def in_hand_def)
next
  case sync_checks
  then show ?thesis using assms(2) by (auto simp: pool_inv_def wait_jobs_def in_hand_def)
next
  case (destroy cs)
  then show ?thesis using assms(2) by (auto simp: pool_inv_def in_hand_def)
next
  case destroy_notify
  then show ?thesis using assms(2) 
    by (auto simp: pool_inv_def in_hand_def notify_all_work_def comp_def image_iff)
next
  case (join i)
  then show ?thesis using assms(2) by (auto simp: pool_inv_def in_hand_def less_Suc_eq)
next
  case (joined i)
  then show ?thesis using assms(2) by (auto simp: pool_inv_def in_hand_def)
next
  case (worker_locked i)
  let ?w = "if m_queue s = [] \<and> \<not> m_exit s then Asleep else if m_exit s then Returned else Running (last (m_queue s))"
  show ?thesis
    by (rule worker_change [OF assms(2) worker_locked(2), of t ?w])
      (use worker_locked(1,3) mset_pop_back [of "m_queue s"] in
        \<open>simp_all add: worker_head_def set_worker_def pop_back_def split: if_splits\<close>)
next
  case (worker_ran i f)
  show ?thesis unfolding worker_ran(1)
    by (rule worker_change [OF assms(2) worker_ran(2), of _ Finished])
      (use worker_ran(3) in \<open>simp_all add: set_worker_def\<close>)
next
  case (worker_finished i)
  have "m_jobs s \<noteq> 0"
  proof -
    have "1 \<le> sum_list (map busy (m_workers s))"
      using in_sum_list [OF worker_finished(2), of busy] worker_finished(3) by simp
    then show ?thesis unfolding pool_invD(1) [OF assms(2)] by linarith
  qed
  moreover have "client s = Sync_asleep \<Longrightarrow> m_queue s = []" using assms(2) by (simp add: pool_inv_def)
  ultimately show ?thesis
    by (intro worker_change [OF assms(2) worker_finished(2), of t
          "if m_jobs s - 1 = 0 \<and> m_queue s = [] then Notifying else At_lock"])
      (use worker_finished(1,3) in \<open>simp_all add: worker_tail_def set_worker_def split: if_splits\<close>)
next
  case (worker_notifies i)
  have "t = set_worker i At_lock (notify_jobs s)"
    by (simp add: worker_notifies(1) notify_jobs_def set_worker_def)
  then show ?thesis
    using worker_notifies(2,3)
    by (intro worker_change [OF notify_jobs_inv [OF assms(2)], of i _ At_lock])
      (simp_all add: set_worker_def notify_jobs_def split: if_splits)
qed

lemma spurious_step_inv:
  assumes "spurious_step s t" "pool_inv s"
  shows "pool_inv t"
  using assms(1)
proof cases
  case (wake_worker i)
  then show ?thesis
    by (intro worker_change [OF assms(2) wake_worker(2), of t At_lock])
      (use wake_worker(1,3) in \<open>simp_all add: set_worker_def\<close>)
next
  case wake_client
  then show ?thesis using assms(2) by (auto simp: pool_inv_def in_hand_def)
qed

lemma pool_reachable_inv: "pool_reachable workers cs s \<Longrightarrow> pool_inv s"
  by (induction rule: pool_reachable.induct) (blast intro: new_pool_inv pool_step_inv spurious_step_inv)+

lemma pool_step_workers: "pool_step s t \<Longrightarrow> length (m_workers t) = length (m_workers s)"
  by (cases rule: pool_step.cases)
    (auto simp: push_task_def set_worker_def sync_head_def wait_jobs_def pop_back_def notify_all_work_def worker_head_def
      worker_tail_def notify_jobs_def Let_def)

lemma busy_jobs: "pool_inv s \<Longrightarrow> m_jobs s = length (filter (\<lambda>w. busy w = 1) (m_workers s))"
proof -
  have "sum_list (map busy ws) = length (filter (\<lambda>w. busy w = 1) ws)" for ws :: "'b worker list"
  proof (induction ws)
    case (Cons w ws)
    then show ?case by (cases w) simp_all
  qed simp
  then show "pool_inv s \<Longrightarrow> ?thesis" by (simp add: pool_invD(1))
qed

section \<open>Correctness\<close>

text \<open>C11: In every state that the client and the workers can reach, with any interleaving and any spurious
  wake-ups, \<open>m_jobs\<close> is the number of workers with a task, never more than there are workers, and every
  submitted task is at exactly one place: executed, in the queue, or in the hands of one thread.\<close>

theorem pool_accounts_for_tasks:
  assumes "pool_reachable workers cs s"
  shows "m_jobs s = length (filter (\<lambda>w. busy w = 1) (m_workers s)) \<and> m_jobs s \<le> length (m_workers s) \<and>
    mset (submitted s) = mset (executed s) + mset (m_queue s) + in_hand s"
  using pool_reachable_inv [OF assms] busy_jobs [OF pool_reachable_inv [OF assms]] pool_invD(2) by (auto intro: order_trans)

lemma no_hands: "sum_list (map busy ws) = 0 \<Longrightarrow> sum_list (map hand ws) = {#}"
proof (induction ws)
  case (Cons w ws)
  then show ?case by (cases w) simp_all
qed simp

text \<open>C9: When \<open>Sync\<close> returns, the queue is empty, no worker is in a task, and the tasks that have been
  executed are exactly those that were submitted, each once.\<close>

theorem sync_waits_for_all:
  assumes "pool_reachable workers cs s" "pool_step s t" "client s = Sync_lock \<or> client s = Sync_woken" "client t = Ready"
  shows "m_queue t = [] \<and> m_jobs t = 0 \<and> (\<forall>w \<in> set (m_workers t). busy w = 0) \<and> mset (executed t) = mset (submitted t)"
proof -
  have inv: "pool_inv t" by (rule pool_step_inv [OF assms(2) pool_reachable_inv [OF assms(1)]])
  have q: "m_queue t = [] \<and> m_jobs t = 0"
    using assms(2)
  proof cases
    case sync_locked
    then show ?thesis using assms(4) by (auto simp: sync_head_def wait_jobs_def split: if_splits)
  next
    case sync_checks
    then show ?thesis using assms(4) pool_invD(3) [OF pool_reachable_inv [OF assms(1)]] by (auto simp: wait_jobs_def split: if_splits)
  next
    case (worker_notifies i)
    then show ?thesis using assms(3,4) by (auto simp: notify_jobs_def set_worker_def split: if_splits)
  qed (use assms(3,4) in \<open>auto simp: set_worker_def worker_head_def worker_tail_def pop_back_def Let_def split: if_splits\<close>)
  then have "sum_list (map busy (m_workers t)) = 0" using pool_invD(1) [OF inv] by simp
  then show ?thesis
    using q no_hands [of "m_workers t"] pool_invD(2) [OF inv] assms(4) by (simp add: in_hand_def)
qed

section \<open>Progress\<close>

text \<open>The client is done: its calls are over or the pool is destroyed.\<close>

definition pool_done :: "'f pool \<Rightarrow> bool" where
  "pool_done s \<longleftrightarrow> client s = Destroyed \<or> client s = Ready \<and> calls s = []"

lemma pool_progress:
  assumes "pool_reachable workers cs s"
  shows "pool_done s \<or> (\<exists>t. pool_step s t)"
proof -
  have inv: "pool_inv s" by (rule pool_reachable_inv [OF assms])
  have worker: "\<exists>t. pool_step s t" if "i < length (m_workers s)" "m_workers s ! i \<noteq> Asleep" "m_workers s ! i \<noteq> Returned" for i
    using that by (cases "m_workers s ! i") (blast intro: pool_step.intros)+
  show ?thesis
  proof (cases "client s")
    case Ready
    then show ?thesis
    proof (cases "calls s")
      case (Cons c cs')
      then show ?thesis using Ready by (cases c) (blast intro: pool_step.intros)+
    qed (simp add: pool_done_def)
  next
    case Notify_work
    then show ?thesis by (metis in_set_conv_nth notify_none notify_one)
  next
    case Sync_asleep
    show ?thesis
    proof (cases "m_jobs s = 0")
      case True
      then show ?thesis using pool_invD(4) [OF inv Sync_asleep] worker by (metis in_set_conv_nth worker.distinct)
    next
      case False
      then obtain w where "w \<in> set (m_workers s)" "busy w \<noteq> 0" using pool_invD(1) [OF inv] by auto
      then have "w \<noteq> Asleep" "w \<noteq> Returned" by auto
      then show ?thesis using worker \<open>w \<in> set (m_workers s)\<close> by (metis in_set_conv_nth)
    qed
  next
    case (Joining i)
    have i: "i \<le> length (m_workers s)" "Asleep \<notin> set (m_workers s)" using pool_invD(7) [OF inv Joining] by auto
    then show ?thesis
    proof (cases "i = length (m_workers s)")
      case False
      then have "i < length (m_workers s)" using i by simp
      then show ?thesis using worker [of i] i(2) Joining join by (metis nth_mem)
    qed (use Joining in \<open>blast intro: joined\<close>)
  qed (auto simp: pool_done_def intro: pool_step.intros)
qed

text \<open>C8: No deadlock and no lost wake-up: as long as the client is not done some thread can move without
  waiting for a spurious wake-up.\<close>

theorem pool_no_deadlock:
  assumes "pool_reachable workers cs s"
  shows "pool_done s \<or> (\<exists>t. pool_step s t)"
  by (rule pool_progress [OF assms])

text \<open>A bound on the steps that are left.  A queued task is worth the steps of a worker that takes it; a call
  is worth its own steps and those of the threads it wakes.\<close>

fun worker_cost :: "'f worker \<Rightarrow> nat" where
  "worker_cost At_lock = 1"
| "worker_cost Asleep = 0"
| "worker_cost (Running f) = 5"
| "worker_cost Finished = 4"
| "worker_cost Notifying = 3"
| "worker_cost Returned = 0"

fun client_cost :: "nat \<Rightarrow> 'f client \<Rightarrow> nat" where
  "client_cost n Ready = 0"
| "client_cost n Notify_work = 2"
| "client_cost n Sync_lock = 2"
| "client_cost n (Sync_task f) = 3"
| "client_cost n Sync_asleep = 0"
| "client_cost n Sync_woken = 1"
| "client_cost n Exiting = 2 * n + 2"
| "client_cost n (Joining i) = n - i + 1"
| "client_cost n Destroyed = 0"

fun call_cost :: "nat \<Rightarrow> 'f call \<Rightarrow> nat" where
  "call_cost n (Queue f) = 8"
| "call_cost n Sync = 3"
| "call_cost n Destroy = 2 * n + 3"

definition pool_cost :: "'f pool \<Rightarrow> nat" where
  "pool_cost s = sum_list (map worker_cost (m_workers s)) + 5 * length (m_queue s) +
     client_cost (length (m_workers s)) (client s) + sum_list (map (call_cost (length (m_workers s))) (calls s))"

lemma wake_cost: "sum_list (map worker_cost (map wake ws)) \<le> sum_list (map worker_cost ws) + length ws"
proof (induction ws)
  case (Cons w ws)
  then show ?case by (cases w) (simp_all add: wake_def)
qed simp

lemma worker_cost_change:
  "i < length ws \<Longrightarrow> sum_list (map worker_cost (ws[i := w])) + worker_cost (ws ! i) = sum_list (map worker_cost ws) + worker_cost w"
  by (rule sum_list_upd)

lemma pool_step_cost:
  assumes "pool_step s t" "pool_inv s"
  shows "pool_cost t < pool_cost s"
  using assms(1)
proof cases
  case (notify_one i)
  then show ?thesis using worker_cost_change [OF notify_one(3), of At_lock] by (simp add: pool_cost_def set_worker_def)
next
  case destroy_notify
  then show ?thesis using wake_cost [of "m_workers s"] by (simp add: pool_cost_def notify_all_work_def)
next
  case (worker_locked i)
  then show ?thesis
    using worker_cost_change [OF worker_locked(2), of Asleep] worker_cost_change [OF worker_locked(2), of Returned]
      worker_cost_change [OF worker_locked(2), of "Running (last (m_queue s))"]
    by (cases "m_queue s") (auto simp: pool_cost_def worker_head_def set_worker_def pop_back_def)
next
  case (worker_ran i f)
  then show ?thesis using worker_cost_change [OF worker_ran(2), of Finished] by (simp add: pool_cost_def set_worker_def)
next
  case (worker_finished i)
  then show ?thesis
    using worker_cost_change [OF worker_finished(2), of Notifying] worker_cost_change [OF worker_finished(2), of At_lock]
    by (simp add: pool_cost_def worker_tail_def set_worker_def Let_def)
next
  case (worker_notifies i)
  then show ?thesis
    using worker_cost_change [OF worker_notifies(2), of At_lock] by (simp add: pool_cost_def notify_jobs_def set_worker_def)
next
  case sync_locked
  then show ?thesis by (cases "m_queue s") (simp_all add: pool_cost_def sync_head_def wait_jobs_def pop_back_def)
qed (simp_all add: pool_cost_def push_task_def wait_jobs_def Let_def)

lemma pool_steps_inv: "pool_step\<^sup>*\<^sup>* s t \<Longrightarrow> pool_inv s \<Longrightarrow> pool_inv t"
  by (induction rule: rtranclp_induct) (auto intro: pool_step_inv)

lemma pool_steps_cost:
  "(pool_step ^^ n) s t \<Longrightarrow> pool_inv s \<Longrightarrow> pool_inv t \<and> pool_cost t + n \<le> pool_cost s"
proof (induction n arbitrary: t)
  case (Suc n)
  from Suc.prems(1) obtain u where u: "(pool_step ^^ n) s u" "pool_step u t" by auto
  with Suc.IH [OF u(1) Suc.prems(2)] pool_step_cost [OF u(2)] pool_step_inv [OF u(2)] show ?case by auto
qed simp

text \<open>C12: Termination: without spurious wake-ups a run of \<open>n\<close> workers in all makes at most \<open>8\<close> steps per
  \<open>Queue\<close>, \<open>3\<close> per \<open>Sync\<close>, \<open>2 * n + 1\<close> per destruction and one per worker thread; no schedule runs for
  ever.\<close>

theorem pool_run_bounded:
  assumes "new_pool n cs = Some s" "(pool_step ^^ k) s t"
  shows "k \<le> n - 1 + sum_list (map (call_cost (n - 1)) cs)"
proof -
  have "pool_cost s = n - 1 + sum_list (map (call_cost (n - 1)) cs)"
    using assms(1) by (auto simp: new_pool_def pool_cost_def sum_list_replicate split: if_splits)
  then show ?thesis using pool_steps_cost [OF assms(2) new_pool_inv [OF assms(1)]] by linarith
qed

lemma pool_steps_reachable: "pool_step\<^sup>*\<^sup>* s t \<Longrightarrow> pool_reachable n cs s \<Longrightarrow> pool_reachable n cs t"
  by (induction rule: rtranclp_induct) (auto intro: pool_reachable.step)

lemma pool_reaches_end: "pool_reachable n cs s \<Longrightarrow> \<exists>t. pool_step\<^sup>*\<^sup>* s t \<and> (\<nexists>u. pool_step t u)"
proof (induction "pool_cost s" arbitrary: s rule: less_induct)
  case less
  show ?case
  proof (cases "\<exists>u. pool_step s u")
    case True
    then obtain u where u: "pool_step s u" by blast
    then have "pool_reachable n cs u" using less.prems by (rule pool_reachable.step [rotated])
    moreover have "pool_cost u < pool_cost s" by (rule pool_step_cost [OF u pool_reachable_inv [OF less.prems]])
    ultimately show ?thesis using less.hyps u by (meson converse_rtranclp_into_rtranclp)
  qed blast
qed

section \<open>A batch of tasks\<close>

text \<open>The way the program uses the pool: tasks are queued, then \<open>Sync\<close> is called.\<close>

definition batch :: "'f list \<Rightarrow> 'f call list" where
  "batch fs = map Queue fs @ [Sync]"

definition batch_inv :: "'f list \<Rightarrow> 'f pool \<Rightarrow> bool" where
  "batch_inv fs s \<longleftrightarrow>
     (client s = Ready \<or> client s = Notify_work) \<and> (\<exists>gs. calls s = map Queue gs @ [Sync] \<and> submitted s @ gs = fs) \<or>
     calls s = [] \<and> submitted s = fs \<and>
       (client s = Sync_lock \<or> (\<exists>f. client s = Sync_task f) \<or> client s = Sync_asleep \<or> client s = Sync_woken \<or>
        client s = Ready \<and> mset (executed s) = mset fs)"

lemma batch_calls: "Queue f # cs = map Queue gs @ [Sync] \<Longrightarrow> \<exists>gs'. gs = f # gs' \<and> cs = map Queue gs' @ [Sync]"
    "Sync # cs = map Queue gs @ [Sync] \<Longrightarrow> gs = [] \<and> cs = []"
    "Destroy # cs \<noteq> map Queue gs @ [Sync]"
  by (cases gs; simp)+

lemma batch_worker:
  assumes "batch_inv fs s" "calls t = calls s" "submitted t = submitted s" "client t = client s" "executed t = executed s"
  shows "batch_inv fs t"
  using assms by (simp add: batch_inv_def)

lemma pool_step_batch:
  assumes "pool_step s t" "batch_inv fs s" "pool_inv s"
  shows "batch_inv fs t"
  using assms(1)
proof cases
  case (queue f cs)
  then show ?thesis using assms(2) batch_calls(1) [of f cs] by (auto simp: batch_inv_def push_task_def Let_def)
next
  case (notify_one i)
  then show ?thesis using assms(2) by (auto simp: batch_inv_def set_worker_def)
next
  case notify_none
  then show ?thesis using assms(2) by (auto simp: batch_inv_def)
next
  case (sync cs)
  then show ?thesis using assms(2) batch_calls(2) [of cs] by (auto simp: batch_inv_def)
next
  case sync_locked
  show ?thesis
  proof (cases "client t = Ready")
    case True
    have "mset (executed t) = mset (submitted t)"
      using pool_step_inv [OF assms(1,3)] sync_locked True no_hands [of "m_workers t"]
      by (auto simp: pool_inv_def in_hand_def sync_head_def wait_jobs_def split: if_splits)
    then show ?thesis using assms(2) sync_locked True by (auto simp: batch_inv_def sync_head_def wait_jobs_def split: if_splits)
  next
    case False
    then show ?thesis
      using assms(2) sync_locked by (auto simp: batch_inv_def sync_head_def wait_jobs_def pop_back_def split: if_splits)
  qed
next
  case (sync_ran f)
  then show ?thesis using assms(2) by (auto simp: batch_inv_def)
next
  case sync_checks
  have "client t = Ready \<Longrightarrow> mset (executed t) = mset (submitted t)"
    using pool_step_inv [OF assms(1,3)] sync_checks assms(3) no_hands [of "m_workers t"]
    by (auto simp: pool_inv_def in_hand_def wait_jobs_def split: if_splits)
  then show ?thesis using assms(2) sync_checks by (auto simp: batch_inv_def wait_jobs_def split: if_splits)
next
  case (destroy cs)
  then show ?thesis using assms(2) batch_calls(3) [of cs] by (auto simp: batch_inv_def)
next
  case (worker_ran i f)
  show ?thesis
  proof (cases "calls s = [] \<and> client s = Ready")
    case True
    then have "mset (executed s) = mset (submitted s)" using assms(2) by (simp add: batch_inv_def)
    moreover have "mset (submitted s) = mset (executed t) + mset (m_queue t) + in_hand t"
      using pool_invD(2) [OF pool_step_inv [OF assms(1,3)]] by (simp add: worker_ran(1) set_worker_def)
    ultimately show ?thesis by (simp add: worker_ran(1))
  next
    case False
    then show ?thesis using assms(2) by (auto simp: worker_ran(1) batch_inv_def set_worker_def)
  qed
next
  case (worker_notifies i)
  then show ?thesis using assms(2) by (auto simp: batch_inv_def notify_jobs_def set_worker_def)
qed (use assms(2) in \<open>auto simp: batch_inv_def set_worker_def worker_head_def worker_tail_def pop_back_def Let_def\<close>)

lemma pool_steps_batch:
  "pool_step\<^sup>*\<^sup>* s t \<Longrightarrow> batch_inv fs s \<Longrightarrow> pool_inv s \<Longrightarrow> batch_inv fs t \<and> pool_inv t"
  by (induction rule: rtranclp_induct) (auto intro: pool_step_batch pool_step_inv)

lemma pool_batch_result:
  assumes "new_pool n (batch fs) = Some s" "pool_step\<^sup>*\<^sup>* s t" "\<nexists>u. pool_step t u"
  shows "client t = Ready \<and> calls t = [] \<and> mset (executed t) = mset fs"
proof -
  have start: "pool_reachable n (batch fs) s" by (rule pool_reachable.start [OF assms(1)])
  have "batch_inv fs s" using assms(1) by (auto simp: batch_inv_def new_pool_def batch_def split: if_splits)
  then have "batch_inv fs t" using pool_steps_batch [OF assms(2)] new_pool_inv [OF assms(1)] by blast
  moreover have "pool_done t" using pool_progress [OF pool_steps_reachable [OF assms(2) start]] assms(3) by blast
  ultimately show ?thesis by (auto simp: batch_inv_def pool_done_def)
qed

lemma pool_batch_ends: "new_pool n (batch fs) = Some s \<Longrightarrow> \<exists>t. pool_step\<^sup>*\<^sup>* s t \<and> (\<nexists>u. pool_step t u)"
  by (rule pool_reaches_end) (rule pool_reachable.start)

lemma pool_no_endless_run:
  assumes "pool_inv (r 0)"
  shows "\<not> (\<forall>k. pool_step (r k) (r (Suc k)))"
proof
  assume run: "\<forall>k. pool_step (r k) (r (Suc k))"
  have "(pool_step ^^ k) (r 0) (r k)" for k
  proof (induction k)
    case (Suc k)
    then show ?case using run by auto
  qed simp
  from pool_steps_cost [OF this assms, of "Suc (pool_cost (r 0))"] show False by simp
qed

text \<open>C10: A batch of tasks: no schedule of the threads goes on for ever (a condition variable wakes up only those it
  is notified for), every one that has been started can be continued to its end, and at every end \<open>Sync\<close> has
  returned, the client has no call left and each task has been executed exactly once.  When the effects of the tasks on
  some state commute, the state at the end is the one that running them in the order of the queue gives.\<close>

theorem pool_runs_batch:
  assumes "new_pool n (batch fs) = Some s"
  shows "(\<nexists>r. r 0 = s \<and> (\<forall>k. pool_step (r k) (r (Suc k)))) \<and>
    (\<forall>t. pool_step\<^sup>*\<^sup>* s t \<longrightarrow> (\<exists>u. pool_step\<^sup>*\<^sup>* t u \<and> (\<nexists>v. pool_step u v))) \<and>
    (\<forall>t. pool_step\<^sup>*\<^sup>* s t \<and> (\<nexists>u. pool_step t u) \<longrightarrow>
      client t = Ready \<and> calls t = [] \<and> mset (executed t) = mset fs \<and>
      ((\<forall>f \<in> set fs. \<forall>g \<in> set fs. effect f \<circ> effect g = effect g \<circ> effect f) \<longrightarrow> fold effect (executed t) m = fold effect fs m))"
proof (intro conjI allI impI; (elim conjE)?)
  show "\<nexists>r. r 0 = s \<and> (\<forall>k. pool_step (r k) (r (Suc k)))" using pool_no_endless_run new_pool_inv [OF assms] by blast
  show "\<exists>u. pool_step\<^sup>*\<^sup>* t u \<and> (\<nexists>v. pool_step u v)" if "pool_step\<^sup>*\<^sup>* s t" for t
    by (rule pool_reaches_end [OF pool_steps_reachable [OF that pool_reachable.start [OF assms]]])
  fix t assume t: "pool_step\<^sup>*\<^sup>* s t" "\<nexists>u. pool_step t u"
  note e = pool_batch_result [OF assms t]
  then show "client t = Ready" "calls t = []" "mset (executed t) = mset fs" by blast+
  then have "set (executed t) = set fs" by (metis set_mset_mset)
  then show "fold effect (executed t) m = fold effect fs m"
    if "\<forall>f \<in> set fs. \<forall>g \<in> set fs. effect f \<circ> effect g = effect g \<circ> effect f"
    using that fold_multiset_equiv [of "executed t" effect fs] e by metis
qed

section \<open>A run\<close>

text \<open>A batch of two tasks with one worker thread: the worker takes the second task while the client, in
  \<open>Sync\<close>, runs the first.\<close>

definition sample_pool :: "nat client \<Rightarrow> nat call list \<Rightarrow> nat worker \<Rightarrow> nat \<Rightarrow> nat list \<Rightarrow> nat list \<Rightarrow> nat list \<Rightarrow> nat pool" where
  "sample_pool c cs w jobs q sub ex = \<lparr>m_queue = q, m_exit = False, m_jobs = jobs, m_workers = [w], client = c, calls = cs,
     submitted = sub, executed = ex\<rparr>"

lemma sample_fields:
  "m_queue (sample_pool c cs w jobs q sub ex) = q" "m_workers (sample_pool c cs w jobs q sub ex) = [w]"
  "client (sample_pool c cs w jobs q sub ex) = c" "calls (sample_pool c cs w jobs q sub ex) = cs"
  "m_jobs (sample_pool c cs w jobs q sub ex) = jobs" "submitted (sample_pool c cs w jobs q sub ex) = sub"
  "executed (sample_pool c cs w jobs q sub ex) = ex"
  by (simp_all add: sample_pool_def)

lemma sample_start: "new_pool 2 (batch [10, 20]) = Some (sample_pool Ready [Queue 10, Queue 20, Sync] At_lock 0 [] [] [])"
  by (simp add: new_pool_def batch_def sample_pool_def)

lemma sample_run:
  shows sample_taken: "pool_reachable 2 (batch [10, 20]) (sample_pool (Sync_task 10) [] (Running 20) 1 [] [10, 20] [])"
    and sample_waits: "pool_reachable 2 (batch [10, 20]) (sample_pool Sync_woken [] At_lock 0 [] [10, 20] [10, 20])"
proof -
  let ?R = "pool_reachable 2 (batch [10, 20])"
  note d = push_task_def worker_head_def worker_tail_def set_worker_def pop_back_def sync_head_def wait_jobs_def notify_jobs_def Let_def
  have "?R (sample_pool Ready [Queue 10, Queue 20, Sync] At_lock 0 [] [] [])" by (rule pool_reachable.start [OF sample_start])
  from pool_reachable.step [OF this queue]
  have "?R (sample_pool Ready [Queue 20, Sync] At_lock 0 [10] [10] [])" by (simp add: d sample_pool_def)
  from pool_reachable.step [OF this queue]
  have "?R (sample_pool Notify_work [Sync] At_lock 0 [10, 20] [10, 20] [])" by (simp add: d sample_pool_def)
  from pool_reachable.step [OF this worker_locked [of 0]]
  have "?R (sample_pool Notify_work [Sync] (Running 20) 1 [10] [10, 20] [])" by (simp add: d sample_pool_def)
  from pool_reachable.step [OF this notify_none]
  have "?R (sample_pool Ready [Sync] (Running 20) 1 [10] [10, 20] [])" by (simp add: d sample_pool_def)
  from pool_reachable.step [OF this sync]
  have "?R (sample_pool Sync_lock [] (Running 20) 1 [10] [10, 20] [])" by (simp add: d sample_pool_def)
  from pool_reachable.step [OF this sync_locked]
  show taken: "?R (sample_pool (Sync_task 10) [] (Running 20) 1 [] [10, 20] [])" by (simp add: d sample_pool_def)
  from pool_reachable.step [OF this sync_ran]
  have "?R (sample_pool Sync_lock [] (Running 20) 1 [] [10, 20] [10])" by (simp add: d sample_pool_def)
  from pool_reachable.step [OF this sync_locked]
  have "?R (sample_pool Sync_asleep [] (Running 20) 1 [] [10, 20] [10])" by (simp add: d sample_pool_def)
  from pool_reachable.step [OF this worker_ran [of 0]]
  have "?R (sample_pool Sync_asleep [] Finished 1 [] [10, 20] [10, 20])" by (simp add: d sample_pool_def)
  from pool_reachable.step [OF this worker_finished [of 0]]
  have "?R (sample_pool Sync_asleep [] Notifying 0 [] [10, 20] [10, 20])" by (simp add: d sample_pool_def)
  from pool_reachable.step [OF this worker_notifies [of 0]]
  show "?R (sample_pool Sync_woken [] At_lock 0 [] [10, 20] [10, 20])" by (simp add: d sample_pool_def)
qed

lemma pool_accounts_for_tasks_witness:
  "let s = sample_pool (Sync_task 10) [] (Running 20) 1 [] [10, 20] [] in
    m_jobs s = length (filter (\<lambda>w. busy w = 1) (m_workers s)) \<and> m_jobs s \<le> length (m_workers s) \<and>
    mset (submitted s) = mset (executed s) + mset (m_queue s) + in_hand s"
  unfolding Let_def by (rule pool_accounts_for_tasks [OF sample_taken])

lemma sync_waits_for_all_witness:
  "let t = sample_pool Ready [] At_lock 0 [] [10, 20] [10, 20] in
    m_queue t = [] \<and> m_jobs t = 0 \<and> (\<forall>w \<in> set (m_workers t). busy w = 0) \<and> mset (executed t) = mset (submitted t)"
proof -
  have "pool_step (sample_pool Sync_woken [] At_lock 0 [] [10, 20] [10, 20]) (sample_pool Ready [] At_lock 0 [] [10, 20] [10, 20])"
    using sync_checks [of "sample_pool Sync_woken [] At_lock 0 [] [10, 20] [10, 20]"] by (simp add: wait_jobs_def sample_pool_def)
  from sync_waits_for_all [OF sample_waits this] show ?thesis by (simp add: sample_fields)
qed

lemma pool_no_deadlock_witness:
  "\<exists>t. pool_step (sample_pool (Sync_task 10) [] (Running 20) 1 [] [10, 20] []) t"
  using pool_no_deadlock [OF sample_taken] by (simp add: pool_done_def sample_fields)

lemma pool_run_bounded_witness:
  "(pool_step ^^ 1) (sample_pool Ready [Queue 10, Queue 20, Sync] At_lock 0 [] [] []) (sample_pool Ready [Queue 20, Sync] At_lock 0 [10] [10] []) \<and>
    1 \<le> 2 - 1 + sum_list (map (call_cost (2 - 1)) (batch [10, 20 :: nat]))"
proof -
  have "(pool_step ^^ 1) (sample_pool Ready [Queue 10, Queue 20, Sync] At_lock 0 [] [] []) (sample_pool Ready [Queue 20, Sync] At_lock 0 [10] [10] [])"
    using queue [of "sample_pool Ready [Queue 10, Queue 20, Sync] At_lock 0 [] [] []"] by (simp add: sample_pool_def push_task_def Let_def eq_OO)
  with pool_run_bounded [OF sample_start this] show ?thesis by blast
qed

lemma pool_runs_batch_witness:
  "\<exists>t. pool_step\<^sup>*\<^sup>* (sample_pool Ready [Queue 10, Queue 20, Sync] At_lock 0 [] [] []) t \<and> client t = Ready \<and>
      mset (executed t) = mset [10, 20] \<and> fold (+) (executed t) (0 :: nat) = 30"
proof -
  let ?s = "sample_pool Ready [Queue 10, Queue 20, Sync] At_lock 0 [] [] []"
  note pool_runs_batch [OF sample_start, THEN conjunct2, THEN conjunct1, THEN spec, THEN mp, OF rtranclp.rtrancl_refl]
  then obtain u where u: "pool_step\<^sup>*\<^sup>* ?s u" "\<nexists>v. pool_step u v" by (elim exE conjE)
  have c: "\<forall>f \<in> set [10, 20]. \<forall>g \<in> set [10, 20]. (+) f \<circ> (+) g = (+) g \<circ> (+) (f :: nat)" by (simp add: o_def ac_simps)
  note e = pool_runs_batch [OF sample_start, of "(+)" 0, THEN conjunct2, THEN conjunct2, THEN spec, THEN mp, OF conjI [OF u]]
  have "fold (+) (executed u) (0 :: nat) = fold (+) [10, 20] 0" by (rule e [THEN conjunct2, THEN conjunct2, THEN conjunct2, THEN mp, OF c])
  then have "fold (+) (executed u) (0 :: nat) = 30" by simp
  then show ?thesis using u(1) e [THEN conjunct1] e [THEN conjunct2, THEN conjunct2, THEN conjunct1] by blast
qed

end
