(* ===== verification/Jobs.thy ===== *)
theory Jobs imports Prelude begin

text \<open>
  How the main path cuts an image into bands of 32 rows of blocks, one for each task of the dispatcher
  (\<open>src/Application.cpp\<close>).
\<close>

section \<open>The tasks\<close>

text \<open>What the lambda of a task captures: where its rows of the image start, how many blocks they hold, the offset
  of its words in the file and the number of its array.\<close>

record job =
  job_src :: "u32 list"
  job_blocks :: u32
  job_offset :: nat
  job_slot :: nat

definition parts :: "nat \<Rightarrow> nat" where
  "parts hgt = (hgt div 4 + 32 - 1) div 32"

definition queue_job :: "u32 list \<Rightarrow> nat \<Rightarrow> nat \<Rightarrow> job list \<times> nat \<times> nat \<times> nat \<Rightarrow> job list \<times> nat \<times> nat \<times> nat" where
  "queue_job src width j st = (case st of (js, linesLeft, ptr, offset) \<Rightarrow> let lines = min 32 linesLeft in
     (js @ [\<lparr>job_src = drop ptr src, job_blocks = of_nat (width * lines div 4), job_offset = offset, job_slot = j\<rparr>],
      linesLeft - lines, ptr + width * lines * 4, offset + width * lines div 4))"

definition jobs :: "u32 list \<Rightarrow> nat \<Rightarrow> nat \<Rightarrow> job list" where
  "jobs src width hgt = fst (fold (queue_job src width) [0..<parts hgt] ([], hgt div 4, 0, 0))"

section \<open>The bands\<close>

lemma parts_bounds: "hgt = 4 * m \<Longrightarrow> 32 * parts hgt \<le> m + 31 \<and> m \<le> 32 * parts hgt"
  unfolding parts_def by simp presburger

lemma jobs_bands:
  assumes "width = 4 * n" "hgt = 4 * m"
  shows "jobs src width hgt = map (\<lambda>j. \<lparr>job_src = drop (4 * width * (32 * j)) src, job_blocks = of_nat (n * min 32 (m - 32 * j)),
    job_offset = 32 * j * n, job_slot = j\<rparr>) [0..<parts hgt]"
proof -
  have "32 * j \<le> m + 31 \<Longrightarrow> fold (queue_job src width) [0..<j] ([], m, 0, 0) =
     (map (\<lambda>j. \<lparr>job_src = drop (4 * width * (32 * j)) src, job_blocks = of_nat (n * min 32 (m - 32 * j)),
        job_offset = 32 * j * n, job_slot = j\<rparr>) [0..<j], m - 32 * j, 4 * width * min m (32 * j), min m (32 * j) * n)" for j
  proof (induction j)
    case (Suc j)
    then have "32 * j \<le> m" by simp
    moreover have "min m (32 * Suc j) = 32 * j + min 32 (m - 32 * j)" using calculation by simp
    ultimately show ?case using Suc by (simp add: queue_job_def Let_def assms(1) algebra_simps)
  qed simp
  moreover have "32 * parts hgt \<le> m + 31" using parts_bounds [OF assms(2)] by blast
  ultimately show ?thesis by (simp add: jobs_def assms(2))
qed

text \<open>The blocks of band \<open>j\<close>, and the bands in order.\<close>

definition band :: "nat \<Rightarrow> nat \<Rightarrow> nat \<Rightarrow> nat list" where
  "band n m j = [32 * j * n..<32 * j * n + n * min 32 (m - 32 * j)]"

lemma bands_up_to: "32 * j \<le> m + 31 \<Longrightarrow> concat (map (band n m) [0..<j]) = [0..<min m (32 * j) * n]"
proof (induction j)
  case (Suc j)
  then have j: "32 * j \<le> m" by simp
  then have "concat (map (band n m) [0..<j]) = [0..<32 * j * n]" using Suc by simp
  then have "concat (map (band n m) [0..<Suc j]) = [0..<32 * j * n] @ [32 * j * n..<32 * j * n + n * min 32 (m - 32 * j)]"
    by (simp add: band_def)
  also have "\<dots> = [0..<32 * j * n + n * min 32 (m - 32 * j)]" by (simp only: upt_add_eq_append [OF zero_le])
  also have "32 * j * n + n * min 32 (m - 32 * j) = (32 * j + min 32 (m - 32 * j)) * n" by (simp only: distrib_right mult.commute [of n])
  also have "32 * j + min 32 (m - 32 * j) = min m (32 * Suc j)" using j by simp
  finally show ?case .
qed simp

lemma bands_cover: "hgt = 4 * m \<Longrightarrow> concat (map (band n m) [0..<parts hgt]) = [0..<n * m]"
  using bands_up_to [of "parts hgt" m n] parts_bounds [of hgt m] by (simp only: min_absorb1 mult.commute)

lemma concat_map_concat: "concat (map f (concat (map g xs))) = concat (map (\<lambda>x. concat (map f (g x))) xs)"
  by (induction xs) simp_all

end
