(* ===== verification/Pipeline.thy ===== *)
theory Pipeline imports Container GpuPass TaskDispatch Jobs begin

text \<open>
  The main path of the program (\<open>main\<close> in \<open>src/Application.cpp\<close>, the branch of a single target file): the image
  is cut into bands of 32 rows of blocks, each band is a task of the dispatcher that compresses into its own part
  of the file and reports its blocks of high error into its own array, and after \<open>Sync\<close> the arrays are put
  together and handed to the second pass on the GPU.
\<close>

section \<open>The tasks\<close>

text \<open>What the tasks share: the file and the arrays of their reports.\<close>

record session =
  out_file :: block_data
  pixelMat :: "pix_array list"

text \<open>The block compressors of a task that starts at the word \<open>off\<close> of the file.\<close>

definition shift_encoders :: "nat \<Rightarrow> block_encoders \<Rightarrow> block_encoders" where
  "shift_encoders off be = be\<lparr>code_etc2 := \<lambda>k. code_etc2 be (off + k)\<rparr>"

definition run_job :: "simd \<Rightarrow> block_encoders \<Rightarrow> error_encoder \<Rightarrow> nat \<Rightarrow> bool \<Rightarrow> Channels \<Rightarrow> bool \<Rightarrow> bool \<Rightarrow> job \<Rightarrow> session \<Rightarrow>
    session option" where
  "run_job simd be enc width rgba channel dither useHeuristics job st = (let off = job_offset job; pa = pixelMat st ! job_slot job in do {
     (bd, pa) \<leftarrow> (if rgba \<or> m_type (out_file st) = Dxt5
       then ProcessRGBA_array simd be (\<lambda>k. enc (off * 2 + k)) (job_src job) (job_blocks job) pa off width useHeuristics (out_file st)
       else Process_array simd (shift_encoders off be) (\<lambda>k. enc (off + k)) (job_src job) (job_blocks job) pa off width channel dither
         useHeuristics (out_file st));
     Some (st\<lparr>out_file := bd, pixelMat := (pixelMat st)[job_slot job := pa]\<rparr>)
   })"

text \<open>The arrays start empty, with an entry for every four pixels of the image.\<close>

definition new_session :: "block_data \<Rightarrow> PixBlock \<Rightarrow> nat \<Rightarrow> nat \<Rightarrow> session" where
  "new_session bd junk width hgt =
     \<lparr>out_file = bd, pixelMat = replicate (parts hgt) (replicate (width * (hgt div 4)) junk, 0)\<rparr>"

text \<open>The reports, one array after the other.\<close>

definition finalPipe :: "pix_array list \<Rightarrow> PixBlock list" where
  "finalPipe mats = concat (map (\<lambda>(pipe, size). take size pipe) mats)"

section \<open>The second pass on the file\<close>

definition gpu_update :: "(PixBlock list \<Rightarrow> PixBlock list) \<Rightarrow> (u8 list \<Rightarrow> nat \<Rightarrow> nat \<Rightarrow> u8 list) \<Rightarrow> PixBlock list \<Rightarrow> rat \<Rightarrow>
    block_data \<Rightarrow> block_data option" where
  "gpu_update srt encode pipe quality bd = do {
     ws \<leftarrow> get_words 0 (file_room bd) bd;
     ws \<leftarrow> ProcessWithGPU srt encode pipe quality ws;
     put_words 0 ws bd
   }"

section \<open>The bands\<close>

lemma image_block_band:
  assumes "width = 4 * n" "0 < n" "4 * width * r \<le> length src"
  shows "image_block f (drop (4 * width * r) src) width k = image_block f src width (r * n + k)"
proof -
  have "block_pos width (r * n + k) = 4 * width * r + block_pos width k"
    using assms(2) by (simp add: block_pos_def assms(1) algebra_simps)
  then show ?thesis
    unfolding image_block_def block_at_def by (simp add: nth_drop assms(3) add.assoc)
qed

section \<open>One task\<close>

definition encoded :: "error_encoder \<Rightarrow> bool \<Rightarrow> u32 list \<Rightarrow> nat \<Rightarrow> nat \<Rightarrow> u64" where
  "encoded enc h src width k = fst (enc k (bytes_of (image_block id src width k)) h)"

definition reports :: "error_encoder \<Rightarrow> bool \<Rightarrow> u32 list \<Rightarrow> nat \<Rightarrow> nat list \<Rightarrow> PixBlock list" where
  "reports enc h src width ks = concat (map (\<lambda>k. report enc h (image_block id src width k) k) ks)"

lemma relocate_report: "relocate off (report (\<lambda>k. enc (off + k)) h buf k) = report enc h buf (off + k)"
  by (simp add: relocate_def report_def split: prod.splits)

lemma relocate_concat: "relocate off (concat xs) = concat (map (relocate off) xs)"
  by (simp add: relocate_def map_concat)

lemma length_relocate [simp]: "length (relocate off xs) = length xs"
  by (simp add: relocate_def)

lemma Process_array_band:
  assumes "width = 4 * n" "0 < n" "4 * width * r \<le> length src" "m_type bd = Etc2_RGB"
    and "loop_count blocks = c" "c \<le> length arr" "reads_within (drop (4 * width * r) src) width blocks"
  shows "Process_array simd be (\<lambda>k. enc (r * n + k)) (drop (4 * width * r) src) blocks (arr, 0) (r * n) width RGB dither h bd =
    map_option (\<lambda>bd. (bd, (reports enc h src width [r * n..<r * n + c] @ drop (length (reports enc h src width [r * n..<r * n + c])) arr,
        length (reports enc h src width [r * n..<r * n + c]))))
      (put_words (r * n) (map (encoded enc h src width) [r * n..<r * n + c]) bd)"
proof -
  let ?src = "drop (4 * width * r) src" and ?enc = "\<lambda>k. enc (r * n + k)"
  have rel: "relocate (r * n) (reported ?enc h ?src width c) = reports enc h src width [r * n..<r * n + c]"
    by (simp add: reported_def reports_def relocate_concat o_def relocate_report upt_add_shift image_block_band [OF assms(1-3)])
  have words: "map (\<lambda>k. fst (?enc k (bytes_of (image_block id ?src width k)) h)) [0..<c] = map (encoded enc h src width) [r * n..<r * n + c]"
    by (simp add: encoded_def upt_add_shift image_block_band [OF assms(1-3)])
  have len: "length (reports enc h src width [r * n..<r * n + c]) = length (reported ?enc h ?src width c)"
    by (simp flip: rel)
  have "length (reported ?enc h ?src width c) \<le> length arr" using reported_length assms(6) by (meson order_trans)
  then have "CompressEtc2Rgb_array simd ?enc ?src (arr, 0) blocks width h = (map (encoded enc h src width) [r * n..<r * n + c],
      Some (reported ?enc h ?src width c @ drop (length (reported ?enc h ?src width c)) arr, length (reported ?enc h ?src width c)))"
    unfolding CompressEtc2Rgb_array_def rgb.block_loop_fold [OF assms(1,2)] image_block_def [symmetric] fold_emit_array
    by (simp add: store_all_result assms(5) words)
  then show ?thesis
    by (cases "put_words (r * n) (map (encoded enc h src width) [r * n..<r * n + c]) bd")
      (simp_all add: Process_array_def assms(4,7) relocate_array_def rel len)
qed

section \<open>Any order of the tasks\<close>

text \<open>Task \<open>j\<close> of an ETC2 file, and the array it leaves.\<close>

definition band_job :: "u32 list \<Rightarrow> nat \<Rightarrow> nat \<Rightarrow> nat \<Rightarrow> nat \<Rightarrow> job" where
  "band_job src width n m j = \<lparr>job_src = drop (4 * width * (32 * j)) src, job_blocks = of_nat (n * min 32 (m - 32 * j)),
     job_offset = 32 * j * n, job_slot = j\<rparr>"

definition filled :: "pix_array \<Rightarrow> PixBlock list \<Rightarrow> pix_array" where
  "filled pa ps = (ps @ drop (length ps) (fst pa), length ps)"

definition job_store :: "error_encoder \<Rightarrow> bool \<Rightarrow> u32 list \<Rightarrow> nat \<Rightarrow> nat \<Rightarrow> nat \<Rightarrow> nat \<Rightarrow> nat \<times> u64 list" where
  "job_store enc h src width n m j = (32 * j * n, map (encoded enc h src width) (band n m j))"

lemma run_band_job:
  assumes "width = 4 * n" "0 < n" "4 * (width * m) \<le> length src" "n * m < 2 ^ 32" "32 * j < m"
    and "m_type (out_file st) = Etc2_RGB" "pixelMat st ! j = (arr, 0)" "n * m \<le> length arr"
  shows "run_job simd be enc width False RGB dither h (band_job src width n m j) st =
    map_option (\<lambda>bd. st\<lparr>out_file := bd, pixelMat := (pixelMat st)[j := filled (arr, 0) (reports enc h src width (band n m j))]\<rparr>)
      (case job_store enc h src width n m j of (pos, ws) \<Rightarrow> put_words pos ws (out_file st))"
proof -
  define c where "c = n * min 32 (m - 32 * j)"
  have c: "0 < c" "c \<le> n * m" using assms(2,5) by (simp_all add: c_def)
  have count: "loop_count (of_nat c) = c" using c assms(4) by (intro loop_count_exact) simp_all
  have "width * (32 * j) \<le> width * m" using assms(5) by (intro mult_le_mono2) simp
  then have fit: "4 * width * (32 * j) \<le> length src" using assms(3) by (simp only: mult.assoc)
  have room: "c \<le> length arr" using c(2) assms(8) by simp
  have "reads_within (drop (4 * width * (32 * j)) src) width (of_nat c)"
  proof -
    have "width * (32 * j + min 32 (m - 32 * j)) \<le> width * m" using assms(5) by (intro mult_le_mono2) simp
    then have "4 * width * min 32 (m - 32 * j) \<le> length (drop (4 * width * (32 * j)) src)"
      using assms(3) by (simp add: algebra_simps)
    then show ?thesis using reads_within_rows [OF assms(1,2) _ count [unfolded c_def]] assms(5) by (simp add: c_def)
  qed
  from Process_array_band [OF assms(1,2) fit assms(6) count room this, of simd "shift_encoders (32 * j * n) be" enc dither h] show ?thesis
    unfolding run_job_def band_job_def job_store_def band_def c_def [symmetric] filled_def Let_def
    by (cases "put_words (32 * j * n) (map (encoded enc h src width) [32 * j * n..<32 * j * n + c]) (out_file st)")
      (simp_all add: assms(6,7))
qed

lemma fold_bind_None: "fold (\<lambda>x m. Option.bind m (f x)) xs None = None"
  by (induction xs) simp_all

lemma put_words_type: "put_words pos ws bd = Some bd' \<Longrightarrow> m_type bd' = m_type bd"
  by (elim put_wordsE) simp

lemma run_band_jobs:
  assumes "width = 4 * n" "0 < n" "4 * (width * m) \<le> length src" "n * m < 2 ^ 32"
    and "distinct js" "\<forall>j \<in> set js. 32 * j < m \<and> j < length (pixelMat st) \<and> snd (pixelMat st ! j) = 0 \<and> n * m \<le> length (fst (pixelMat st ! j))"
    and "m_type (out_file st) = Etc2_RGB"
    and "fold (\<lambda>(p, ws) m. Option.bind m (put_words p ws)) (map (job_store enc h src width n m) js) (Some (out_file st)) = Some bd"
  shows "\<exists>mats. fold (\<lambda>j m. Option.bind m (run_job simd be enc width False RGB dither h j)) (map (band_job src width n m) js) (Some st) =
      Some (st\<lparr>out_file := bd, pixelMat := mats\<rparr>) \<and> length mats = length (pixelMat st) \<and>
    (\<forall>i < length mats. mats ! i = (if i \<in> set js then filled (pixelMat st ! i) (reports enc h src width (band n m i)) else pixelMat st ! i))"
  using assms(5-8)
proof (induction js arbitrary: st)
  case (Cons j js)
  obtain pos ws where s: "job_store enc h src width n m j = (pos, ws)" by (cases "job_store enc h src width n m j")
  obtain bd1 where bd1: "put_words pos ws (out_file st) = Some bd1"
    using Cons.prems(4) by (cases "put_words pos ws (out_file st)") (simp_all add: s fold_bind_None case_prod_beta)
  obtain arr where arr: "pixelMat st ! j = (arr, 0)" using Cons.prems(2) by (cases "pixelMat st ! j") auto
  define st1 where "st1 = st\<lparr>out_file := bd1, pixelMat := (pixelMat st)[j := filled (arr, 0) (reports enc h src width (band n m j))]\<rparr>"
  have run: "run_job simd be enc width False RGB dither h (band_job src width n m j) st = Some st1"
    using run_band_job [OF assms(1-4) _ Cons.prems(3) arr, of simd be enc dither h] Cons.prems(2) bd1 s
    by (simp add: st1_def arr)
  have "\<forall>i \<in> set js. 32 * i < m \<and> i < length (pixelMat st1) \<and> snd (pixelMat st1 ! i) = 0 \<and> n * m \<le> length (fst (pixelMat st1 ! i))"
    using Cons.prems(1,2) by (auto simp: st1_def nth_list_update)
  moreover have "fold (\<lambda>(p, ws) m. Option.bind m (put_words p ws)) (map (job_store enc h src width n m) js) (Some (out_file st1)) = Some bd"
    using Cons.prems(4) bd1 by (simp add: s st1_def)
  moreover have "m_type (out_file st1) = Etc2_RGB" using put_words_type [OF bd1] Cons.prems(3) by (simp add: st1_def)
  ultimately obtain mats where m: "fold (\<lambda>j m. Option.bind m (run_job simd be enc width False RGB dither h j))
      (map (band_job src width n m) js) (Some st1) = Some (st1\<lparr>out_file := bd, pixelMat := mats\<rparr>)" "length mats = length (pixelMat st1)"
    "\<forall>i < length mats. mats ! i = (if i \<in> set js then filled (pixelMat st1 ! i) (reports enc h src width (band n m i)) else pixelMat st1 ! i)"
    using Cons.IH [of st1] Cons.prems(1) by auto
  have "mats ! i = (if i \<in> set (j # js) then filled (pixelMat st ! i) (reports enc h src width (band n m i)) else pixelMat st ! i)"
    if "i < length mats" for i
    using m(2,3) that Cons.prems(1) arr by (cases "i = j") (auto simp: st1_def)
  then show ?case using m(1,2) run by (intro exI [of _ mats]) (simp add: st1_def)
next
  case (Nil st)
  then show ?case by (intro exI [of _ "pixelMat st"]) simp
qed

text \<open>A file of ETC2 blocks without mipmaps has room for the words of all its blocks.\<close>

lemma plain_file:
  assumes "create_file (int width, int hgt) False Etc2_RGB = Some bd" "width = 4 * n" "hgt = 4 * m" "0 < n" "0 < m" "width * hgt < 2 ^ 31"
  shows "file_size_ok (int width, int hgt)" "file_room bd = n * m" "m_type bd = Etc2_RGB" "n * m < 2 ^ 32"
proof -
  have "int width * int hgt < 2 ^ 31" using assms(6) by (metis of_nat_less_iff of_nat_mult of_nat_numeral of_nat_power)
  then show ok: "file_size_ok (int width, int hgt)" using assms(2-5) by (simp add: file_size_ok_def)
  obtain bd' where b: "create_file (int width, int hgt) False Etc2_RGB = Some bd'"
      "int (length (m_data bd')) = file_length (int width, int hgt) False Etc2_RGB" by (rule create_file_length [OF ok])
  have "int (length (m_data bd)) = 52 + 8 * int (n * m)"
    using b assms(1) by (simp add: file_length_def doubled_def assms(2,3))
  then have "length (m_data bd) = 52 + 8 * (n * m)" by linarith
  then show "file_room bd = n * m" "m_type bd = Etc2_RGB" using assms(1) by (auto simp: file_room_def elim!: create_fileE)
  show "n * m < 2 ^ 32" using assms(6) by (simp add: assms(2,3) mult.commute [of n])
qed

lemma bands_apart:
  assumes "distinct js" "0 < n"
  shows "sorted_wrt (\<lambda>(p, v) (q, w). p + length v \<le> q \<or> q + length w \<le> p) (map (job_store enc h src width n m) js)"
proof -
  have "32 * i * n + n * min 32 (m - 32 * i) \<le> 32 * j * n" if "i < j" for i j
  proof -
    have "32 * i * n + n * min 32 (m - 32 * i) \<le> (32 * i + 32) * n" by (simp add: algebra_simps)
    also have "\<dots> \<le> 32 * j * n" using that by (intro mult_le_mono1) simp
    finally show ?thesis .
  qed
  then have apart: "32 * i * n + n * min 32 (m - 32 * i) \<le> 32 * j * n \<or> 32 * j * n + n * min 32 (m - 32 * j) \<le> 32 * i * n" if "i \<noteq> j" for i j
    using that by (meson linorder_neqE_nat)
  show ?thesis
    using assms(1)
  proof (induction js)
    case (Cons j js)
    have "j \<noteq> i" if "i \<in> set js" for i using Cons.prems that by auto
    then show ?case using apart Cons by (simp add: job_store_def band_def)
  qed simp
qed

lemma in_band: "hgt = 4 * m \<Longrightarrow> j < parts hgt \<Longrightarrow> 32 * j < m"
  using parts_bounds [of hgt m] by linarith

lemma band_stores_fit:
  assumes "hgt = 4 * m" "0 < n" "set js = {0..<parts hgt}"
  shows "\<forall>(p, ws) \<in> set (map (job_store enc h src width n m) js). 0 < length ws \<and> p + length ws \<le> n * m"
proof -
  have "0 < n * min 32 (m - 32 * j) \<and> 32 * j * n + n * min 32 (m - 32 * j) \<le> n * m" if "j < parts hgt" for j
  proof -
    have j: "32 * j < m" by (rule in_band [OF assms(1) that])
    then have "32 * j + min 32 (m - 32 * j) \<le> m" by simp
    then have "n * (32 * j + min 32 (m - 32 * j)) \<le> n * m" by (rule mult_le_mono2)
    then show ?thesis using j assms(2) by (simp only: distrib_left mult.commute [of "32 * j" n]) simp
  qed
  then show ?thesis using assms(3) by (auto simp: job_store_def band_def)
qed

lemma jobs_order:
  assumes "width = 4 * n" "hgt = 4 * m" "mset order = mset (jobs src width hgt)"
  obtains js where "order = map (band_job src width n m) js" "distinct js" "set js = {0..<parts hgt}"
proof
  let ?js = "map job_slot order"
  have jobs: "jobs src width hgt = map (band_job src width n m) [0..<parts hgt]"
    unfolding jobs_bands [OF assms(1,2)] band_job_def ..
  have "set order = band_job src width n m ` {0..<parts hgt}" using mset_eq_setD [OF assms(3) [unfolded jobs]] by simp
  then show "order = map (band_job src width n m) ?js"
    unfolding map_map by (intro map_idI [symmetric]) (auto simp: band_job_def)
  have "mset ?js = mset (map job_slot (jobs src width hgt))" using assms(3) by (simp only: mset_map)
  then have e: "mset ?js = mset [0..<parts hgt]" unfolding jobs by (simp add: band_job_def o_def)
  show "distinct ?js" using mset_eq_imp_distinct_iff [OF e] by simp
  show "set ?js = {0..<parts hgt}" using mset_eq_setD [OF e] by simp
qed

lemma finalPipe_bands:
  assumes "hgt = 4 * m" "length mats = parts hgt" "\<forall>i < parts hgt. mats ! i = filled (arrs i) (reports enc h src width (band n m i))"
  shows "finalPipe mats = reported enc h src width (n * m)"
proof -
  have "mats = map (\<lambda>i. filled (arrs i) (reports enc h src width (band n m i))) [0..<parts hgt]"
    using assms(2,3) by (intro nth_equalityI) simp_all
  then have "finalPipe mats = concat (map (\<lambda>i. reports enc h src width (band n m i)) [0..<parts hgt])"
    by (simp add: finalPipe_def filled_def o_def)
  also have "\<dots> = reports enc h src width [0..<n * m]"
    unfolding bands_cover [OF assms(1), of n, symmetric] reports_def by (simp only: concat_map_concat)
  finally show ?thesis by (simp add: reports_def reported_def)
qed

lemma words_bands:
  assumes "hgt = 4 * m" "0 < n" "0 < m"
    and "\<And>j. j < parts hgt \<Longrightarrow> get_words (32 * j * n) (length (band n m j)) bd = Some (map f (band n m j))"
  shows "get_words 0 (n * m) bd = Some (map f [0..<n * m])"
proof (rule get_words_all)
  fix k assume "k < n * m"
  then have "k \<in> set (concat (map (band n m) [0..<parts hgt]))" unfolding bands_cover [OF assms(1)] by simp
  then obtain j where j: "j < parts hgt" "k \<in> set (band n m j)" by auto
  define i where "i = k - 32 * j * n"
  have i: "i < length (band n m j)" "32 * j * n + i = k" "band n m j ! i = k" using j(2) by (auto simp: band_def i_def)
  from get_words_nth [OF assms(4) [OF j(1)] i(1)] show "get_words k 1 bd = Some [f k]" by (simp only: i nth_map [OF i(1)])
qed (use assms(2,3) in simp)

text \<open>All tasks, in any order.\<close>

lemma run_all_jobs:
  assumes "width = 4 * n" "hgt = 4 * m" "0 < n" "0 < m" "width * hgt < 2 ^ 31" "length src = width * hgt"
    and "create_file (int width, int hgt) False Etc2_RGB = Some bd"
    and "mset order = mset (jobs src width hgt)"
  shows "\<exists>st. fold (\<lambda>j m. Option.bind m (run_job simd be enc width False RGB dither h j)) order (Some (new_session bd junk width hgt)) = Some st \<and>
    file_frame (out_file st) = file_frame bd \<and> file_room (out_file st) = n * m \<and>
    get_words 0 (n * m) (out_file st) = Some (map (encoded enc h src width) [0..<n * m]) \<and>
    finalPipe (pixelMat st) = reported enc h src width (n * m)"
proof -
  note pf = plain_file [OF assms(7,1-5)]
  obtain js where js: "order = map (band_job src width n m) js" "distinct js" "set js = {0..<parts hgt}"
    by (rule jobs_order [OF assms(1,2,8)])
  let ?st = "new_session bd junk width hgt" and ?stores = "map (job_store enc h src width n m) js"
  have st: "out_file ?st = bd" "length (pixelMat ?st) = parts hgt" "\<And>i. i < parts hgt \<Longrightarrow> pixelMat ?st ! i = (replicate (width * m) junk, 0)"
    by (simp_all add: new_session_def assms(2))
  from file_words.store_list [OF _ bands_apart [OF js(2) assms(3)], of enc h src width m bd]
  obtain bd' where bd': "fold (\<lambda>(p, ws) m. Option.bind m (put_words p ws)) ?stores (Some bd) = Some bd'"
      "file_room bd' = n * m" "file_frame bd' = file_frame bd" "\<forall>(p, ws) \<in> set ?stores. get_words p (length ws) bd' = Some ws"
    using band_stores_fit [OF assms(2,3) js(3)] unfolding pf(2) by blast
  have ready: "\<forall>j \<in> set js. 32 * j < m \<and> j < length (pixelMat ?st) \<and> snd (pixelMat ?st ! j) = 0 \<and> n * m \<le> length (fst (pixelMat ?st ! j))"
  proof -
    have "n * m \<le> width * m" by (simp add: assms(1))
    then show ?thesis using js(3) in_band [OF assms(2)] by (simp add: st)
  qed
  have puts: "fold (\<lambda>(p, ws) m. Option.bind m (put_words p ws)) ?stores (Some (out_file ?st)) = Some bd'"
    using bd'(1) by (simp only: st(1))
  have src: "4 * (width * m) \<le> length src" by (simp add: assms(2,6))
  have type: "m_type (out_file ?st) = Etc2_RGB" using pf(3) by (simp only: st(1))
  from run_band_jobs [OF assms(1,3) src pf(4) js(2) ready type puts, of simd be dither]
  obtain mats where run: "fold (\<lambda>j m. Option.bind m (run_job simd be enc width False RGB dither h j)) order (Some ?st) =
      Some (?st\<lparr>out_file := bd', pixelMat := mats\<rparr>)" "length mats = length (pixelMat ?st)"
    "\<forall>i < length mats. mats ! i = (if i \<in> set js then filled (pixelMat ?st ! i) (reports enc h src width (band n m i)) else pixelMat ?st ! i)"
    unfolding js(1) by blast
  have len: "length mats = parts hgt" using run(2) by (simp only: st(2))
  have mats: "\<forall>i < parts hgt. mats ! i = filled (pixelMat ?st ! i) (reports enc h src width (band n m i))"
    using run(3) unfolding len js(3) by simp
  have "get_words (32 * j * n) (length (band n m j)) bd' = Some (map (encoded enc h src width) (band n m j))" if "j < parts hgt" for j
    using bd'(4) that js(3) by (force simp: job_store_def)
  from words_bands [OF assms(2-4) this] have "get_words 0 (n * m) bd' = Some (map (encoded enc h src width) [0..<n * m])" .
  then show ?thesis using run(1) bd'(2,3) finalPipe_bands [OF assms(2) len mats] by simp
qed

section \<open>The second pass\<close>

lemma reported_entry:
  assumes "p \<in> set (reported enc h src width N)"
  shows "address p < N" "bgrData p = divRGBData (bytes_of (block_rows (image_block id src width (address p))))"
  using assms by (auto simp: reported_def report_def id_def split: prod.splits if_splits)

lemma reported_distinct: "distinct (map address (reported enc h src width N))"
  unfolding reported_addresses by (rule distinct_filter) (rule distinct_upt)

lemma same_frame: "file_frame bd' = file_frame bd \<Longrightarrow> bd' = bd\<lparr>m_data := m_data bd'\<rparr>"
  by (simp add: file_frame_def)

text \<open>The word of block \<open>k\<close> in the end, when the blocks at the places \<open>as\<close> have been encoded again.\<close>

definition final_word :: "error_encoder \<Rightarrow> (u8 list \<Rightarrow> u8 list) \<Rightarrow> bool \<Rightarrow> u32 list \<Rightarrow> nat \<Rightarrow> nat set \<Rightarrow> nat \<Rightarrow> u64" where
  "final_word enc blk h src width as k = (if k \<in> as
     then word64_of_bytes (blk (upright (divRGBData (bytes_of (block_rows (image_block id src width k))))))
     else fst (enc k (bytes_of (image_block id src width k)) h))"

lemma gpu_update_words:
  assumes "sorts srt" "encodes_tiles encode blk" "0 < N" "file_room bd = N"
    and "get_words 0 N bd = Some (map (encoded enc h src width) [0..<N])"
    and "gpu_limit (int (length (reported enc h src width N))) quality \<le> int (length (reported enc h src width N))"
    and "N < 2 ^ 31" "gpu_limit (int (length (reported enc h src width N))) quality < 6688 ^ 2"
  shows "\<exists>bd' sel rest. gpu_update srt encode (reported enc h src width N) quality bd = Some bd' \<and> file_frame bd' = file_frame bd \<and>
    mset sel + mset rest = mset (reported enc h src width N) \<and>
    length sel = nat (gpu_limit (int (length (reported enc h src width N))) quality) \<and>
    (quality < 1 \<longrightarrow> (\<forall>p \<in> set sel. \<forall>q \<in> set rest. pix_error q \<le> pix_error p)) \<and>
    get_words 0 N bd' = Some (map (final_word enc blk h src width (address ` set sel)) [0..<N])"
proof -
  let ?pipe = "reported enc h src width N" and ?W = "map (encoded enc h src width) [0..<N]"
  have places: "\<forall>p \<in> set ?pipe. address p < length ?W" using reported_entry(1) by simp
  have "length ?pipe < 2 ^ 31" using reported_length [of enc h src width N] assms(7) by simp
  from gpu_pass_result [OF assms(1,2,6) reported_distinct places this assms(8)] obtain sel rest W' where
    g: "ProcessWithGPU srt encode ?pipe quality ?W = Some W'" "mset sel + mset rest = mset ?pipe"
      "length sel = nat (gpu_limit (int (length ?pipe)) quality)"
      "quality < 1 \<longrightarrow> (\<forall>p \<in> set sel. \<forall>q \<in> set rest. pix_error q \<le> pix_error p)"
      "\<forall>p \<in> set sel. W' ! address p = word64_of_bytes (blk (upright (bgrData p)))"
      "\<forall>a < length ?W. a \<notin> address ` set sel \<longrightarrow> W' ! a = ?W ! a" "length W' = length ?W" by blast
  have sel: "p \<in> set ?pipe" if "p \<in> set sel" for p using g(2) that by (metis mset_subset_eq_add_left mset_subset_eqD set_mset_mset)
  have "W' ! k = final_word enc blk h src width (address ` set sel) k" if "k < N" for k
  proof (cases "k \<in> address ` set sel")
    case True
    then obtain p where "p \<in> set sel" "address p = k" by auto
    then show ?thesis using g(5) reported_entry(2) [OF sel] True by (auto simp: final_word_def)
  next
    case False
    then show ?thesis using g(6) that by (simp add: final_word_def encoded_def)
  qed
  then have W': "W' = map (final_word enc blk h src width (address ` set sel)) [0..<N]"
    using g(7) by (intro nth_equalityI) simp_all
  have len: "length W' = N" using g(7) by simp
  obtain bd' where bd': "put_words 0 W' bd = Some bd'" using file_words.stores [of W' 0 bd] assms(3,4) len by auto
  have "gpu_update srt encode ?pipe quality bd = Some bd'"
    using assms(4,5) g(1) bd' by (simp add: gpu_update_def)
  moreover have "get_words 0 N bd' = Some W'" using file_words.read_back [OF bd'] by (simp only: len)
  ultimately show ?thesis using g(2-4) file_words.keeps_outside [OF bd'] W' by blast
qed

text \<open>C1: The main path, for an image of fewer than \<open>2 ^ 31\<close> pixels and a number of blocks to be encoded again that is not
  above the number of the reported ones and below \<open>6688 ^ 2\<close>: whatever the number of workers and the schedule of the
  threads, when the batch of the bands has come to an end every task has found its rows in the image and its room in
  the file and in its array, and after the second pass on
  the GPU the file reads back as a file of the size and the type of the image in which every block that was
  selected holds what the encoder on the GPU makes of its pixels, and every other one what the compressor
  made of its own; the selected blocks are reported ones, as many as the quality asks for, and below full
  quality none that is left out has a larger error.\<close>

theorem main_path:
  assumes "width = 4 * n" "hgt = 4 * m" "0 < n" "0 < m" "width * hgt < 2 ^ 31" "length src = width * hgt"
    and "create_file (int width, int hgt) False Etc2_RGB = Some bd" "sorts srt" "encodes_tiles encode blk"
    and "gpu_limit (int (length (reported enc h src width (n * m)))) quality \<le> int (length (reported enc h src width (n * m)))"
    and "gpu_limit (int (length (reported enc h src width (n * m)))) quality < 6688 ^ 2"
    and "new_pool workers (batch (jobs src width hgt)) = Some s" "pool_step\<^sup>*\<^sup>* s t" "\<nexists>u. pool_step t u"
  shows "\<exists>st bd' sel rest.
    fold (\<lambda>j m. Option.bind m (run_job simd be enc width False RGB dither h j)) (executed t) (Some (new_session bd junk width hgt)) = Some st \<and>
    gpu_update srt encode (finalPipe (pixelMat st)) quality (out_file st) = Some bd' \<and>
    open_block_data (m_data bd') = Some bd' \<and> m_size bd' = (int width, int hgt) \<and> m_type bd' = Etc2_RGB \<and>
    get_words 0 (n * m) bd' = Some (map (final_word enc blk h src width (address ` set sel)) [0..<n * m]) \<and>
    mset sel + mset rest = mset (reported enc h src width (n * m)) \<and>
    length sel = nat (gpu_limit (int (length (reported enc h src width (n * m)))) quality) \<and>
    (quality < 1 \<longrightarrow> (\<forall>p \<in> set sel. \<forall>q \<in> set rest. pix_error q \<le> pix_error p))"
proof -
  have order: "mset (executed t) = mset (jobs src width hgt)" using pool_batch_result [OF assms(12-14)] by blast
  from run_all_jobs [OF assms(1-7) order] obtain st where
    st: "fold (\<lambda>j m. Option.bind m (run_job simd be enc width False RGB dither h j)) (executed t) (Some (new_session bd junk width hgt)) = Some st"
      "file_frame (out_file st) = file_frame bd" "file_room (out_file st) = n * m"
      "get_words 0 (n * m) (out_file st) = Some (map (encoded enc h src width) [0..<n * m])"
      "finalPipe (pixelMat st) = reported enc h src width (n * m)" by blast
  have "0 < n * m" "n * m < 2 ^ 31" using assms(3-5) by (simp_all add: assms(1,2) mult.commute [of n])
  from gpu_update_words [OF assms(8,9) this(1) st(3,4) assms(10) this(2) assms(11)] obtain bd' sel rest where
    g: "gpu_update srt encode (finalPipe (pixelMat st)) quality (out_file st) = Some bd'" "file_frame bd' = file_frame (out_file st)"
      "mset sel + mset rest = mset (reported enc h src width (n * m))"
      "length sel = nat (gpu_limit (int (length (reported enc h src width (n * m)))) quality)"
      "quality < 1 \<longrightarrow> (\<forall>p \<in> set sel. \<forall>q \<in> set rest. pix_error q \<le> pix_error p)"
      "get_words 0 (n * m) bd' = Some (map (final_word enc blk h src width (address ` set sel)) [0..<n * m])"
    unfolding st(5) by blast
  have frame: "file_frame bd' = file_frame bd" using g(2) st(2) by simp
  have bd: "m_size bd = (int width, int hgt)" "m_dataOffset bd = 52" "m_type bd = Etc2_RGB" using assms(7) by (auto elim!: create_fileE)
  have "open_block_data (m_data bd') = Some (bd\<lparr>m_data := m_data bd'\<rparr>)"
    using frame bd(2) by (intro open_created [OF assms(7) plain_file(1) [OF assms(7,1-5)]]) (auto simp: file_frame_def)
  then have "open_block_data (m_data bd') = Some bd'" using same_frame [OF frame] by simp
  moreover have "m_size bd' = (int width, int hgt)" "m_type bd' = Etc2_RGB" using frame bd by (simp_all add: file_frame_def)
  ultimately show ?thesis using st(1) g(1,3-6) by blast
qed

text \<open>An image of one block, which is reported, at full quality.\<close>

definition flag_all :: error_encoder where
  "flag_all k b h = (5, True, 9)"

lemma gpu_limit_one: "gpu_limit 1 1 = 1"
  by code_simp

lemma main_path_witness:
  "\<exists>bd s t st bd'. create_file (4, 4) False Etc2_RGB = Some bd \<and> new_pool 2 (batch (jobs (replicate 16 7) 4 4)) = Some s \<and>
    pool_step\<^sup>*\<^sup>* s t \<and>
    fold (\<lambda>j m. Option.bind m (run_job Scalar (scalar_encoders (\<lambda>_. 0)) flag_all 4 False RGB False True j)) (executed t) (Some (new_session bd undefined 4 4)) = Some st \<and>
    gpu_update error_sort tile_encoder (finalPipe (pixelMat st)) 1 (out_file st) = Some bd' \<and> open_block_data (m_data bd') = Some bd'"
proof -
  have "file_size_ok (4, 4)" by (simp add: file_size_ok_def)
  then obtain bd where bd: "create_file (4, 4) False Etc2_RGB = Some bd" by (rule create_file_length)
  obtain s where s: "new_pool 2 (batch (jobs (replicate 16 7) 4 4)) = Some s" by (simp add: new_pool_def)
  obtain t where t: "pool_step\<^sup>*\<^sup>* s t" "\<nexists>u. pool_step t u" using pool_batch_ends [OF s] by blast
  have "length (reported flag_all True (replicate 16 7) 4 (1 * 1)) = 1" by (simp add: reported_def report_def flag_all_def)
  then have limit: "gpu_limit (int (length (reported flag_all True (replicate 16 7) 4 (1 * 1)))) 1 \<le>
      int (length (reported flag_all True (replicate 16 7) 4 (1 * 1)))"
    and small: "gpu_limit (int (length (reported flag_all True (replicate 16 7) 4 (1 * 1)))) 1 < 6688 ^ 2"
    by (simp_all only: of_nat_1 gpu_limit_one) simp_all
  have bd4: "create_file (int 4, int 4) False Etc2_RGB = Some bd" using bd by (simp only: of_nat_numeral)
  have dims: "(4 :: nat) = 4 * 1" "0 < (1 :: nat)" "4 * 4 < (2 :: nat) ^ 31" "length (replicate 16 7) = 4 * 4" by simp_all
  note run = main_path [OF dims(1,1,2,2,3,4) bd4 error_sort_sorts tile_encoder_encodes limit small s t, of Scalar "scalar_encoders (\<lambda>_. 0)" False undefined]
  show ?thesis
    by (rule exE [OF run], elim exE conjE) (intro exI conjI; (rule bd s t(1) | assumption))
qed

end
