(* ===== verification/Downsample.thy ===== *)
theory Downsample imports Memory begin

text \<open>
  The next smaller level of an image (\<open>src/BitmapDownsampled.cpp\<close>) without gamma correction: each pixel is the
  average of four, computed with masks, with SSE4.1 or, two pixels at a time, with AVX2.  An image is the list
  of its pixels.
\<close>

section \<open>One pixel\<close>

definition average_scalar :: "u32 \<Rightarrow> u32 \<Rightarrow> u32 \<Rightarrow> u32 \<Rightarrow> u32" where
  "average_scalar p0 p1 q0 q1 = (let
     r = ((p0 AND 0x000000FF) + (p1 AND 0x000000FF) + (q0 AND 0x000000FF) + (q1 AND 0x000000FF)) div 4;
     g = (((p0 AND 0x0000FF00) + (p1 AND 0x0000FF00) + (q0 AND 0x0000FF00) + (q1 AND 0x0000FF00)) div 4) AND 0x0000FF00;
     b = (((p0 AND 0x00FF0000) + (p1 AND 0x00FF0000) + (q0 AND 0x00FF0000) + (q1 AND 0x00FF0000)) div 4) AND 0x00FF0000;
     a = push_bit 8 (((drop_bit 8 (p0 AND 0xFF000000) + drop_bit 8 (p1 AND 0xFF000000) + drop_bit 8 (q0 AND 0xFF000000) +
       drop_bit 8 (q1 AND 0xFF000000)) div 4) AND 0x00FF0000)
   in r OR g OR b OR a)"

text \<open>The registers of 16-bit lanes: a 128-bit half is a list of eight.\<close>

definition epi16 :: "u8 list \<Rightarrow> u16 list" where
  "epi16 = map ucast"

definition add_epi16 :: "u16 list \<Rightarrow> u16 list \<Rightarrow> u16 list" where
  "add_epi16 = map2 (+)"

definition swap_halves :: "u16 list \<Rightarrow> u16 list" where
  "swap_halves s = drop 4 s @ take 4 s"

definition srli_epi16 :: "u16 list \<Rightarrow> nat \<Rightarrow> u16 list" where
  "srli_epi16 s n = map (drop_bit n) s"

definition average_sse :: "u32 \<Rightarrow> u32 \<Rightarrow> u32 \<Rightarrow> u32 \<Rightarrow> u32" where
  "average_sse p0 p1 q0 q1 = (let
     px0 = epi16 (bytes_of [q0, q1]);
     px1 = epi16 (bytes_of [p0, p1]);
     s0 = add_epi16 px0 px1;
     s1 = swap_halves s0;
     s2 = add_epi16 s0 s1;
     r0 = srli_epi16 s2 2;
     r1 = packus_epi16 r0
   in word_of_bytes (take 4 r1))"

text \<open>Four pixels of both rows; the two halves of the registers hold two pixels each.\<close>

definition average_avx2 :: "u32 list \<Rightarrow> u32 list \<Rightarrow> u32 list" where
  "average_avx2 p q = map (\<lambda>half. let
     px0 = epi16 (bytes_of (take 2 (drop (2 * half) p)));
     px1 = epi16 (bytes_of (take 2 (drop (2 * half) q)));
     s0 = add_epi16 px0 px1;
     s1 = swap_halves s0;
     s2 = add_epi16 s0 s1;
     r0 = srli_epi16 s2 2;
     r1 = packus_epi16 r0
   in word_of_bytes (take 4 r1)) [0..<2]"

section \<open>Rows\<close>

fun average_row :: "(u32 \<Rightarrow> u32 \<Rightarrow> u32 \<Rightarrow> u32 \<Rightarrow> u32) \<Rightarrow> u32 list \<Rightarrow> nat \<Rightarrow> nat \<Rightarrow> nat \<Rightarrow> u32 list" where
  "average_row avg src src1 src2 k = (if k = 0 then []
     else avg (src ! src1) (src ! (src1 + 1)) (src ! src2) (src ! (src2 + 1)) # average_row avg src (src1 + 2) (src2 + 2) (k - 1))"

fun average_row_avx2 :: "u32 list \<Rightarrow> nat \<Rightarrow> nat \<Rightarrow> nat \<Rightarrow> u32 list" where
  "average_row_avx2 src src1 src2 k = (if k > 2
     then average_avx2 (loadu128 src src1) (loadu128 src src2) @ average_row_avx2 src (src1 + 4) (src2 + 4) (k - 2)
     else average_row average_sse src src1 src2 k)"

declare average_row.simps [simp del] average_row_avx2.simps [simp del]

datatype downsampler = Masks | Sse | Avx2

definition downsample_row :: "downsampler \<Rightarrow> u32 list \<Rightarrow> nat \<Rightarrow> nat \<Rightarrow> nat \<Rightarrow> u32 list" where
  "downsample_row d src src1 src2 k = (case d of
     Masks \<Rightarrow> average_row average_scalar src src1 src2 k
   | Sse \<Rightarrow> average_row average_sse src src1 src2 k
   | Avx2 \<Rightarrow> average_row_avx2 src src1 src2 k)"

section \<open>Images\<close>

text \<open>The pointers move by the pixels that a row has read, and by a row at its end; the row below starts one
  width of the source after the row.  A level that is narrower or lower than a block is all zero.\<close>

definition downsample :: "downsampler \<Rightarrow> u32 list \<Rightarrow> nat \<Rightarrow> nat \<Rightarrow> u32 list" where
  "downsample d src width hgt = (let
     x = max 1 (width div 2); y = max 1 (hgt div 2); w = max x 4; h = max y 4
   in if x < w \<or> y < h then replicate (w * h) 0
      else fst (fold (\<lambda>_ (out, src1, src2). (out @ downsample_row d src src1 src2 x, src1 + 2 * x + 2 * x, src2 + 2 * x + 2 * x))
        [0..<h div 4 * 4] ([], 0, width)))"

section \<open>The branches agree\<close>

definition average_byte :: "u8 \<Rightarrow> u8 \<Rightarrow> u8 \<Rightarrow> u8 \<Rightarrow> u8" where
  "average_byte a b c d = of_nat ((unat a + unat b + unat c + unat d) div 4)"

definition average_bytes :: "u32 \<Rightarrow> u32 \<Rightarrow> u32 \<Rightarrow> u32 \<Rightarrow> u32" where
  "average_bytes p0 p1 q0 q1 = word_of_bytes (map (\<lambda>c. average_byte (ucast (drop_bit (8 * c) p0)) (ucast (drop_bit (8 * c) p1))
     (ucast (drop_bit (8 * c) q0)) (ucast (drop_bit (8 * c) q1))) [0..<4])"

lemma saturated_lane:
  "packus_epi16 [drop_bit 2 (ucast (a :: u8) + ucast (b :: u8) + (ucast (c :: u8) + ucast (d :: u8)) :: u16)] = [average_byte c d a b]"
proof -
  define w where "w = drop_bit 2 (ucast a + ucast b + (ucast c + ucast d) :: u16)"
  note le = unat_byte_le [of a] unat_byte_le [of b] unat_byte_le [of c] unat_byte_le [of d]
  have sum: "unat (ucast a + ucast b + (ucast c + ucast d) :: u16) = unat a + unat b + (unat c + unat d)"
    using le by (simp add: unat_word_ariths unsigned_ucast_eq take_bit_nat_eq_self)
  have w: "unat w = (unat c + unat d + unat a + unat b) div 4"
    by (simp only: w_def unat_drop_bit_eq sum) (simp add: drop_bit_eq_div ac_simps)
  then have "unat w \<le> 255" using le by simp
  then have "uint w \<le> 255" using uint_le_of_unat [of w 255] by simp
  moreover have "- (2 ^ 15) \<le> uint w" by (rule order_trans [OF _ unsigned_greater_eq]) simp
  ultimately have "sint w = uint w" using signed_take_bit_int_eq_self [of 15 "uint w"] by (simp add: sint_uint)
  with \<open>uint w \<le> 255\<close> have "packus_epi16 [w] = [ucast w]" by (simp add: packus_epi16_def)
  also have "(ucast w :: u8) = of_nat (unat w)" by simp
  finally show ?thesis by (simp only: w_def [symmetric] w average_byte_def)
qed

lemma average_sse_bytes: "average_sse p0 p1 q0 q1 = average_bytes p0 p1 q0 q1"
proof -
  have lanes: "packus_epi16 [drop_bit 2 v, drop_bit 2 w, drop_bit 2 x, drop_bit 2 y] =
      packus_epi16 [drop_bit 2 v] @ packus_epi16 [drop_bit 2 w] @ packus_epi16 [drop_bit 2 x] @ packus_epi16 [drop_bit 2 y]" for v w x y
    by (simp add: packus_epi16_def)
  have t: "take 4 (packus_epi16 (v # w # x # y # zs)) = packus_epi16 [v, w, x, y]" for v w x y zs
    by (simp add: packus_epi16_def)
  have "take 4 (packus_epi16 (srli_epi16 (add_epi16 (add_epi16 (epi16 (bytes_of [q0, q1])) (epi16 (bytes_of [p0, p1])))
      (swap_halves (add_epi16 (epi16 (bytes_of [q0, q1])) (epi16 (bytes_of [p0, p1]))))) 2)) =
    map (\<lambda>c. average_byte (ucast (drop_bit (8 * c) q1)) (ucast (drop_bit (8 * c) p1)) (ucast (drop_bit (8 * c) q0)) (ucast (drop_bit (8 * c) p0))) [0..<4]"
    by (simp add: bytes_of_def epi16_def add_epi16_def swap_halves_def srli_epi16_def t lanes saturated_lane upt_4 del: drop_bit_numeral_minus_bit0)
  then show ?thesis
    by (simp add: average_sse_def average_bytes_def Let_def average_byte_def ac_simps)
qed

text \<open>A channel of four pixels, kept at its place in the word.\<close>

lemma average_byte_word: "average_byte a b c d = ucast (drop_bit 2 (ucast a + ucast b + ucast c + ucast d :: u32))"
proof -
  have "unat (ucast a + ucast b + ucast c + ucast d :: u32) = unat a + unat b + unat c + unat d"
    using unat_byte_le [of a] unat_byte_le [of b] unat_byte_le [of c] unat_byte_le [of d]
    by (simp add: unat_word_ariths)
  then have "unat (drop_bit 2 (ucast a + ucast b + ucast c + ucast d :: u32)) = (unat a + unat b + unat c + unat d) div 4"
    by (simp only: unat_drop_bit_eq) (simp add: drop_bit_eq_div)
  moreover have "ucast w = (of_nat (unat w) :: u8)" for w :: u32 by simp
  ultimately show ?thesis by (simp only: average_byte_def)
qed

lemma masked_sum:
  assumes "n = 0 \<or> n = 8 \<or> n = 16"
  shows "((push_bit n (ucast (a :: u8)) + push_bit n (ucast b) + push_bit n (ucast c) + push_bit n (ucast d)) div 4) AND push_bit n 0xFF =
    (push_bit n (ucast (average_byte a b c d)) :: u32)"
proof -
  define t where "t = (ucast a + ucast b + ucast c + ucast d :: u32)"
  have "push_bit n (ucast a) + push_bit n (ucast b) + push_bit n (ucast c) + push_bit n (ucast d) = push_bit n t"
    by (simp add: t_def push_bit_add)
  moreover have "push_bit n t div 4 = drop_bit 2 (push_bit n t)" by (simp add: drop_bit_eq_div)
  moreover have "drop_bit 2 (push_bit n t) AND push_bit n 0xFF = push_bit n (ucast (ucast (drop_bit 2 t) :: u8))"
    using assms by (elim disjE; hypsubst) (rule word32_eqI; simp add: upt_32 bitwise)+
  ultimately show ?thesis by (simp only: average_byte_word t_def)
qed

lemma channel_in_place:
  "p AND 0x000000FF = push_bit 0 (ucast (ucast p :: u8) :: u32)"
  "p AND 0x0000FF00 = push_bit 8 (ucast (ucast (drop_bit 8 p) :: u8) :: u32)"
  "p AND 0x00FF0000 = push_bit 16 (ucast (ucast (drop_bit 16 p) :: u8) :: u32)"
  "drop_bit 8 (p AND 0xFF000000) = push_bit 16 (ucast (ucast (drop_bit 24 p) :: u8) :: u32)"
  by (rule word32_eqI; simp add: upt_32 bitwise)+

lemma low_average: "(push_bit 0 (ucast (a :: u8)) + push_bit 0 (ucast b) + push_bit 0 (ucast c) + push_bit 0 (ucast d)) div 4 =
    (push_bit 0 (ucast (average_byte a b c d)) :: u32)"
proof -
  have "unat (ucast a + ucast b + ucast c + ucast d :: u32) = unat a + unat b + unat c + unat d"
    using unat_byte_le [of a] unat_byte_le [of b] unat_byte_le [of c] unat_byte_le [of d]
    by (simp add: unat_word_ariths)
  moreover define v where "v = (ucast a + ucast b + ucast c + ucast d :: u32) div 4"
  ultimately have "unat v \<le> 255"
    using unat_byte_le [of a] unat_byte_le [of b] unat_byte_le [of c] unat_byte_le [of d]
    by (simp add: v_def unat_div)
  then have "unat (take_bit 8 v) = unat v" by (simp add: unsigned_take_bit_eq take_bit_nat_eq_self)
  then have "take_bit 8 v = v" by (simp only: word_unat_eq_iff)
  then have "v AND 0xFF = v" by (simp add: take_bit_eq_mask mask_eq_exp_minus_1)
  then show ?thesis using masked_sum [of 0 a b c d] by (simp add: v_def)
qed

lemma average_scalar_bytes: "average_scalar p0 p1 q0 q1 = average_bytes p0 p1 q0 q1"
proof -
  let ?c = "\<lambda>n. average_byte (ucast (drop_bit n p0)) (ucast (drop_bit n p1)) (ucast (drop_bit n q0)) (ucast (drop_bit n q1))"
  have m: "(0x0000FF00 :: u32) = push_bit 8 0xFF" "(0x00FF0000 :: u32) = push_bit 16 0xFF" by (simp_all add: push_bit_eq_mult)
  have "average_scalar p0 p1 q0 q1 = push_bit 0 (ucast (?c 0)) OR push_bit 8 (ucast (?c 8)) OR push_bit 16 (ucast (?c 16)) OR
      push_bit 8 (push_bit 16 (ucast (?c 24)))"
    unfolding average_scalar_def Let_def channel_in_place [of p0] channel_in_place [of p1] channel_in_place [of q0]
      channel_in_place [of q1] low_average
    unfolding m by (simp only: masked_sum simp_thms drop_bit_0 id_apply)
  also have "\<dots> = average_bytes p0 p1 q0 q1"
    by (simp add: average_bytes_def word_of_bytes_def upt_4)
  finally show ?thesis .
qed

lemma average_avx2_bytes:
  assumes "length p = 4" "length q = 4"
  shows "average_avx2 p q = [average_bytes (p ! 0) (p ! 1) (q ! 0) (q ! 1), average_bytes (p ! 2) (p ! 3) (q ! 2) (q ! 3)]"
proof -
  have comm: "average_bytes q0 q1 p0 p1 = average_bytes p0 p1 q0 q1" for p0 p1 q0 q1
    by (simp add: average_bytes_def average_byte_def ac_simps)
  obtain p0 p1 p2 p3 where p: "p = [p0, p1, p2, p3]" using length_4_cases [OF assms(1)] by blast
  obtain q0 q1 q2 q3 where q: "q = [q0, q1, q2, q3]" using length_4_cases [OF assms(2)] by blast
  have "average_avx2 p q = [average_sse q0 q1 p0 p1, average_sse q2 q3 p2 p3]"
    by (simp add: average_avx2_def average_sse_def p q upt_2 Let_def)
  then show ?thesis by (simp add: average_sse_bytes comm p q)
qed

lemma average_row_Suc: "average_row avg src src1 src2 (Suc k) =
    avg (src ! src1) (src ! (src1 + 1)) (src ! src2) (src ! (src2 + 1)) # average_row avg src (src1 + 2) (src2 + 2) k"
  by (subst average_row.simps) simp

lemma average_row_nth:
  "average_row avg src src1 src2 k =
     map (\<lambda>i. avg (src ! (src1 + 2 * i)) (src ! (src1 + 2 * i + 1)) (src ! (src2 + 2 * i)) (src ! (src2 + 2 * i + 1))) [0..<k]"
proof (induction k arbitrary: src1 src2)
  case (Suc k)
  have "[0..<Suc k] = 0 # map Suc [0..<k]" by (simp only: upt_conv_Cons [OF zero_less_Suc] map_Suc_upt)
  then show ?case by (subst average_row.simps) (simp add: Suc)
qed (simp add: average_row.simps)

lemma average_row_avx2_eq: "average_row_avx2 src src1 src2 k = average_row average_sse src src1 src2 k"
proof (induction src src1 src2 k rule: average_row_avx2.induct)
  case (1 src src1 src2 k)
  show ?case
  proof (cases "k > 2")
    case True
    have "average_avx2 (loadu128 src src1) (loadu128 src src2) =
        [average_sse (src ! src1) (src ! (src1 + 1)) (src ! src2) (src ! (src2 + 1)),
         average_sse (src ! (src1 + 2)) (src ! (src1 + 3)) (src ! (src2 + 2)) (src ! (src2 + 3))]"
      by (subst average_avx2_bytes) (simp_all add: loadu128_def average_sse_bytes)
    moreover have "average_row average_sse src src1 src2 k =
        average_sse (src ! src1) (src ! (src1 + 1)) (src ! src2) (src ! (src2 + 1)) #
        average_sse (src ! (src1 + 2)) (src ! (src1 + 3)) (src ! (src2 + 2)) (src ! (src2 + 3)) #
        average_row average_sse src (src1 + 4) (src2 + 4) (k - 2)"
    proof -
      obtain l where k: "k = Suc (Suc l)" using True by (metis add_2_eq_Suc less_imp_add_positive)
      have e: "2 + 1 = (3 :: nat)" "2 + 2 = (4 :: nat)" "Suc (Suc l) - 2 = l" by simp_all
      show ?thesis by (simp only: k average_row_Suc add.assoc e)
    qed
    ultimately show ?thesis using 1 True by (subst average_row_avx2.simps) simp
  qed (subst average_row_avx2.simps, simp)
qed

lemma downsample_row_nth:
  "downsample_row d src src1 src2 k = map (\<lambda>i. average_bytes (src ! (src1 + 2 * i)) (src ! (src1 + 2 * i + 1)) (src ! (src2 + 2 * i))
     (src ! (src2 + 2 * i + 1))) [0..<k]"
  by (cases d) (simp_all add: downsample_row_def average_row_avx2_eq average_row_nth average_sse_bytes average_scalar_bytes)

lemma average_byte_value: "unat (average_byte a b c d) = (unat a + unat b + unat c + unat d) div 4"
proof -
  have "(unat a + unat b + unat c + unat d) div 4 < 256"
    using unat_byte_le [of a] unat_byte_le [of b] unat_byte_le [of c] unat_byte_le [of d] by simp
  then show ?thesis by (simp add: average_byte_def unat_of_nat take_bit_nat_eq_self)
qed

lemma average_bytes_channel:
  "c < 4 \<Longrightarrow> ucast (drop_bit (8 * c) (average_bytes p0 p1 q0 q1)) = average_byte (ucast (drop_bit (8 * c) p0)) (ucast (drop_bit (8 * c) p1))
     (ucast (drop_bit (8 * c) q0)) (ucast (drop_bit (8 * c) q1))"
proof -
  assume "c < 4"
  have "word_bytes (average_bytes p0 p1 q0 q1) = map (\<lambda>c. average_byte (ucast (drop_bit (8 * c) p0)) (ucast (drop_bit (8 * c) p1))
     (ucast (drop_bit (8 * c) q0)) (ucast (drop_bit (8 * c) q1))) [0..<4]"
    unfolding average_bytes_def upt_4 list.map word_bytes_of_word ..
  then have "word_bytes (average_bytes p0 p1 q0 q1) ! c = map (\<lambda>c. average_byte (ucast (drop_bit (8 * c) p0)) (ucast (drop_bit (8 * c) p1))
     (ucast (drop_bit (8 * c) q0)) (ucast (drop_bit (8 * c) q1))) [0..<4] ! c" by (rule arg_cong)
  then show ?thesis using \<open>c < 4\<close> by (simp add: word_bytes_def del: word_bytes_4)
qed

section \<open>Whole levels\<close>

lemma downsample_rows:
  assumes "x = width div 2" "4 \<le> x" "4 \<le> hgt div 2"
  shows "downsample d src width hgt = concat (map (\<lambda>r. downsample_row d src (4 * x * r) (width + 4 * x * r) x) [0..<hgt div 2 div 4 * 4])"
proof -
  have "fold (\<lambda>_ (out, src1, src2). (out @ downsample_row d src src1 src2 x, src1 + 2 * x + 2 * x, src2 + 2 * x + 2 * x)) [0..<n] ([], 0, width) =
      (concat (map (\<lambda>r. downsample_row d src (4 * x * r) (width + 4 * x * r) x) [0..<n]), 4 * x * n, width + 4 * x * n)" for n
    by (induction n) (simp_all add: algebra_simps)
  then show ?thesis using assms by (simp add: downsample_def Let_def)
qed

lemma downsample_same: "downsample d src width hgt = downsample Masks src width hgt"
  unfolding downsample_def downsample_row_nth ..

lemma downsample_small:
  assumes "width < 8 \<or> hgt < 8"
  shows "downsample d src width hgt = replicate (max (width div 2) 4 * max (hgt div 2) 4) 0"
proof -
  have "max (max 1 k) 4 = max k (4 :: nat)" for k by simp
  moreover have "max 1 (width div 2) < max (width div 2) 4 \<or> max 1 (hgt div 2) < max (hgt div 2) 4" using assms by auto
  ultimately show ?thesis by (simp only: downsample_def Let_def if_True)
qed



end
