(* ===== verification/Provider.thy ===== *)
theory Provider imports Downsample BlockFile begin

text \<open>
  Where the parts of an image come from: \<open>NextBlock\<close> of \<open>src/Bitmap.cpp\<close> and the levels and parts that
  \<open>src/DataProvider.cpp\<close> delivers.  A bitmap is its pixels, the number of the next pixel to hand out, and the rows
  of blocks that are left.  A failed assertion is \<open>None\<close>.
\<close>

section \<open>Bitmaps\<close>

record bitmap =
  bm_data :: "u32 list"
  bm_block :: nat
  bm_lines :: nat
  bm_linesLeft :: nat
  bm_size :: "nat \<times> nat"

text \<open>A bitmap that has been read from a file, with its assertions on the size.\<close>

definition new_bitmap :: "u32 list \<Rightarrow> nat \<times> nat \<Rightarrow> nat \<Rightarrow> bitmap option" where
  "new_bitmap data sz lines = (if fst sz mod 4 = 0 \<and> snd sz mod 4 = 0
     then Some \<lparr>bm_data = data, bm_block = 0, bm_lines = lines, bm_linesLeft = snd sz div 4, bm_size = sz\<rparr> else None)"

definition NextBlock :: "bitmap \<Rightarrow> (nat \<times> nat \<times> bool) \<times> bitmap" where
  "NextBlock bm = (let lines = min (bm_lines bm) (bm_linesLeft bm); ret = bm_block bm;
     bm = bm\<lparr>bm_block := bm_block bm + fst (bm_size bm) * 4 * lines, bm_linesLeft := bm_linesLeft bm - lines\<rparr>
   in ((ret, lines, bm_linesLeft bm = 0), bm))"

text \<open>The next level; with gamma correction its pixels are an argument.\<close>

definition downsampled :: "downsampler \<Rightarrow> (u32 list \<Rightarrow> nat \<Rightarrow> nat \<Rightarrow> u32 list) \<Rightarrow> bitmap \<Rightarrow> nat \<Rightarrow> bool \<Rightarrow> bitmap" where
  "downsampled d gamma bm lines linearize = (let sz = (max 1 (fst (bm_size bm) div 2), max 1 (snd (bm_size bm) div 2));
     w = max (fst sz) 4; h = max (snd sz) 4
   in \<lparr>bm_data = (if fst sz < w \<or> snd sz < h then replicate (w * h) 0
         else if linearize then gamma (bm_data bm) (fst (bm_size bm)) (snd (bm_size bm))
         else downsample d (bm_data bm) (fst (bm_size bm)) (snd (bm_size bm))),
      bm_block = 0, bm_lines = lines, bm_linesLeft = h div 4, bm_size = sz\<rparr>)"

section \<open>The provider\<close>

record data_part =
  part_src :: "u32 list"
  part_width :: nat
  part_lines :: nat
  part_offset :: nat

text \<open>\<open>dp_first\<close> is the size of the first bitmap, \<open>dp_current\<close> the bitmap that parts are taken from.\<close>

record provider =
  dp_first :: "nat \<times> nat"
  dp_current :: bitmap
  dp_offset :: nat
  dp_lines :: nat
  dp_mipmap :: bool
  dp_done :: bool
  dp_linearize :: bool

definition new_provider :: "u32 list \<Rightarrow> nat \<times> nat \<Rightarrow> bool \<Rightarrow> bool \<Rightarrow> provider option" where
  "new_provider data sz mipmap linearize = map_option (\<lambda>bm. \<lparr>dp_first = sz, dp_current = bm, dp_offset = 0, dp_lines = 32,
     dp_mipmap = mipmap, dp_done = False, dp_linearize = linearize\<rparr>) (new_bitmap data sz 32)"

definition level_parts :: "((nat \<times> nat) \<times> nat \<times> nat) \<Rightarrow> ((nat \<times> nat) \<times> nat \<times> nat) option" where
  "level_parts st = (case st of (current, lines, parts) \<Rightarrow>
     if fst current \<noteq> 1 \<or> snd current \<noteq> 1 then
       let current = (max 1 (fst current div 2), max 1 (snd current div 2)); lines = lines * 2
       in Some (current, lines, parts + (max 4 (snd current) div 4 + lines - 1) div lines)
     else None)"

primrec levels_parts :: "nat \<Rightarrow> ((nat \<times> nat) \<times> nat \<times> nat) \<Rightarrow> ((nat \<times> nat) \<times> nat \<times> nat) option" where
  "levels_parts 0 st = Some st"
| "levels_parts (Suc i) st = Option.bind (level_parts st) (levels_parts i)"

definition NumberOfParts :: "provider \<Rightarrow> nat option" where
  "NumberOfParts dp = (let parts = (snd (dp_first dp) div 4 + dp_lines dp - 1) div dp_lines dp in
     if dp_mipmap dp then do {
       (current, _, parts) \<leftarrow> levels_parts (NumberOfMipLevels (int (fst (dp_first dp)), int (snd (dp_first dp))) - 1)
         (dp_first dp, dp_lines dp, parts);
       if fst current = 1 \<and> snd current = 1 then Some parts else None
     } else Some parts)"

definition NextPart :: "downsampler \<Rightarrow> (u32 list \<Rightarrow> nat \<Rightarrow> nat \<Rightarrow> u32 list) \<Rightarrow> provider \<Rightarrow> (data_part \<times> provider) option" where
  "NextPart d gamma dp = (if dp_done dp then None
     else case NextBlock (dp_current dp) of ((ptr, lines, done), bm) \<Rightarrow> let
         sz = bm_size bm;
         ret = \<lparr>part_src = drop ptr (bm_data bm), part_width = max 4 (fst sz), part_lines = lines, part_offset = dp_offset dp\<rparr>;
         dp = dp\<lparr>dp_current := bm, dp_offset := dp_offset dp + fst sz div 4 * lines\<rparr>
       in Some (ret,
         if done then
           if dp_mipmap dp \<and> (fst sz \<noteq> 1 \<or> snd sz \<noteq> 1)
           then dp\<lparr>dp_lines := dp_lines dp * 2, dp_current := downsampled d gamma bm (dp_lines dp * 2) (dp_linearize dp)\<rparr>
           else dp\<lparr>dp_done := True\<rparr>
         else dp))"

primrec next_parts :: "downsampler \<Rightarrow> (u32 list \<Rightarrow> nat \<Rightarrow> nat \<Rightarrow> u32 list) \<Rightarrow> nat \<Rightarrow> provider \<Rightarrow> (data_part list \<times> provider) option" where
  "next_parts d gamma 0 dp = Some ([], dp)"
| "next_parts d gamma (Suc i) dp = do {
     (part, dp) \<leftarrow> NextPart d gamma dp;
     (ps, dp) \<leftarrow> next_parts d gamma i dp;
     Some (part # ps, dp)
   }"

section \<open>The parts of a level\<close>

text \<open>What follows the last part of a level.\<close>

definition level_end :: "downsampler \<Rightarrow> (u32 list \<Rightarrow> nat \<Rightarrow> nat \<Rightarrow> u32 list) \<Rightarrow> provider \<Rightarrow> provider" where
  "level_end d gamma dp = (let sz = bm_size (dp_current dp) in
     if dp_mipmap dp \<and> (fst sz \<noteq> 1 \<or> snd sz \<noteq> 1)
     then dp\<lparr>dp_lines := dp_lines dp * 2, dp_current := downsampled d gamma (dp_current dp) (dp_lines dp * 2) (dp_linearize dp)\<rparr>
     else dp\<lparr>dp_done := True\<rparr>)"

definition after_rows :: "nat \<Rightarrow> provider \<Rightarrow> provider" where
  "after_rows r dp = (let bm = dp_current dp in dp\<lparr>
     dp_current := bm\<lparr>bm_block := bm_block bm + fst (bm_size bm) * 4 * r, bm_linesLeft := bm_linesLeft bm - r\<rparr>,
     dp_offset := dp_offset dp + fst (bm_size bm) div 4 * r\<rparr>)"

definition part_of :: "provider \<Rightarrow> nat \<Rightarrow> data_part" where
  "part_of dp lines = \<lparr>part_src = drop (bm_block (dp_current dp)) (bm_data (dp_current dp)),
     part_width = max 4 (fst (bm_size (dp_current dp))), part_lines = lines, part_offset = dp_offset dp\<rparr>"

lemma NextPart_rows:
  assumes "\<not> dp_done dp"
  defines "l \<equiv> min (bm_lines (dp_current dp)) (bm_linesLeft (dp_current dp))"
  shows "NextPart d gamma dp = Some (part_of dp l,
    if bm_linesLeft (dp_current dp) = l then level_end d gamma (after_rows l dp) else after_rows l dp)"
proof -
  have "bm_linesLeft (dp_current dp) - l = 0 \<longleftrightarrow> bm_linesLeft (dp_current dp) = l" unfolding l_def by linarith
  then show ?thesis
    using assms(1) unfolding NextPart_def NextBlock_def Let_def l_def [symmetric] part_of_def after_rows_def level_end_def
    by (cases "bm_linesLeft (dp_current dp) = l") auto
qed

text \<open>Blocks of a level as the file counts them, and as the offset of the next level counts them.\<close>

definition blocks_wide :: "provider \<Rightarrow> nat" where
  "blocks_wide dp = max 4 (fst (bm_size (dp_current dp))) div 4"

lemma after_rows_simps [simp]:
  "bm_linesLeft (dp_current (after_rows r dp)) = bm_linesLeft (dp_current dp) - r" "bm_lines (dp_current (after_rows r dp)) = bm_lines (dp_current dp)"
  "dp_done (after_rows r dp) = dp_done dp" "blocks_wide (after_rows r dp) = blocks_wide dp"
  by (simp_all add: after_rows_def Let_def blocks_wide_def)

lemma after_rows_add: "after_rows r (after_rows q dp) = after_rows (q + r) dp"
  by (simp add: after_rows_def Let_def algebra_simps)

lemma after_rows_offset: "dp_offset (after_rows r dp) \<le> dp_offset dp + blocks_wide dp * r"
  by (simp add: after_rows_def Let_def blocks_wide_def div_le_mono mult_le_mono1)

lemma parts_step:
  assumes "0 < L" "0 < (r :: nat)"
  shows "(r + L - 1) div L = Suc ((r - min L r + L - 1) div L)"
proof (cases "r \<le> L")
  case True
  then have "r + L - 1 = L + (r - 1)" "r - 1 < L" using assms by simp_all
  then show ?thesis using assms(1) True by (simp only: div_add_self1 [OF gr_implies_not0 [OF assms(1)]]) simp
next
  case False
  then have "r + L - 1 = L + (r - L + L - 1)" by simp
  then show ?thesis using False by (simp only: div_add_self1 [OF gr_implies_not0 [OF assms(1)]]) simp
qed

lemma level_run:
  assumes "\<not> dp_done dp" "0 < bm_lines (dp_current dp)" "0 < bm_linesLeft (dp_current dp)"
  shows "\<exists>ps. next_parts d gamma ((bm_linesLeft (dp_current dp) + bm_lines (dp_current dp) - 1) div bm_lines (dp_current dp) + q) dp =
      Option.bind (next_parts d gamma q (level_end d gamma (after_rows (bm_linesLeft (dp_current dp)) dp))) (\<lambda>(qs, e). Some (ps @ qs, e)) \<and>
    (\<forall>p \<in> set ps. part_width p div 4 = blocks_wide dp \<and>
       part_offset p + part_width p div 4 * part_lines p \<le> dp_offset dp + blocks_wide dp * bm_linesLeft (dp_current dp))"
  using assms
proof (induction "bm_linesLeft (dp_current dp)" arbitrary: dp rule: less_induct)
  case less
  define L where "L = bm_lines (dp_current dp)"
  define r where "r = bm_linesLeft (dp_current dp)"
  define l where "l = min L r"
  have l: "0 < l" "l \<le> r" "0 < L" "0 < r" using less.prems by (simp_all add: l_def L_def r_def)
  note next_part = NextPart_rows [OF less.prems(1), of d gamma, folded L_def r_def, folded l_def]
  note count = parts_step [OF l(3,4), folded l_def]
  have this_part: "part_width (part_of dp l) div 4 = blocks_wide dp" "part_offset (part_of dp l) = dp_offset dp" "part_lines (part_of dp l) = l"
    by (simp_all add: part_of_def blocks_wide_def)
  show ?case
  proof (cases "r = l")
    case True
    then have "(r - l + L - 1) div L = 0" using l(3) by simp
    then show ?thesis
      unfolding L_def [symmetric] r_def [symmetric] count
      by (intro exI [of _ "[part_of dp l]"]) (simp add: next_part True this_part split: Option.bind_split)
  next
    case False
    let ?dp = "after_rows l dp"
    have smaller: "bm_linesLeft (dp_current ?dp) < bm_linesLeft (dp_current dp)" "0 < bm_linesLeft (dp_current ?dp)"
      using l False by (simp_all add: r_def [symmetric])
    have "\<not> dp_done ?dp" "0 < bm_lines (dp_current ?dp)" using less.prems by simp_all
    from less.hyps [OF smaller(1) this smaller(2)] obtain ps where
      ps: "next_parts d gamma ((r - l + L - 1) div L + q) ?dp =
        Option.bind (next_parts d gamma q (level_end d gamma (after_rows (r - l) ?dp))) (\<lambda>(qs, e). Some (ps @ qs, e))"
        "\<forall>p \<in> set ps. part_width p div 4 = blocks_wide dp \<and>
          part_offset p + part_width p div 4 * part_lines p \<le> dp_offset ?dp + blocks_wide dp * (r - l)"
      unfolding after_rows_simps r_def [symmetric] L_def [symmetric] by blast
    have off: "dp_offset ?dp + blocks_wide dp * (r - l) \<le> dp_offset dp + blocks_wide dp * r"
    proof -
      have "blocks_wide dp * l + blocks_wide dp * (r - l) = blocks_wide dp * r" using l(2) by (simp flip: distrib_left)
      then show ?thesis using after_rows_offset [of l dp] by linarith
    qed
    have "after_rows (r - l) ?dp = after_rows r dp" using l(2) by (simp add: after_rows_add)
    with ps(1) have "next_parts d gamma ((r + L - 1) div L + q) dp =
        Option.bind (next_parts d gamma q (level_end d gamma (after_rows r dp))) (\<lambda>(qs, e). Some ((part_of dp l # ps) @ qs, e))"
      unfolding count add_Suc next_parts.simps using False
      by (cases "next_parts d gamma q (level_end d gamma (after_rows r dp))") (auto simp: next_part)
    moreover have "part_offset p + part_width p div 4 * part_lines p \<le> dp_offset dp + blocks_wide dp * r \<and> part_width p div 4 = blocks_wide dp"
      if "p \<in> set (part_of dp l # ps)" for p
      using that ps(2) off l(2) this_part by (auto intro: order_trans)
    ultimately show ?thesis
      unfolding L_def [symmetric] r_def [symmetric] by (intro exI [of _ "part_of dp l # ps"]) blast
  qed
qed

section \<open>All levels\<close>

definition nat_level :: "nat \<times> nat \<Rightarrow> nat \<Rightarrow> nat \<times> nat" where
  "nat_level sz i = (max 1 (fst sz div 2 ^ i), max 1 (snd sz div 2 ^ i))"

definition level_rows :: "nat \<times> nat \<Rightarrow> nat \<Rightarrow> nat" where
  "level_rows sz i = max 4 (snd (nat_level sz i)) div 4"

definition level_blocks :: "nat \<times> nat \<Rightarrow> nat \<Rightarrow> nat" where
  "level_blocks sz i = max 4 (fst (nat_level sz i)) div 4 * level_rows sz i"

definition parts_of_level :: "nat \<times> nat \<Rightarrow> nat \<Rightarrow> nat" where
  "parts_of_level sz i = (level_rows sz i + 32 * 2 ^ i - 1) div (32 * 2 ^ i)"

definition levels :: "nat \<times> nat \<Rightarrow> nat" where
  "levels sz = NumberOfMipLevels (int (fst sz), int (snd sz))"

lemma int_level: "level_size (int (fst sz), int (snd sz)) i = (int (fst (nat_level sz i)), int (snd (nat_level sz i)))"
  by (simp add: level_size_def nat_level_def zdiv_int of_nat_max)

lemma next_nat_level: "(max 1 (fst (nat_level sz i) div 2), max 1 (snd (nat_level sz i) div 2)) = nat_level sz (Suc i)"
proof -
  have "max 1 (max 1 (x div 2 ^ i) div 2) = max 1 (x div 2 ^ Suc i)" for x :: nat
  proof -
    have "x div 2 ^ Suc i = x div 2 ^ i div 2" by (simp only: power_Suc2 div_mult2_eq)
    then show ?thesis by (cases "x div 2 ^ i = 0") (simp_all add: max_def)
  qed
  then show ?thesis by (simp add: nat_level_def)
qed

lemma inner_level:
  assumes "0 < fst sz" "0 < snd sz" "Suc i < levels sz"
  shows "fst (nat_level sz i) \<noteq> 1 \<or> snd (nat_level sz i) \<noteq> 1"
  using level_not_last [of i "(int (fst sz), int (snd sz))"] assms unfolding int_level levels_def by auto

lemma outer_level:
  assumes "0 < fst sz" "0 < snd sz"
  shows "nat_level sz (levels sz - 1) = (1, 1)" and "0 < levels sz"
  using last_level [of "(int (fst sz), int (snd sz))"] assms unfolding int_level levels_def by (auto simp: prod_eq_iff)

lemma level_rows_pos: "0 < level_rows sz i"
  by (simp add: level_rows_def less_eq_div_iff_mult_less_eq Suc_le_eq [symmetric])

text \<open>The state in which level \<open>i\<close> is begun.\<close>

definition begins_level :: "nat \<times> nat \<Rightarrow> nat \<Rightarrow> provider \<Rightarrow> bool" where
  "begins_level sz i dp \<longleftrightarrow> \<not> dp_done dp \<and> dp_lines dp = 32 * 2 ^ i \<and> bm_lines (dp_current dp) = 32 * 2 ^ i \<and>
     bm_linesLeft (dp_current dp) = level_rows sz i \<and> bm_size (dp_current dp) = nat_level sz i"

lemma level_end_cases:
  fixes d :: downsampler and gamma :: "u32 list \<Rightarrow> nat \<Rightarrow> nat \<Rightarrow> u32 list"
  assumes "begins_level sz i dp" "0 < fst sz" "0 < snd sz" "i < levels sz"
  defines "e \<equiv> level_end d gamma (after_rows (level_rows sz i) dp)"
  shows "dp_offset e \<le> dp_offset dp + level_blocks sz i" and "dp_mipmap e = dp_mipmap dp"
    and "dp_mipmap dp \<Longrightarrow> Suc i < levels sz \<Longrightarrow> begins_level sz (Suc i) e"
    and "\<not> dp_mipmap dp \<or> Suc i = levels sz \<Longrightarrow> dp_done e"
proof -
  let ?a = "after_rows (level_rows sz i) dp"
  have b: "blocks_wide dp * level_rows sz i = level_blocks sz i" using assms(1) by (simp add: begins_level_def blocks_wide_def level_blocks_def)
  have a: "dp_lines ?a = 32 * 2 ^ i" "bm_size (dp_current ?a) = nat_level sz i" "dp_mipmap ?a = dp_mipmap dp" "\<not> dp_done ?a"
    using assms(1) by (simp_all add: begins_level_def after_rows_def Let_def)
  have "dp_offset e = dp_offset ?a" by (simp add: e_def level_end_def Let_def)
  then show "dp_offset e \<le> dp_offset dp + level_blocks sz i" using after_rows_offset [of "level_rows sz i" dp] by (simp add: b)
  show "dp_mipmap e = dp_mipmap dp" by (simp add: e_def level_end_def Let_def a)
  show "begins_level sz (Suc i) e" if "dp_mipmap dp" "Suc i < levels sz"
    using inner_level [OF assms(2,3) that(2)] that(1) next_nat_level [of sz i] a
    by (auto simp: e_def level_end_def Let_def begins_level_def downsampled_def level_rows_def max.commute)
  show "dp_done e" if "\<not> dp_mipmap dp \<or> Suc i = levels sz"
  proof -
    have "Suc i = levels sz \<Longrightarrow> nat_level sz i = (1, 1)" using outer_level(1) [OF assms(2,3)] by (metis diff_Suc_1)
    then show ?thesis using that a by (auto simp: e_def level_end_def Let_def)
  qed
qed

text \<open>From level \<open>i\<close> to the end, with mipmaps.\<close>

lemma levels_run:
  assumes "0 < fst sz" "0 < snd sz" "i < levels sz" "begins_level sz i dp" "dp_mipmap dp"
  shows "\<exists>ps e. next_parts d gamma (\<Sum>j = i..<levels sz. parts_of_level sz j) dp = Some (ps, e) \<and> dp_done e \<and>
    (\<forall>p \<in> set ps. part_offset p + part_width p div 4 * part_lines p \<le> dp_offset dp + (\<Sum>j = i..<levels sz. level_blocks sz j))"
  using assms(3-5)
proof (induction "levels sz - i" arbitrary: i dp)
  case (Suc k)
  let ?N = "\<lambda>i. \<Sum>j = i..<levels sz. parts_of_level sz j" and ?B = "\<lambda>i. \<Sum>j = i..<levels sz. level_blocks sz j"
  have split: "?N i = parts_of_level sz i + ?N (Suc i)" "?B i = level_blocks sz i + ?B (Suc i)"
    using Suc.prems(1) by (simp_all add: sum.atLeast_Suc_lessThan)
  note b = Suc.prems(2) [unfolded begins_level_def]
  let ?e = "level_end d gamma (after_rows (level_rows sz i) dp)"
  note ends = level_end_cases [OF Suc.prems(2) assms(1,2) Suc.prems(1), of d gamma]
  have wide: "blocks_wide dp * level_rows sz i = level_blocks sz i" using b by (simp add: blocks_wide_def level_blocks_def)
  have "\<not> dp_done dp" "0 < bm_lines (dp_current dp)" "0 < bm_linesLeft (dp_current dp)" using b level_rows_pos by simp_all
  note run = level_run [OF this, of d gamma "?N (Suc i)"]
  have p: "(bm_linesLeft (dp_current dp) + bm_lines (dp_current dp) - 1) div bm_lines (dp_current dp) = parts_of_level sz i"
    "bm_linesLeft (dp_current dp) = level_rows sz i" using b by (simp_all add: parts_of_level_def)
  from run [unfolded p(1), unfolded p(2) wide, folded split(1)] obtain ps where
    ps: "next_parts d gamma (?N i) dp = Option.bind (next_parts d gamma (?N (Suc i)) ?e) (\<lambda>(qs, e). Some (ps @ qs, e))"
      "\<forall>p \<in> set ps. part_offset p + part_width p div 4 * part_lines p \<le> dp_offset dp + level_blocks sz i" by blast
  show ?case
  proof (cases "Suc i < levels sz")
    case True
    have k: "k = levels sz - Suc i" using Suc.hyps(2) by simp
    have "begins_level sz (Suc i) ?e" "dp_mipmap ?e" using ends(2,3) True Suc.prems(3) by simp_all
    from Suc.hyps(1) [OF k True this] obtain qs e where
      q: "next_parts d gamma (?N (Suc i)) ?e = Some (qs, e)" "dp_done e"
        "\<forall>p \<in> set qs. part_offset p + part_width p div 4 * part_lines p \<le> dp_offset ?e + ?B (Suc i)" by blast
    have "dp_offset ?e + ?B (Suc i) \<le> dp_offset dp + ?B i" "level_blocks sz i \<le> ?B i" using ends(1) by (simp_all add: split(2))
    then show ?thesis using ps q by (intro exI [of _ "ps @ qs"] exI [of _ e]) (auto intro: order_trans)
  next
    case False
    then have "Suc i = levels sz" using Suc.prems(1) by simp
    then have "?N (Suc i) = 0" "?B i = level_blocks sz i" "dp_done ?e" using ends(4) split(2) by simp_all
    then show ?thesis using ps by (intro exI [of _ ps] exI [of _ ?e]) simp
  qed
qed simp

lemma levels_parts_levels:
  assumes "i + n < levels sz" "0 < fst sz" "0 < snd sz"
  shows "levels_parts n (nat_level sz i, 32 * 2 ^ i, P) =
    Some (nat_level sz (i + n), 32 * 2 ^ (i + n), P + (\<Sum>j = Suc i..i + n. parts_of_level sz j))"
  using assms(1)
proof (induction n arbitrary: i P)
  case (Suc n)
  have step: "level_parts (nat_level sz i, 32 * 2 ^ i, P) = Some (nat_level sz (Suc i), 32 * 2 ^ Suc i, P + parts_of_level sz (Suc i))"
    using inner_level [OF assms(2,3), of i] Suc.prems next_nat_level [of sz i]
    by (simp add: level_parts_def Let_def parts_of_level_def level_rows_def ac_simps del: One_nat_def)
  have "Suc i + n < levels sz" using Suc.prems by simp
  from Suc.IH [OF this, of "P + parts_of_level sz (Suc i)"] have
    "levels_parts n (nat_level sz (Suc i), 32 * 2 ^ Suc i, P + parts_of_level sz (Suc i)) =
      Some (nat_level sz (Suc i + n), 32 * 2 ^ (Suc i + n), P + parts_of_level sz (Suc i) + (\<Sum>j = Suc (Suc i)..Suc i + n. parts_of_level sz j))" .
  moreover have "(\<Sum>j = Suc i..i + Suc n. parts_of_level sz j) = parts_of_level sz (Suc i) + (\<Sum>j = Suc (Suc i)..Suc i + n. parts_of_level sz j)"
    by (subst sum.atLeast_Suc_atMost) simp_all
  ultimately show ?case using step by (simp add: add.assoc)
qed simp

lemma first_level:
  assumes "new_provider data sz mipmap linearize = Some dp" "0 < fst sz" "0 < snd sz"
  shows "begins_level sz 0 dp" "dp_mipmap dp = mipmap" "dp_offset dp = 0" "dp_first dp = sz" "dp_lines dp = 32" "nat_level sz 0 = sz"
    "fst sz mod 4 = 0" "snd sz mod 4 = 0" "4 \<le> fst sz" "4 \<le> snd sz"
proof -
  have a: "fst sz mod 4 = 0" "snd sz mod 4 = 0" using assms(1) by (auto simp: new_provider_def new_bitmap_def split: if_splits)
  then show "fst sz mod 4 = 0" "snd sz mod 4 = 0" "4 \<le> fst sz" "4 \<le> snd sz"
    using assms(2,3) by (auto simp: mod_eq_0_iff_dvd dest: dvd_imp_le)
  then show "begins_level sz 0 dp" "dp_mipmap dp = mipmap" "dp_offset dp = 0" "dp_first dp = sz" "dp_lines dp = 32" "nat_level sz 0 = sz"
    using assms(1) a by (auto simp: new_provider_def new_bitmap_def begins_level_def nat_level_def level_rows_def prod_eq_iff max_def)
qed

definition all_blocks :: "nat \<times> nat \<Rightarrow> bool \<Rightarrow> nat" where
  "all_blocks sz mipmap = (if mipmap then \<Sum>j = 0..<levels sz. level_blocks sz j else level_blocks sz 0)"

definition all_parts :: "nat \<times> nat \<Rightarrow> bool \<Rightarrow> nat" where
  "all_parts sz mipmap = (if mipmap then \<Sum>j = 0..<levels sz. parts_of_level sz j else parts_of_level sz 0)"

lemma NumberOfParts_all:
  assumes "new_provider data sz mipmap linearize = Some dp" "0 < fst sz" "0 < snd sz"
  shows "NumberOfParts dp = Some (all_parts sz mipmap)"
proof -
  note f = first_level [OF assms]
  have rows: "level_rows sz 0 = snd sz div 4" using f(6,10) by (simp add: level_rows_def)
  define n where "n = levels sz - 1"
  have n: "levels sz = Suc n" "nat_level sz n = (1, 1)" using outer_level [OF assms(2,3)] by (simp_all add: n_def)
  have "levels_parts n (sz, 32, parts_of_level sz 0) = Some ((1, 1), 32 * 2 ^ n, parts_of_level sz 0 + (\<Sum>j = Suc 0..n. parts_of_level sz j))"
    using levels_parts_levels [of 0 n sz "parts_of_level sz 0"] n assms(2,3) f(6) by simp
  moreover have "parts_of_level sz 0 + (\<Sum>j = Suc 0..n. parts_of_level sz j) = (\<Sum>j = 0..<levels sz. parts_of_level sz j)"
    unfolding n(1) by (simp add: sum.atLeast_Suc_atMost [of 0 n] atLeastLessThanSuc_atLeastAtMost)
  moreover have parts0: "(snd (dp_first dp) div 4 + dp_lines dp - 1) div dp_lines dp = parts_of_level sz 0"
    by (simp add: f(4,5) parts_of_level_def rows)
  ultimately show ?thesis
    unfolding NumberOfParts_def Let_def parts0 f(4) levels_def [symmetric]
    using f(2,5) n(1) by (simp add: all_parts_def)
qed

lemma provider_run:
  assumes "new_provider data sz mipmap linearize = Some dp" "0 < fst sz" "0 < snd sz"
  shows "\<exists>ps e. next_parts d gamma (all_parts sz mipmap) dp = Some (ps, e) \<and> dp_done e \<and>
    (\<forall>p \<in> set ps. part_offset p + part_width p div 4 * part_lines p \<le> all_blocks sz mipmap)"
proof (cases mipmap)
  case True
  then show ?thesis
    using levels_run [OF assms(2,3) outer_level(2) [OF assms(2,3)] first_level(1) [OF assms], of d gamma] first_level(2,3) [OF assms]
    by (simp add: all_parts_def all_blocks_def)
next
  case False
  note f = first_level [OF assms]
  note b = f(1) [unfolded begins_level_def]
  have "\<not> dp_done dp" "0 < bm_lines (dp_current dp)" "0 < bm_linesLeft (dp_current dp)" using b level_rows_pos by simp_all
  note run = level_run [OF this, of d gamma 0]
  have p: "(bm_linesLeft (dp_current dp) + bm_lines (dp_current dp) - 1) div bm_lines (dp_current dp) + 0 = all_parts sz mipmap"
    "bm_linesLeft (dp_current dp) = level_rows sz 0" "dp_offset dp + blocks_wide dp * level_rows sz 0 = all_blocks sz mipmap"
    using b f(3) False by (simp_all add: parts_of_level_def all_parts_def all_blocks_def blocks_wide_def level_blocks_def)
  from run [unfolded p(1), unfolded p(2), unfolded p(3)] obtain ps where
    ps: "next_parts d gamma (all_parts sz mipmap) dp = Some (ps, level_end d gamma (after_rows (level_rows sz 0) dp))"
      "\<forall>p \<in> set ps. part_offset p + part_width p div 4 * part_lines p \<le> all_blocks sz mipmap" by auto
  moreover have "dp_done (level_end d gamma (after_rows (level_rows sz 0) dp))"
    using level_end_cases(4) [OF f(1) assms(2,3) outer_level(2) [OF assms(2,3)]] f(2) False by simp
  ultimately show ?thesis by blast
qed

lemma next_parts_add:
  "next_parts d gamma (k + l) dp = Option.bind (next_parts d gamma k dp) (\<lambda>(qs, e).
     map_option (\<lambda>(rs, f). (qs @ rs, f)) (next_parts d gamma l e))"
proof (induction k arbitrary: dp)
  case (Suc k)
  show ?case by (simp add: Suc case_prod_beta Option.bind_map_option o_def map_option_case split: Option.bind_split option.split)
qed (simp add: case_prod_beta option.map_id)

lemma not_done_before:
  assumes "next_parts d gamma n dp = Some (ps, e)" "k < n" "next_parts d gamma k dp = Some (qs, f)"
  shows "\<not> dp_done f"
proof
  assume "dp_done f"
  then have "next_parts d gamma (Suc l) f = None" for l by (simp add: NextPart_def)
  moreover have "n = k + Suc (n - k - 1)" using assms(2) by simp
  ultimately show False using assms(1,3) next_parts_add [of d gamma k "Suc (n - k - 1)" dp] by simp
qed

text \<open>C18: The parts of an image: for every size that a bitmap can have, no assertion of \<open>NumberOfParts\<close> or \<open>NextPart\<close>
  fails, and the number of parts is exactly the number of calls of \<open>NextPart\<close> after which the provider is
  done with the last level.\<close>

theorem parts_delivered:
  assumes "new_provider data sz mipmap linearize = Some dp" "0 < fst sz" "0 < snd sz"
  shows "\<exists>n ps e. NumberOfParts dp = Some n \<and> next_parts d gamma n dp = Some (ps, e) \<and> dp_done e \<and>
    (\<forall>k < n. \<exists>qs f. next_parts d gamma k dp = Some (qs, f) \<and> \<not> dp_done f)"
proof -
  from provider_run [OF assms, of d gamma] obtain ps e where
    run: "next_parts d gamma (all_parts sz mipmap) dp = Some (ps, e)" "dp_done e" by blast
  have "\<exists>qs f. next_parts d gamma k dp = Some (qs, f) \<and> \<not> dp_done f" if "k < all_parts sz mipmap" for k
  proof -
    have "next_parts d gamma (k + (all_parts sz mipmap - k)) dp \<noteq> None" using run(1) that by simp
    then obtain qs f where "next_parts d gamma k dp = Some (qs, f)"
      unfolding next_parts_add by (cases "next_parts d gamma k dp") auto
    with not_done_before [OF run(1) that] show ?thesis by blast
  qed
  with NumberOfParts_all [OF assms] run show ?thesis by blast
qed

lemma parts_delivered_witness:
  "\<exists>dp n ps e. new_provider (replicate 32 7) (8, 4) True False = Some dp \<and> NumberOfParts dp = Some n \<and>
    next_parts Avx2 (\<lambda>s w h. s) n dp = Some (ps, e) \<and> dp_done e"
proof -
  obtain dp where dp: "new_provider (replicate 32 7) (8, 4) True False = Some dp" by (simp add: new_provider_def new_bitmap_def)
  from parts_delivered [OF dp] dp show ?thesis by fastforce
qed

lemma level_blocks_bytes: "8 * int (level_blocks sz i) \<le> level_bytes (int (fst sz), int (snd sz)) i"
proof -
  define a where "a = max 4 (fst (nat_level sz i))"
  define b where "b = max 4 (snd (nat_level sz i))"
  have area: "level_area (level_size (int (fst sz), int (snd sz)) i) = int a * int b"
    by (simp add: level_area_def int_level a_def b_def of_nat_max)
  have "4 * (a div 4) * (4 * (b div 4)) \<le> a * b" by (intro mult_le_mono) simp_all
  moreover have "16 * (A * B) = (4 * A) * (4 * B)" for A B :: nat by simp
  ultimately have nat: "16 * (a div 4 * (b div 4)) \<le> a * b" by metis
  have "16 * int (a div 4 * (b div 4)) \<le> int a * int b"
    using nat by (metis of_nat_le_iff of_nat_mult of_nat_numeral)
  with area show ?thesis
    by (simp add: level_bytes_def level_blocks_def level_rows_def a_def [symmetric] b_def [symmetric])
qed

lemma all_blocks_fit:
  assumes "file_size_ok (int (fst sz), int (snd sz))"
  shows "52 + 8 * doubled type * int (all_blocks sz mipmap) \<le> file_length (int (fst sz), int (snd sz)) mipmap type"
proof -
  let ?sz = "(int (fst sz), int (snd sz))"
  note a = file_area [OF assms]
  have pos: "0 < fst sz" "0 < snd sz" using a(1,2) by simp_all
  have zero: "level_size ?sz 0 = ?sz" using a(1,2) by (simp add: level_size_def)
  have first: "8 * int (level_blocks sz 0) \<le> fst ?sz * snd ?sz div 2"
    using level_blocks_bytes [of sz 0] by (simp only: level_bytes_def zero a(5))
  have "8 * int (all_blocks sz mipmap) \<le> fst ?sz * snd ?sz div 2 + (if mipmap then mip_bytes ?sz else 0)"
  proof (cases mipmap)
    case True
    have "(\<Sum>j = 0..<levels sz. level_blocks sz j) = level_blocks sz 0 + (\<Sum>j = 1..<levels sz. level_blocks sz j)"
      using outer_level(2) [OF pos] by (simp add: sum.atLeast_Suc_lessThan)
    moreover have "8 * int (\<Sum>j = 1..<levels sz. level_blocks sz j) \<le> mip_bytes ?sz"
      unfolding mip_bytes_def levels_def [symmetric] of_nat_sum sum_distrib_left by (intro sum_mono level_blocks_bytes)
    ultimately show ?thesis using first True by (simp add: all_blocks_def)
  qed (use first in \<open>simp add: all_blocks_def\<close>)
  moreover have "0 \<le> doubled type" by (simp add: doubled_def)
  ultimately have "doubled type * (8 * int (all_blocks sz mipmap)) \<le>
      doubled type * (fst ?sz * snd ?sz div 2 + (if mipmap then mip_bytes ?sz else 0))" by (rule mult_left_mono)
  then show ?thesis by (simp only: file_length_def mult.assoc mult.left_commute [of 8] fst_conv snd_conv add_le_cancel_left)
qed

text \<open>C19: The parts of an image fit into its file: the words of every part, two for each block of the types with alpha, lie
  within the file that was created for the size of the image, with mipmaps or without.\<close>

theorem parts_fit:
  assumes "new_provider data (x, y) mipmap linearize = Some dp" "0 < x" "0 < y" "x * y < 2 ^ 31"
    and "create_file (int x, int y) mipmap type = Some bd"
    and "NumberOfParts dp = Some n" "next_parts d gamma n dp = Some (ps, e)" "p \<in> set ps"
  shows "m_dataOffset bd + 8 * (if type = Etc2_RGBA \<or> type = Dxt5 then 2 else 1) * (part_offset p + part_width p div 4 * part_lines p)
    \<le> length (m_data bd)"
proof -
  have pos: "0 < fst (x, y)" "0 < snd (x, y)" using assms(2,3) by simp_all
  note f = first_level [OF assms(1) pos]
  have "int x * int y < 2 ^ 31" using assms(4) by (metis of_nat_less_iff of_nat_mult of_nat_numeral of_nat_power)
  then have ok: "file_size_ok (int x, int y)" using f(7,8) assms(2,3) by (simp add: file_size_ok_def zmod_int [of _ 4, simplified, symmetric])
  define N where "N = part_offset p + part_width p div 4 * part_lines p"
  have "n = all_parts (x, y) mipmap" using NumberOfParts_all [OF assms(1) pos] assms(6) by simp
  with provider_run [OF assms(1) pos, of d gamma] assms(7,8) have "N \<le> all_blocks (x, y) mipmap" by (auto simp: N_def)
  then have "52 + 8 * doubled type * int N \<le> 52 + 8 * doubled type * int (all_blocks (x, y) mipmap)"
    by (intro add_left_mono mult_left_mono) (simp_all add: doubled_def)
  also have "\<dots> \<le> file_length (int x, int y) mipmap type" using all_blocks_fit [of "(x, y)"] ok by simp
  also have "\<dots> = int (length (m_data bd))"
    using create_file_length [OF ok, of mipmap type] assms(5) by (metis option.inject)
  finally have "52 + 8 * doubled type * int N \<le> int (length (m_data bd))" .
  then have "52 + 8 * (if type = Etc2_RGBA \<or> type = Dxt5 then 2 else 1) * N \<le> length (m_data bd)"
    by (cases "type = Etc2_RGBA \<or> type = Dxt5") (simp_all add: doubled_def)
  moreover have "m_dataOffset bd = 52" using assms(5) by (auto elim: create_fileE)
  ultimately show ?thesis by (simp add: N_def)
qed

lemma length_next_parts: "next_parts d gamma n dp = Some (ps, e) \<Longrightarrow> length ps = n"
  by (induction n arbitrary: dp ps) (auto split: bind_splits prod.splits)

lemma parts_fit_witness:
  "\<exists>dp bd n ps e p. new_provider (replicate 32 7) (8, 4) True False = Some dp \<and> create_file (int 8, int 4) True Etc2_RGBA = Some bd \<and>
    NumberOfParts dp = Some n \<and> next_parts Avx2 (\<lambda>s w h. s) n dp = Some (ps, e) \<and> p \<in> set ps \<and>
    m_dataOffset bd + 8 * (if Etc2_RGBA = Etc2_RGBA \<or> Etc2_RGBA = Dxt5 then 2 else 1) *
      (part_offset p + part_width p div 4 * part_lines p) \<le> length (m_data bd)"
proof -
  obtain dp where dp: "new_provider (replicate 32 7) (8, 4) True False = Some dp" by (simp add: new_provider_def new_bitmap_def)
  have "file_size_ok (int 8, int 4)" by (simp add: file_size_ok_def)
  then obtain bd where bd: "create_file (int 8, int 4) True Etc2_RGBA = Some bd" by (rule create_file_length)
  note n = NumberOfParts_all [OF dp]
  obtain ps e where ps: "next_parts Avx2 (\<lambda>s w h. s) (all_parts (8, 4) True) dp = Some (ps, e)"
    using provider_run [OF dp, of Avx2 "\<lambda>s w h. s"] by auto
  have "0 < all_parts (8, 4) True" by code_simp
  with length_next_parts [OF ps] obtain p where p: "p \<in> set ps" by (cases ps) auto
  have pos: "0 < (8::nat)" "0 < (4::nat)" "8 * 4 < (2 ^ 31 :: nat)" by simp_all
  have N: "NumberOfParts dp = Some (all_parts (8, 4) True)" by (rule n) simp_all
  show ?thesis using parts_fit [OF dp pos bd N ps p] dp bd N ps p by blast
qed

end
