(* ===== verification/Spec2Isabelle.thy ===== *)
theory Spec2Isabelle imports Etc1RoundTrip Etc2THSort Etc2THSearch DxtSimd Pipeline Provider begin

text \<open>
  A verification library for the texture compressor of this repository: etcpak with the pipeline of HETC2, which
  compresses an image on the CPU, reports the blocks with a high error and lets an encoder on the GPU compress the
  worst of them again.

  \<^bold>\<open>The program.\<close>  \<open>main\<close> (\<open>src/Application.cpp\<close>) with the second pass switched on, loads an image, creates the file of the compressed blocks
  (\<open>BlockData\<close>), cuts the image into bands of 32 rows of blocks and queues a task per band (\<open>TaskDispatch\<close>).
  A task calls \<open>Process\<close> or \<open>ProcessRGBA\<close>, which run a loop over the blocks of the band and store one or two 64-bit
  words per block in the file.  The ETC2 loop of the main path also stores a report of every block with a high error:
  its address, the error and its pixels.  After \<open>Sync\<close> the reports are joined and \<open>ProcessWithGPU\<close> sorts them, lays
  the pixels of the worst ones out as tiles of an image, has the image encoded and copies the words to the
  addresses of the reports.  Without the second pass, and for a directory of images, \<open>DataProvider\<close> delivers the
  parts of an image and of its mip levels.

  \<^bold>\<open>Data.\<close>  Bytes, 16-bit, 32-bit and 64-bit integers are words (\<open>u8\<close>, \<open>u16\<close>, \<open>u32\<close>, \<open>u64\<close>); \<open>int\<close> values that
  cannot overflow are integers, the others are checked by \<open>int32\<close>.  An image is the list of its 32-bit pixels, a
  source block the list of its bytes, 16 pixels of four bytes in columns, blue first.  A pointer is an index.
  An assertion that fails, an overflow of an \<open>int\<close>, a read past the end of the image or of a header or a write past the
  end of an array or of the file is \<open>None\<close>.  Floats are rationals that every
  operation rounds to 24 bits (\<open>Etc2Planar.rnd\<close>).  All loops of the program are folds, structural recursions or
  functions with a measure, so no fuel is used; the only loop that can run for ever, the one of the workers, is a step
  relation.

  \<^bold>\<open>Helpers.\<close>
  \<^item> \<open>Prelude\<close>: byte order, bits of words and the collection \<open>bitwise\<close>, folds over index lists.
  \<^item> \<open>EtcTables\<close> (\<open>src/Tables.cpp\<close>), \<open>EtcMath\<close> (\<open>src/Math.hpp\<close>, \<open>src/ProcessCommon.hpp\<close>), \<open>DxtTables\<close>
    (\<open>src/ProcessDxtc.cpp\<close>): the tables and the integer helpers.
  \<^item> \<open>Memory\<close>: words as bytes on a little-endian machine, and the vector instructions that the loops use.

  \<^bold>\<open>Decoders\<close> (\<open>src/BlockData.cpp\<close>).
  \<^item> \<open>EtcDecode\<close>: \<open>DecodeRGBPart\<close>, \<open>DecodeRGBAPart\<close> with the T, H and planar blocks, \<open>DecodeRGB\<close> and
    \<open>DecodeRGBA\<close>.  The locale \<open>block_decoder\<close> states that a decoder writes a block of 4 x 4 pixels and nothing
    else, and shows once that such a decoder fills an image; it is interpreted for RGB, RGBA, DXT1 and DXT5.
  \<^item> \<open>DxtDecode\<close>: the same for \<open>DecodeDxt1\<close> and \<open>DecodeDxt5\<close>.
  \<^item> \<open>Etc2Modes\<close>: when a block is a T, H or planar block, on the fields of the word.

  \<^bold>\<open>Compressors of a block\<close> (\<open>src/ProcessRGB.cpp\<close>, \<open>src/ProcessDxtc.cpp\<close>; where nothing else is said, the bodies
  that are compiled without vector instructions).
  \<^item> \<open>Etc1Encode\<close>, \<open>Etc1RoundTrip\<close>: \<open>ProcessRGB\<close>.  The decoder shows exactly the colours that the encoder settled on,
    the search is optimal over tables and selectors, and no such block is mistaken for another mode.
  \<^item> \<open>Etc2TH\<close>, \<open>Etc2THSort\<close>, \<open>Etc2THRoundTrip\<close>, \<open>Etc2THSearch\<close>: \<open>compressBlockTH\<close> with its sort, clustering,
    search of the distance and packing.  The sort is a stable permutation, the decoder shows the paint colours that
    were chosen, every pixel gets a nearest one of the distance that the search returned; the exception, H blocks with
    equal colours and an even distance, is stated too.
  \<^item> \<open>Etc2Planar\<close>, \<open>Etc2Encode\<close>: \<open>Planar\<close>, \<open>CalculateLuma\<close>, \<open>SelectModeETC2\<close> and \<open>ProcessRGB_ETC2\<close>, which chooses
    between the modes: which one is written, by the range of luma and the errors.
  \<^item> \<open>EacEncode\<close>: \<open>ProcessAlpha_ETC2\<close>, its round trip and the optimality of its search.
  \<^item> \<open>DxtEncode\<close>, \<open>DxtRoundTrip\<close>: \<open>ProcessRGB\<close> and \<open>ProcessAlpha\<close> of DXT with the loops \<open>CompressDxt1\<close>,
    \<open>CompressDxt1Dither\<close> and \<open>CompressDxt5\<close>: the colours shown, the bounds on indices and alpha.
  \<^item> \<open>DxtVector\<close>, \<open>DxtSimd\<close>: the SSE4.1 and AVX2 forms of the DXT colours and of the DXT1 loops.  They write or show the
    same as the scalar form, except that blocks with a wide range of alpha read past a table.
  \<^item> \<open>Dither\<close> (\<open>src/Dither.cpp\<close>): the scalar loop, the AVX2 branch and \<open>DitherAvx2\<close> agree on the colours.

  \<^bold>\<open>Compressors of an image\<close> (\<open>src/ProcessRGB.cpp\<close>).
  \<^item> \<open>BlockLoop\<close>: the loop over the blocks and whether its reads stay within the image, with the locale \<open>block_reader\<close>: a reader delivers the pixels of a block and
    moves to the next; then the loop visits the blocks of the image in order.  It is interpreted for the readers of
    \<open>Compress\<close> (RGB, RGBA and alpha, scalar and vector) and of \<open>DxtRoundTrip\<close>.
  \<^item> \<open>Compress\<close>, \<open>CompressImage\<close>: \<open>CompressEtc1Rgb\<close> and the other loops, for each build: the branch of the loop
    (\<open>simd\<close>) and the block compressors (\<open>block_encoders\<close>, of which \<open>scalar_encoders\<close> are modelled) are arguments.
    Some report blocks with a high error to a vector or an array.  The branches hand the same blocks to the
    compressors, decoding an image that was
    compressed shows each pixel from its own block, the reports are exactly the flagged blocks with their errors and colours, the array refines
    the vector and is not overrun.  Which blocks are flagged, the result of the encoder with error output, is a parameter.

  \<^bold>\<open>Files, tasks and the second pass.\<close>
  \<^item> \<open>BlockFile\<close> (\<open>src/BlockData.cpp\<close>, \<open>src/MipMap.hpp\<close>): the header, the length with mip levels, opening a file.  The locale
    \<open>word_memory\<close> states what reads promise after writes of arrays of words; the file is its interpretation.
  \<^item> \<open>Container\<close>: \<open>Process\<close>, \<open>ProcessRGBA\<close> and \<open>Decode\<close>, which choose the loop by the type of the file.
  \<^item> \<open>TaskDispatch\<close>: the pool as a step relation between the critical sections of client and workers, with
    \<open>notify_one\<close>, \<open>notify_all\<close>, spurious wake-ups and the destructor.  An invariant of all reachable states accounts for
    every task; there is no deadlock, \<open>Sync\<close> waits for all tasks, and each run without spurious wake-ups is bounded by
    a measure, so that a batch of tasks comes to its end under every schedule.
  \<^item> \<open>GpuImage\<close>, \<open>GpuPass\<close> (\<open>src/BlockDataGPU.cpp\<close>, and the conversions of \<open>src/betsy\<close> and \<open>src/FreeImage\<close> that it
    calls): the tiles, and the pass.  The encoder on the GPU is a parameter, a function from the pixels of a tile
    to its word; so is the sort of the standard library, of which only sortedness is assumed.  The size of the image is
    an \<open>int\<close>, which bounds the blocks of a pass by \<open>6688 ^ 2\<close>; the cases in which the pass is undefined are stated.
  \<^item> \<open>Jobs\<close>, \<open>Pipeline\<close> (\<open>src/Application.cpp\<close>): the bands, the tasks, the joined reports and the whole main path:
    whatever the schedule, the file at the end holds what the abstract description of the two passes says.
  \<^item> \<open>Downsample\<close> (\<open>src/BitmapDownsampled.cpp\<close>), \<open>Provider\<close> (\<open>src/DataProvider.cpp\<close>, \<open>src/Bitmap.cpp\<close>): mip levels and the
    parts of an image.  The three branches compute averages, the provider delivers the announced number of
    parts, and they fit into the file.

  \<^bold>\<open>Not modelled.\<close>
  \<^item> The SSE4.1, AVX2 and NEON bodies of the ETC compressors, the SSE form of the DXT5 alpha and the NEON form of DXT:
    they duplicate the reference bodies with other roundings.  The vector forms of the loops around them, of dithering and of downsampling are modelled.
  \<^item> Levels with gamma correction (a parameter of \<open>downsampled\<close>) and the quality measures of \<open>src/Error.cpp\<close> and
    \<open>src/ColorSpace.cpp\<close>: floating point with reciprocal square roots and cube roots that C leaves to the library.
  \<^item> The loading of images by libpng, the semaphore between loader and reader, the mapping of files, clocks and
    debug output: calls of the operating system and of libraries.
  \<^item> The OpenGL encoders and shaders of \<open>src/betsy\<close>, the vendored libraries (FreeImage, libpng, zlib, lz4, tracy,
    SDL, getopt), the command line, the benchmark and the branch for directories of \<open>main\<close>.
\<close>

end
